(* ===== verification/Prelude.thy ===== *)
theory Prelude
  imports Main "HOL-Library.Word" "HOL-Library.Signed_Division" "HOL-Library.Code_Target_Numeral"
begin

text \<open>
  Shared vocabulary of the development: how a C++ failure is a value, how a \<open>byte\<close> wraps,
  and the arithmetic of base-ten digit segments of an array, which the decimal component and
  its clients use. Facts that carry component proofs are collected in the named theorems
  \<open>seg_simps\<close> (digit segments) and \<open>res_simps\<close> (results that may be errors).
\<close>

named_theorems seg_simps \<open>rewrite rules for digit segments\<close>
named_theorems res_simps \<open>rewrite rules for fallible results\<close>

section \<open>Failures as values\<close>

text \<open>
  \<^item> \<open>OutOfRange\<close>: an array is read or written outside its bounds (undefined in C++);
  \<^item> \<open>AssertFailed\<close>: an \<^verbatim>\<open>assertex\<close> does not hold, which throws;
  \<^item> \<open>Thrown\<close>: the code throws an exception, with its error code;
  \<^item> \<open>NoReturn\<close>: the call does not return (unbounded recursion or looping);
  \<^item> \<open>Undefined\<close>: the call does something else that C++ leaves undefined: it reads a byte that was never
    written, shifts by the width of a type or more, negates the least signed number, adds signed numbers to a sum that
    does not fit, or frees memory that belongs to the caller.
\<close>

datatype cpp_error = OutOfRange | AssertFailed | Thrown int | NoReturn | Undefined

type_synonym 'a res = "cpp_error + 'a"

definition res_bind :: "'a res \<Rightarrow> ('a \<Rightarrow> 'b res) \<Rightarrow> 'b res" where
  "res_bind m f = (case m of Inl e \<Rightarrow> Inl e | Inr x \<Rightarrow> f x)"

lemma res_bind_simps [simp, res_simps]:
  "res_bind (Inl e) f = Inl e"
  "res_bind (Inr x) f = f x"
  by (simp_all add: res_bind_def)

lemma res_bind_eq_Inr [res_simps]:
  "res_bind m f = Inr y \<longleftrightarrow> (\<exists>x. m = Inr x \<and> f x = Inr y)"
  by (auto simp: res_bind_def split: sum.splits)

lemma res_bind_assoc: "res_bind (res_bind m f) g = res_bind m (\<lambda>x. res_bind (f x) g)"
  by (simp add: res_bind_def split: sum.splits)

text \<open>An array read and an array write with the bounds check that C++ leaves out.\<close>

definition rd :: "'a list \<Rightarrow> int \<Rightarrow> 'a res" where
  "rd xs i = (if 0 \<le> i \<and> i < int (length xs) then Inr (xs ! nat i) else Inl OutOfRange)"

definition wr :: "'a list \<Rightarrow> int \<Rightarrow> 'a \<Rightarrow> 'a list res" where
  "wr xs i v = (if 0 \<le> i \<and> i < int (length xs) then Inr (xs[nat i := v]) else Inl OutOfRange)"

lemma rd_in [res_simps]: "0 \<le> i \<Longrightarrow> i < int (length xs) \<Longrightarrow> rd xs i = Inr (xs ! nat i)"
  by (simp add: rd_def)

lemma wr_in [res_simps]: "0 \<le> i \<Longrightarrow> i < int (length xs) \<Longrightarrow> wr xs i v = Inr (xs[nat i := v])"
  by (simp add: wr_def)

text \<open>Signed negation, which overflows on the least number; C++ leaves that undefined.\<close>

definition sneg :: "'a::len word \<Rightarrow> 'a word res" where
  "sneg v = (if sint v = - (2 ^ (LENGTH('a) - 1)) then Inl Undefined else Inr (- v))"

lemma sneg_defined [res_simps]: "sint v \<noteq> - (2 ^ (LENGTH('a) - 1)) \<Longrightarrow> sneg (v :: 'a::len word) = Inr (- v)"
  by (simp add: sneg_def)

section \<open>Stateful operations\<close>

text \<open>
  An operation on a state of type \<open>'s\<close> gives its result, or the exception it throws, and the state it
  leaves behind, also when it throws. In a sequence the rest runs on the state that is left, unless
  there was an exception.
\<close>

type_synonym ('s, 'a) op = "'s \<Rightarrow> 'a res \<times> 's"

definition op_bind :: "('s, 'a) op \<Rightarrow> ('a \<Rightarrow> ('s, 'b) op) \<Rightarrow> ('s, 'b) op" where
  "op_bind f g st = (case f st of (Inl e, st') \<Rightarrow> (Inl e, st') | (Inr x, st') \<Rightarrow> g x st')"

definition op_return :: "'a \<Rightarrow> ('s, 'a) op" where
  "op_return x st = (Inr x, st)"

definition op_throw :: "cpp_error \<Rightarrow> ('s, 'a) op" where
  "op_throw e st = (Inl e, st)"

definition op_res :: "'a res \<Rightarrow> ('s, 'a) op" where
  "op_res r st = (r, st)"

lemma op_bind_Inr: "f st = (Inr x, st') \<Longrightarrow> op_bind f g st = g x st'"
  by (simp add: op_bind_def)

lemma op_bind_Inl: "f st = (Inl e, st') \<Longrightarrow> op_bind f g st = (Inl e, st')"
  by (simp add: op_bind_def)

section \<open>Bytes\<close>

text \<open>The value a number has after it is stored in an \<^verbatim>\<open>unsigned char\<close>.\<close>

definition byte :: "int \<Rightarrow> nat" where
  "byte x = nat (x mod 256)"

lemma byte_id [simp]: "0 \<le> x \<Longrightarrow> x < 256 \<Longrightarrow> byte x = nat x"
  by (simp add: byte_def)

lemma byte_less: "byte x < 256"
proof -
  have "x mod 256 < 256" by simp
  then show ?thesis unfolding byte_def by linarith
qed

section \<open>Digit segments\<close>

text \<open>
  \<open>seg10 ds a b\<close> is the number whose digits, each at the weight of its own position, are the
  array elements \<open>ds[a], \<dots>, ds[b-1]\<close>.
\<close>

definition seg10 :: "nat list \<Rightarrow> nat \<Rightarrow> nat \<Rightarrow> nat" where
  "seg10 ds a b = (\<Sum>i = a..<b. ds ! i * 10 ^ i)"

lemma seg10_empty [simp, seg_simps]: "b \<le> a \<Longrightarrow> seg10 ds a b = 0"
  by (simp add: seg10_def)

lemma seg10_Suc [seg_simps]: "a \<le> b \<Longrightarrow> seg10 ds a (Suc b) = seg10 ds a b + ds ! b * 10 ^ b"
  by (simp add: seg10_def)

lemma seg10_head: "a < b \<Longrightarrow> seg10 ds a b = ds ! a * 10 ^ a + seg10 ds (Suc a) b"
  by (simp add: seg10_def sum.atLeast_Suc_lessThan)

lemma seg10_split: "a \<le> m \<Longrightarrow> m \<le> b \<Longrightarrow> seg10 ds a b = seg10 ds a m + seg10 ds m b"
  by (simp add: seg10_def sum.atLeastLessThan_concat)

lemma seg10_cong:
  "(\<And>i. a \<le> i \<Longrightarrow> i < b \<Longrightarrow> ds ! i = es ! i) \<Longrightarrow> seg10 ds a b = seg10 es a b"
  by (simp add: seg10_def)

lemma seg10_update_other [simp, seg_simps]:
  "i < a \<or> b \<le> i \<Longrightarrow> seg10 (ds[i := v]) a b = seg10 ds a b"
  by (rule seg10_cong) (auto simp: nth_list_update)

lemma seg10_update:
  assumes "a \<le> i" "i < b" "i < length ds"
  shows "seg10 (ds[i := v]) a b + ds ! i * 10 ^ i = seg10 ds a b + v * 10 ^ i"
proof -
  have "seg10 (ds[i := v]) a b =
      seg10 (ds[i := v]) a i + (ds[i := v] ! i * 10 ^ i + seg10 (ds[i := v]) (Suc i) b)"
    using assms(1,2) seg10_split [of a i b] seg10_head [of i b] by simp
  moreover have "seg10 ds a b = seg10 ds a i + (ds ! i * 10 ^ i + seg10 ds (Suc i) b)"
    using assms(1,2) seg10_split [of a i b] seg10_head [of i b] by simp
  ultimately show ?thesis using assms(3) by simp
qed

text \<open>
  One step of a digit loop: a new digit \<open>v\<close>, a carry \<open>k\<close> out and an amount \<open>y\<close> taken away,
  against the old digit, an amount \<open>x\<close> added and a borrow \<open>k'\<close>.
\<close>

lemma seg10_digit_step:
  assumes "a \<le> i" "i < b" "i < length ds" and eq: "v + y + 10 * k = ds ! i + x + 10 * k'"
  shows "seg10 (ds[i := v]) a b + y * 10 ^ i + k * 10 ^ Suc i =
         seg10 ds a b + x * 10 ^ i + k' * 10 ^ Suc i"
proof -
  have "(v + y + 10 * k) * 10 ^ i = (ds ! i + x + 10 * k') * 10 ^ i" using eq by simp
  then have "v * 10 ^ i + y * 10 ^ i + k * 10 ^ Suc i = ds ! i * 10 ^ i + x * 10 ^ i + k' * 10 ^ Suc i"
    by (simp add: algebra_simps)
  with seg10_update [OF assms(1-3), of v] show ?thesis by linarith
qed

lemma seg10_zero: "(\<And>i. a \<le> i \<Longrightarrow> i < b \<Longrightarrow> ds ! i = 0) \<Longrightarrow> seg10 ds a b = 0"
  by (simp add: seg10_def)

lemma seg10_eq_0_iff: "seg10 ds a b = 0 \<longleftrightarrow> (\<forall>i. a \<le> i \<longrightarrow> i < b \<longrightarrow> ds ! i = 0)"
  by (auto simp: seg10_def)

lemma seg10_dvd: "10 ^ a dvd seg10 ds a b"
  unfolding seg10_def by (rule dvd_sum) (auto simp: le_imp_power_dvd)

lemma seg10_bound:
  assumes "a \<le> b" and "\<And>i. a \<le> i \<Longrightarrow> i < b \<Longrightarrow> ds ! i \<le> 9"
  shows "seg10 ds a b + 10 ^ a \<le> 10 ^ b"
  using assms
proof (induction b)
  case 0
  then show ?case by simp
next
  case (Suc b)
  show ?case
  proof (cases "a = Suc b")
    case True
    then show ?thesis by simp
  next
    case False
    with Suc.prems have ab: "a \<le> b" by simp
    have "seg10 ds a b + 10 ^ a \<le> 10 ^ b"
      using Suc.IH [OF ab] Suc.prems(2) by simp
    moreover have "ds ! b * 10 ^ b \<le> 9 * 10 ^ b"
      using Suc.prems(2) [of b] ab by (intro mult_right_mono) simp_all
    moreover have "10 ^ Suc b = 10 ^ b + 9 * (10 ^ b :: nat)" by simp
    ultimately show ?thesis
      using seg10_Suc [OF ab, of ds] by linarith
  qed
qed

lemma seg10_less:
  assumes "\<And>i. a \<le> i \<Longrightarrow> i < b \<Longrightarrow> ds ! i \<le> 9"
  shows "seg10 ds a b < 10 ^ b"
proof (cases "a \<le> b")
  case True
  have "(0::nat) < 10 ^ a" by simp
  then show ?thesis using seg10_bound [OF True assms] by linarith
qed simp

lemma seg10_less_power:
  assumes "\<And>i. a \<le> i \<Longrightarrow> i < b \<Longrightarrow> ds ! i \<le> 9" "b \<le> k"
  shows "seg10 ds a b < 10 ^ k"
  using less_le_trans [OF seg10_less [of a b ds, OF assms(1)] power_increasing [OF assms(2)]] by simp

lemma seg10_lead:
  assumes "a \<le> h" "h < b" "ds ! h \<noteq> 0"
  shows "10 ^ h \<le> seg10 ds a b"
proof -
  have "seg10 ds a b = seg10 ds a h + ds ! h * 10 ^ h + seg10 ds (Suc h) b"
    using assms(1,2) seg10_split [of a h b ds] seg10_head [of h b ds] by simp
  moreover have "10 ^ h \<le> ds ! h * 10 ^ h" using assms(3) by simp
  ultimately show ?thesis by linarith
qed

lemma seg10_drop:
  assumes "b + n \<le> length ds"
  shows "seg10 (drop n ds) a b * 10 ^ n = seg10 ds (a + n) (b + n)"
proof -
  have "seg10 (drop n ds) a b * 10 ^ n = (\<Sum>i = a..<b. ds ! (i + n) * 10 ^ (i + n))"
    unfolding seg10_def sum_distrib_right
    using assms by (intro sum.cong) (auto simp: add.commute power_add mult.assoc)
  then show ?thesis by (simp add: seg10_def sum.shift_bounds_nat_ivl)
qed

lemma divmod10_scale: "x div 10 * 10 ^ Suc k + x mod 10 * 10 ^ k = x * (10::nat) ^ k"
proof -
  have "(x div 10 * 10 + x mod 10) * 10 ^ k = x div 10 * 10 ^ Suc k + x mod 10 * 10 ^ k"
    unfolding distrib_right by simp
  then show ?thesis by simp
qed

text \<open>Dividing in two steps: a remainder below the first divisor does not matter.\<close>

lemma div_drop_rest:
  fixes y r p q :: nat
  assumes "p dvd y" "r < p"
  shows "(y + r) div (p * q) = y div (p * q)"
proof -
  from assms(1) obtain z where y: "y = p * z" by (rule dvdE)
  have "(y + r) div p = z" using assms(2) by (simp add: y)
  moreover have "y div p = z" using assms(2) by (simp add: y)
  ultimately show ?thesis by (simp add: div_mult2_eq)
qed

text \<open>Cutting a number at a digit position.\<close>

lemma seg10_cut:
  assumes "\<And>i. a \<le> i \<Longrightarrow> i < b \<Longrightarrow> ds ! i \<le> 9" "a \<le> k" "k \<le> b"
  shows "seg10 ds a b div 10 ^ k * 10 ^ k = seg10 ds k b" "seg10 ds a b mod 10 ^ k = seg10 ds a k"
proof -
  have s: "seg10 ds a b = seg10 ds a k + seg10 ds k b" using assms(2,3) by (rule seg10_split)
  obtain z where z: "seg10 ds k b = 10 ^ k * z" using seg10_dvd by blast
  have "seg10 ds a k < 10 ^ k" using assms by (intro seg10_less) simp
  then show "seg10 ds a b div 10 ^ k * 10 ^ k = seg10 ds k b" "seg10 ds a b mod 10 ^ k = seg10 ds a k"
    by (simp_all add: s z)
qed

lemma seg10_div:
  assumes "\<And>i. a \<le> i \<Longrightarrow> i < b \<Longrightarrow> ds ! i \<le> 9"
  shows "seg10 ds a b div 10 ^ k * 10 ^ k = seg10 ds (max a k) b"
proof -
  consider "a \<le> k" "k \<le> b" | "k < a" | "b < k" by linarith
  then show ?thesis
  proof cases
    case 1
    then show ?thesis using seg10_cut(1) [of a b ds k] assms by (simp add: max_def)
  next
    case 2
    then have "10 ^ k dvd seg10 ds a b" by (meson dvd_trans le_imp_power_dvd less_imp_le seg10_dvd)
    then show ?thesis using 2 by (simp add: max_def)
  next
    case 3
    then have "seg10 ds a b < 10 ^ k" using assms by (intro seg10_less_power) auto
    then show ?thesis using 3 by (simp add: max_def)
  qed
qed

lemma seg10_mod:
  assumes "\<And>i. a \<le> i \<Longrightarrow> i < b \<Longrightarrow> ds ! i \<le> 9"
  shows "seg10 ds a b mod 10 ^ k = seg10 ds a (min b k)"
proof -
  consider "a \<le> k" "k \<le> b" | "k < a" | "b < k" by linarith
  then show ?thesis
  proof cases
    case 1
    then show ?thesis using seg10_cut(2) [of a b ds k] assms by (simp add: min_def)
  next
    case 2
    then have "10 ^ k dvd seg10 ds a b" by (meson dvd_trans le_imp_power_dvd less_imp_le seg10_dvd)
    then show ?thesis using 2 by (simp add: min_def)
  next
    case 3
    then have "seg10 ds a b < 10 ^ k" using assms by (intro seg10_less_power) auto
    then show ?thesis using 3 by (simp add: min_def)
  qed
qed

lemma div_power_zero: "x < 10 ^ m \<Longrightarrow> m \<le> k \<Longrightarrow> x div 10 ^ k = (0::nat)"
  using power_increasing [of m k "10::nat"] by (intro div_less) linarith

section \<open>Numbers at an offset\<close>

text \<open>\<open>num10 xs b n\<close> reads \<open>n\<close> digits from offset \<open>b\<close> of an array, least significant first.\<close>

definition num10 :: "nat list \<Rightarrow> nat \<Rightarrow> nat \<Rightarrow> nat" where
  "num10 xs b n = (\<Sum>i < n. xs ! (b + i) * 10 ^ i)"

lemma num10_0 [simp, seg_simps]: "num10 xs b 0 = 0"
  by (simp add: num10_def)

lemma num10_Suc [seg_simps]: "num10 xs b (Suc n) = num10 xs b n + xs ! (b + n) * 10 ^ n"
  by (simp add: num10_def)

lemma num10_head: "num10 xs b (Suc n) = xs ! b + 10 * num10 xs (Suc b) n"
  unfolding num10_def sum.lessThan_Suc_shift sum_distrib_left by (simp add: mult.left_commute)

lemma num10_add: "num10 xs b (m + n) = num10 xs b m + num10 xs (b + m) n * 10 ^ m"
  by (induction n) (simp_all add: num10_Suc power_add algebra_simps)

lemma num10_cong: "(\<And>i. i < n \<Longrightarrow> xs ! (b + i) = ys ! (c + i)) \<Longrightarrow> num10 xs b n = num10 ys c n"
  by (simp add: num10_def)

lemma num10_less: "(\<And>i. i < n \<Longrightarrow> xs ! (b + i) \<le> 9) \<Longrightarrow> num10 xs b n < 10 ^ n"
proof (induction n)
  case (Suc n)
  then have "num10 xs b n < 10 ^ n" by simp
  moreover have "xs ! (b + n) * 10 ^ n \<le> 9 * 10 ^ n" using Suc.prems by (intro mult_right_mono) simp_all
  moreover have "10 ^ Suc n = 10 ^ n + 9 * (10 ^ n :: nat)" by simp
  ultimately show ?case unfolding num10_Suc by linarith
qed simp

lemma seg10_num10: "seg10 xs b (b + n) = num10 xs b n * 10 ^ b"
proof -
  have "seg10 xs b (b + n) = (\<Sum>i = 0..<n. xs ! (i + b) * 10 ^ (i + b))"
    unfolding seg10_def using sum.shift_bounds_nat_ivl [of "\<lambda>i. xs ! i * 10 ^ i" 0 b n]
    by (simp add: add.commute)
  then show ?thesis
    by (simp add: num10_def sum_distrib_right lessThan_atLeast0 add.commute power_add mult.left_commute mult.assoc)
qed

text \<open>Rounding a quotient half up, from its floor and its remainder.\<close>

lemma round_half_up:
  fixes a v :: nat
  assumes "0 < v"
  shows "(2 * a + v) div (2 * v) = a div v + (if v \<le> 2 * (a mod v) then 1 else 0)"
proof -
  have "2 * (a div v * v + a mod v) = 2 * (a mod v) + a div v * (2 * v)" by (simp only: algebra_simps)
  then have e: "2 * a + v = (2 * (a mod v) + v) + a div v * (2 * v)" by simp
  have "(2 * a + v) div (2 * v) = a div v + (2 * (a mod v) + v) div (2 * v)"
    unfolding e using assms by simp
  moreover have "(2 * (a mod v) + v) div (2 * v) = (if v \<le> 2 * (a mod v) then 1 else 0)"
    using mod_less_divisor [OF assms, of a] by (auto simp: div_eq_0_iff intro: div_nat_eqI)
  ultimately show ?thesis by simp
qed

end
