(* ===== verification/Nbcd.thy ===== *)
theory Nbcd
  imports Prelude
begin

text \<open>
  The model of class \<^verbatim>\<open>Decimal\<close> (rtl/nbcd/nbcd.hpp, rtl/nbcd/nbcd.cpp): binary coded decimal
  arithmetic on an array of 64 digits with the decimal point in the middle. This theory holds the
  record of the class and its arithmetic operations, in the order of the source; the conversions
  are in \<open>Nbcd_Conv\<close> and the theorems in the theories that follow.

  A loop of the source is a tail-recursive function that takes the locals the loop changes. A
  position (\<^verbatim>\<open>int\<close> in the source) is an \<open>int\<close>; a digit, \<^verbatim>\<open>msb\<close> and \<^verbatim>\<open>lsb\<close> (bytes) are \<open>nat\<close>, and a
  value stored into a byte goes through \<open>byte\<close>. \<^verbatim>\<open>negative\<close>, a byte only so that \<^verbatim>\<open>^\<close> applies,
  is a \<open>bool\<close>. An operation that can index outside \<^verbatim>\<open>digits\<close> or fail an \<^verbatim>\<open>assertex\<close>
  returns a \<open>res\<close>.
\<close>

section \<open>The class\<close>

abbreviation maxDigits :: nat where "maxDigits \<equiv> 64"
abbreviation maxPrecision :: nat where "maxPrecision \<equiv> 32"
abbreviation maxIntegerDigits :: nat where "maxIntegerDigits \<equiv> 32"
abbreviation lastDigit :: nat where "lastDigit \<equiv> 63"
abbreviation zeroDigit :: nat where "zeroDigit \<equiv> 32"

record decimal =
  digits :: "nat list"
  msb :: nat
  lsb :: nat
  negative :: bool

definition decimal_init :: decimal where
  "decimal_init =
     \<lparr>digits = replicate maxDigits 0, msb = zeroDigit, lsb = zeroDigit, negative = False\<rparr>"

section \<open>Helpers\<close>

function clip_lo :: "nat list \<Rightarrow> int \<Rightarrow> int \<Rightarrow> int" where
  "clip_lo ds lo hi = (if lo < hi \<and> ds ! nat lo = 0 then clip_lo ds (lo + 1) hi else lo)"
  by pat_completeness auto
termination
  by (relation "measure (\<lambda>(ds, lo, hi). nat (hi - lo))") auto

function clip_hi :: "nat list \<Rightarrow> int \<Rightarrow> int \<Rightarrow> int" where
  "clip_hi ds lo hi = (if lo \<le> hi \<and> ds ! nat hi = 0 then clip_hi ds lo (hi - 1) else hi)"
  by pat_completeness auto
termination
  by (relation "measure (\<lambda>(ds, lo, hi). nat (hi - lo + 1))") auto

definition clip :: "decimal \<Rightarrow> int \<times> int" where
  "clip d =
     (let lo = clip_lo (digits d) (int (lsb d)) (int (msb d));
          hi = clip_hi (digits d) lo (int (msb d))
      in (lo, hi))"

definition clip_range :: "decimal \<Rightarrow> int \<Rightarrow> int \<Rightarrow> int \<times> int" where
  "clip_range d minLsb maxMsb =
     (let (newLsb, newMsb) = clip d;
          newLsb = (if newLsb < minLsb then minLsb else newLsb);
          newMsb = (if newMsb > maxMsb then maxMsb else newMsb);
          newMsb = (if newMsb < newLsb then newLsb - 1 else newMsb)
      in (newLsb, newMsb))"

definition setZero :: "decimal \<Rightarrow> decimal" where
  "setZero d =
     d\<lparr>negative := False, lsb := zeroDigit, msb := zeroDigit, digits := (digits d)[zeroDigit := 0]\<rparr>"

text \<open>
  \<open>zero_fill ds i j\<close> clears the elements from \<open>i\<close> up to, and without, \<open>j\<close>. The writes are
  checked: \<^verbatim>\<open>lsb\<close> can be beyond the array after a multiplication that overflows.
\<close>

function zero_fill :: "nat list \<Rightarrow> nat \<Rightarrow> nat \<Rightarrow> nat list res" where
  "zero_fill ds i j =
     (if i < j then res_bind (wr ds (int i) 0) (\<lambda>ds. zero_fill ds (Suc i) j) else Inr ds)"
  by pat_completeness auto
termination
  by (relation "measure (\<lambda>(ds, i, j). j - i)") auto

definition extendRange :: "decimal \<Rightarrow> nat \<Rightarrow> nat \<Rightarrow> decimal res" where
  "extendRange d oLsb oMsb =
     res_bind
       (if lsb d > oLsb
        then res_bind (zero_fill (digits d) oLsb (lsb d))
               (\<lambda>ds. Inr (d\<lparr>digits := ds, lsb := oLsb\<rparr>))
        else Inr d)
       (\<lambda>d. if msb d < oMsb
             then res_bind (zero_fill (digits d) (msb d + 1) (oMsb + 1))
                    (\<lambda>ds. Inr (d\<lparr>digits := ds, msb := oMsb\<rparr>))
             else Inr d)"

section \<open>Addition and subtraction\<close>

definition abs_dec :: "decimal \<Rightarrow> decimal" where
  "abs_dec d = d\<lparr>negative := False\<rparr>"

definition negate_dec :: "decimal \<Rightarrow> decimal" where
  "negate_dec d = d\<lparr>negative := \<not> negative d\<rparr>"

function add_loop :: "nat list \<Rightarrow> nat list \<Rightarrow> nat \<Rightarrow> nat \<Rightarrow> nat \<Rightarrow> nat list \<times> nat \<times> nat" where
  "add_loop ds os idx oHi carry =
     (if idx \<le> oHi then
        let s = byte (int (ds ! idx) + (int (os ! idx) + int carry))
        in if s > 9 then add_loop (ds[idx := s - 10]) os (Suc idx) oHi 1
           else add_loop (ds[idx := s]) os (Suc idx) oHi 0
      else (ds, idx, carry))"
  by pat_completeness auto
termination
  by (relation "measure (\<lambda>(ds, os, idx, oHi, carry). Suc oHi - idx)") auto

function carry_loop :: "nat list \<Rightarrow> nat \<Rightarrow> nat \<Rightarrow> nat \<Rightarrow> nat list \<times> nat \<times> nat" where
  "carry_loop ds idx hi carry =
     (if carry \<noteq> 0 \<and> idx \<le> hi then
        let s = byte (int (ds ! idx) + 1)
        in if s > 9 then carry_loop (ds[idx := s - 10]) (Suc idx) hi 1
           else carry_loop (ds[idx := s]) (Suc idx) hi 0
      else (ds, idx, carry))"
  by pat_completeness auto
termination
  by (relation "measure (\<lambda>(ds, idx, hi, carry). Suc hi - idx)") auto

definition addDigits :: "decimal \<Rightarrow> decimal \<Rightarrow> decimal res" where
  "addDigits d other = res_bind (extendRange d (lsb other) (msb other)) (\<lambda>d.
     (let (ds, idx, carry) = add_loop (digits d) (digits other) (lsb other) (msb other) 0;
          (ds, idx, carry) = carry_loop ds idx (msb d) carry
      in if carry \<noteq> 0 \<and> msb d \<noteq> lastDigit
         then Inr (d\<lparr>digits := ds[msb d + 1 := carry], msb := msb d + 1\<rparr>)
         else Inr (d\<lparr>digits := ds\<rparr>)))"

function sub_loop :: "nat list \<Rightarrow> nat list \<Rightarrow> nat \<Rightarrow> nat \<Rightarrow> nat \<Rightarrow> nat list \<times> nat \<times> nat" where
  "sub_loop ds os idx oHi carry =
     (if idx \<le> oHi then
        let nxt = int (ds ! idx) - (int (os ! idx) + int carry)
        in if nxt < 0 then sub_loop (ds[idx := byte (nxt + 10)]) os (Suc idx) oHi 1
           else sub_loop (ds[idx := byte nxt]) os (Suc idx) oHi 0
      else (ds, idx, carry))"
  by pat_completeness auto
termination
  by (relation "measure (\<lambda>(ds, os, idx, oHi, carry). Suc oHi - idx)") auto

function borrow_loop :: "nat list \<Rightarrow> nat \<Rightarrow> nat \<Rightarrow> nat \<Rightarrow> nat list \<times> nat \<times> nat" where
  "borrow_loop ds idx hi carry =
     (if carry \<noteq> 0 \<and> idx \<le> hi then
        let s = byte (int (ds ! idx) - 1)
        in if s = 255 then borrow_loop (ds[idx := byte (int s + 10)]) (Suc idx) hi 1
           else borrow_loop (ds[idx := s]) (Suc idx) hi 0
      else (ds, idx, carry))"
  by pat_completeness auto
termination
  by (relation "measure (\<lambda>(ds, idx, hi, carry). Suc hi - idx)") auto

function complement_loop :: "nat list \<Rightarrow> nat \<Rightarrow> nat \<Rightarrow> nat \<Rightarrow> nat list \<times> nat" where
  "complement_loop ds idx hi carry =
     (if idx \<le> hi then
        let nxt = byte (9 - int (ds ! idx) + int carry)
        in if nxt = 10 then complement_loop (ds[idx := 0]) (Suc idx) hi 1
           else complement_loop (ds[idx := nxt]) (Suc idx) hi 0
      else (ds, carry))"
  by pat_completeness auto
termination
  by (relation "measure (\<lambda>(ds, idx, hi, carry). Suc hi - idx)") auto

definition subtractDigits :: "decimal \<Rightarrow> decimal \<Rightarrow> decimal res" where
  "subtractDigits d other = res_bind (extendRange d (lsb other) (msb other)) (\<lambda>d.
     (let (ds, idx, carry) = sub_loop (digits d) (digits other) (lsb other) (msb other) 0;
          (ds, idx, carry) = borrow_loop ds idx (msb d) carry
      in if carry \<noteq> 0
         then let (ds, carry) = complement_loop ds (lsb d) (msb d) 1
              in if carry \<noteq> 0 then Inl AssertFailed
                 else Inr (d\<lparr>negative := \<not> negative d, digits := ds\<rparr>)
         else Inr (d\<lparr>digits := ds\<rparr>)))"

definition add_dec :: "decimal \<Rightarrow> decimal \<Rightarrow> decimal res" where
  "add_dec d other =
     (if negative d = negative other then addDigits d other else subtractDigits d other)"

definition subtract_dec :: "decimal \<Rightarrow> decimal \<Rightarrow> decimal res" where
  "subtract_dec d other =
     (if negative d \<noteq> negative other then addDigits d other else subtractDigits d other)"

section \<open>Comparison\<close>

function compareNull_loop :: "nat list \<Rightarrow> bool \<Rightarrow> nat \<Rightarrow> nat \<Rightarrow> int" where
  "compareNull_loop ds neg idx hi =
     (if idx \<le> hi then
        if ds ! idx \<noteq> 0 then (if neg then -1 else 1) else compareNull_loop ds neg (Suc idx) hi
      else 0)"
  by pat_completeness auto
termination
  by (relation "measure (\<lambda>(ds, neg, idx, hi). Suc hi - idx)") auto

definition compareNull :: "decimal \<Rightarrow> int" where
  "compareNull d = compareNull_loop (digits d) (negative d) (lsb d) (msb d)"

text \<open>The loop over the common digits: \<open>Some\<close> when it returns from the function.\<close>

function compare_loop :: "nat list \<Rightarrow> nat list \<Rightarrow> bool \<Rightarrow> int \<Rightarrow> int \<Rightarrow> int option" where
  "compare_loop ds os neg hi limit =
     (if hi \<ge> limit then
        let diff = int (ds ! nat hi) - int (os ! nat hi)
        in if diff \<noteq> 0 then Some (if (diff > 0) \<noteq> neg then 1 else -1)
           else compare_loop ds os neg (hi - 1) limit
      else None)"
  by pat_completeness auto
termination
  by (relation "measure (\<lambda>(ds, os, neg, hi, limit). nat (hi - limit + 1))") auto

definition compare_dec :: "decimal \<Rightarrow> decimal \<Rightarrow> int" where
  "compare_dec d other =
     (let (lo1, hi1) = clip d;
          (lo2, hi2) = clip other
      in if lo1 > hi1 then
           (if lo2 > hi2 then 0 else if negative other then 1 else -1)
         else if lo2 > hi2 then (if negative d then -1 else 1)
         else if negative d \<noteq> negative other then (if negative d then -1 else 1)
         else if hi1 \<noteq> hi2 then (if (hi1 > hi2) \<noteq> negative d then 1 else -1)
         else let limit = (if lo1 < lo2 then lo2 else lo1)
              in case compare_loop (digits d) (digits other) (negative d) hi1 limit of
                   Some r \<Rightarrow> r
                 | None \<Rightarrow> if lo1 = lo2 then 0
                           else if lo1 < lo2 then (if negative d then -1 else 1)
                           else (if negative d then 1 else -1))"

definition isZero :: "decimal \<Rightarrow> bool" where
  "isZero d = (let (lo, hi) = clip d in hi < lo)"

section \<open>Multiplication and powers\<close>

text \<open>
  \<^verbatim>\<open>temp\<close> holds the column sums, \<^verbatim>\<open>unsigned\<close> in the source. \<open>mul_row\<close> is the inner loop,
  \<open>mul_rows\<close> the outer one; \<open>mul_round\<close> runs over the columns below the array and yields the
  rounded carry, \<open>mul_copy\<close> writes the digits, \<open>mul_spill\<close> the remaining carry.
\<close>

function mul_row :: "nat list \<Rightarrow> nat list \<Rightarrow> nat \<Rightarrow> int \<Rightarrow> int \<Rightarrow> int \<Rightarrow> nat list" where
  "mul_row temp digits2 nxt i j high2 =
     (if j \<le> high2
      then mul_row (temp[nat (i + j) := (temp ! nat (i + j) + nxt * digits2 ! nat j) mod 2 ^ 32])
             digits2 nxt i (j + 1) high2
      else temp)"
  by pat_completeness auto
termination
  by (relation "measure (\<lambda>(temp, digits2, nxt, i, j, high2). nat (high2 - j + 1))") auto

function mul_rows ::
  "nat list \<Rightarrow> nat list \<Rightarrow> nat list \<Rightarrow> int \<Rightarrow> int \<Rightarrow> int \<Rightarrow> int \<Rightarrow> nat list" where
  "mul_rows temp digits1 digits2 i high1 low2 high2 =
     (if i \<le> high1 then
        let nxt = digits1 ! nat i
        in mul_rows (if nxt \<noteq> 0 then mul_row temp digits2 nxt i low2 high2 else temp)
             digits1 digits2 (i + 1) high1 low2 high2
      else temp)"
  by pat_completeness auto
termination
  by (relation "measure (\<lambda>(temp, digits1, digits2, i, high1, low2, high2). nat (high1 - i + 1))") auto

function mul_round :: "nat list \<Rightarrow> int \<Rightarrow> int \<Rightarrow> nat \<Rightarrow> nat" where
  "mul_round temp j lowt carry =
     (if j < lowt then
        let nxt = temp ! nat (j + int zeroDigit) + carry;
            nxt = (if j + 1 = lowt then nxt + 5 else nxt)
        in mul_round temp (j + 1) lowt (nxt div 10)
      else carry)"
  by pat_completeness auto
termination
  by (relation "measure (\<lambda>(temp, j, lowt, carry). nat (lowt - j))") auto

function mul_copy :: "nat list \<Rightarrow> nat list \<Rightarrow> int \<Rightarrow> int \<Rightarrow> nat \<Rightarrow> nat list \<times> nat" where
  "mul_copy temp ds j hight carry =
     (if j \<le> hight then
        let nxt = temp ! nat (j + int zeroDigit) + carry
        in mul_copy temp (ds[nat j := nxt mod 10]) (j + 1) hight (nxt div 10)
      else (ds, carry))"
  by pat_completeness auto
termination
  by (relation "measure (\<lambda>(temp, ds, j, hight, carry). nat (hight - j + 1))") auto

function mul_spill :: "nat list \<Rightarrow> int \<Rightarrow> nat \<Rightarrow> nat list \<times> int" where
  "mul_spill ds hight carry =
     (if hight < int maxDigits - 1 \<and> carry \<noteq> 0
      then mul_spill (ds[nat (hight + 1) := carry mod 10]) (hight + 1) (carry div 10)
      else (ds, hight))"
  by pat_completeness auto
termination
  by (relation "measure (\<lambda>(ds, hight, carry). nat (int maxDigits - hight))") auto

definition multiply :: "decimal \<Rightarrow> decimal \<Rightarrow> decimal" where
  "multiply d other =
     (let (low1, high1) = clip d;
          (low2, high2) = clip other;
          lowt = low1 + low2 - int zeroDigit;
          lowt = (if lowt < 0 then 0 else lowt);
          hight = high1 + high2 - int zeroDigit
      in if \<not> hight \<ge> int maxDigits \<and> hight < -1 then setZero d
         else
           let hight = (if hight \<ge> int maxDigits then int maxDigits - 1
                        else if hight < 0 then 0 else hight);
               temp = mul_rows (replicate (maxDigits * 2) 0) (digits d) (digits other)
                        low1 high1 low2 high2;
               carry = mul_round temp (low1 + low2 - int zeroDigit) lowt 0;
               (ds, carry) = mul_copy temp (digits d) lowt hight carry;
               (ds, hight) = mul_spill ds hight carry
           in d\<lparr>digits := ds, lsb := byte lowt, msb := byte hight,
                negative := (negative d \<noteq> negative other)\<rparr>)"

text \<open>\<^verbatim>\<open>doPower(0)\<close> calls itself without end; \<^verbatim>\<open>power\<close> never makes that call.\<close>

function doPower :: "decimal \<Rightarrow> nat \<Rightarrow> decimal res" where
  "doPower d value =
     (if value = 0 then Inl NoReturn
      else if value = 1 then Inr d
      else if odd value
      then res_bind (doPower d (value div 2)) (\<lambda>p. Inr (multiply (multiply p p) d))
      else res_bind (doPower d (value div 2)) (\<lambda>p. Inr (multiply p p)))"
  by pat_completeness auto
termination
  by (relation "measure snd") auto

section \<open>Division\<close>

text \<open>
  \<^verbatim>\<open>temp\<close> is the part of the source's buffer that \<^verbatim>\<open>memset\<close> initialises; \<^verbatim>\<open>numerator\<close> is
  \<^verbatim>\<open>temp+spare\<close>, and \<^verbatim>\<open>curNumerator\<close> is \<open>base\<close>, its offset in \<open>temp\<close>. \<open>div_sub\<close> subtracts
  \<open>q\<close> times the divisor, \<open>div_addback\<close> adds the divisor back, \<open>div_borrow\<close> is the subtraction of
  the rounding step, which only computes the borrow.
\<close>

abbreviation spare :: nat where "spare \<equiv> 3"

function div_sub ::
  "nat list \<Rightarrow> nat list \<Rightarrow> nat \<Rightarrow> nat \<Rightarrow> nat \<Rightarrow> nat \<Rightarrow> nat \<Rightarrow> int \<Rightarrow> nat list \<times> int" where
  "div_sub temp os base lo2 i nd2 q carry =
     (if i < nd2 then
        let nxt = 90 + int (temp ! (base + i)) - int (os ! (lo2 + i)) * int q - carry
        in div_sub (temp[base + i := byte (nxt smod 10)]) os base lo2 (Suc i) nd2 q (9 - nxt sdiv 10)
      else (temp, carry))"
  by pat_completeness auto
termination
  by (relation "measure (\<lambda>(temp, os, base, lo2, i, nd2, q, carry). nd2 - i)") auto

function div_addback ::
  "nat list \<Rightarrow> nat list \<Rightarrow> nat \<Rightarrow> nat \<Rightarrow> nat \<Rightarrow> nat \<Rightarrow> nat \<Rightarrow> nat list \<times> nat" where
  "div_addback temp os base lo2 i nd2 carry =
     (if i < nd2 then
        let nxt = byte (int (temp ! (base + i)) + int (os ! (lo2 + i)) + int carry)
        in if nxt \<ge> 10 then div_addback (temp[base + i := nxt - 10]) os base lo2 (Suc i) nd2 1
           else div_addback (temp[base + i := nxt]) os base lo2 (Suc i) nd2 0
      else (temp, carry))"
  by pat_completeness auto
termination
  by (relation "measure (\<lambda>(temp, os, base, lo2, i, nd2, carry). nd2 - i)") auto

function div_borrow ::
  "nat list \<Rightarrow> nat list \<Rightarrow> nat \<Rightarrow> nat \<Rightarrow> nat \<Rightarrow> nat \<Rightarrow> nat \<Rightarrow> int \<Rightarrow> int" where
  "div_borrow temp os base lo2 i nd2 q carry =
     (if i < nd2 then
        let nxt = 90 + int (temp ! (base + i)) - int (os ! (lo2 + i)) * int q - carry
        in div_borrow temp os base lo2 (Suc i) nd2 q (9 - nxt sdiv 10)
      else carry)"
  by pat_completeness auto
termination
  by (relation "measure (\<lambda>(temp, os, base, lo2, i, nd2, q, carry). nd2 - i)") auto

definition div_guess :: "nat list \<Rightarrow> nat \<Rightarrow> nat \<Rightarrow> nat \<Rightarrow> nat" where
  "div_guess temp base nd2 divisor01 =
     (temp ! (base + nd2) * 100 + temp ! (base + nd2 - 1) * 10 + temp ! (base + nd2 - 2)) div divisor01"

text \<open>One pass of the main loop: the new buffer and the quotient digit.\<close>

definition div_step ::
  "nat list \<Rightarrow> nat list \<Rightarrow> nat \<Rightarrow> nat \<Rightarrow> nat \<Rightarrow> nat \<Rightarrow> (nat list \<times> nat) res" where
  "div_step temp os divisor01 lo2 nd2 iter =
     (let base = spare + iter;
          q = div_guess temp base nd2 divisor01;
          q = (if q = 10 then q - 1 else q)
      in if q \<noteq> 0 then
           let (temp, carry) = div_sub temp os base lo2 0 nd2 q 0;
               carry = (carry - int (temp ! (base + nd2))) mod 2 ^ 32
           in if carry \<noteq> 0 then
                if carry \<noteq> 1 then Inl AssertFailed
                else let (temp, carry) = div_addback temp os base lo2 0 nd2 0
                     in if carry = 0 then Inl AssertFailed else Inr (temp, q - 1)
              else Inr (temp, q)
         else Inr (temp, q))"

fun div_loop ::
  "nat list \<Rightarrow> nat list \<Rightarrow> nat list \<Rightarrow> nat \<Rightarrow> nat \<Rightarrow> nat \<Rightarrow> nat \<Rightarrow> (nat list \<times> nat list) res" where
  "div_loop temp ds os divisor01 lo2 nd2 0 = Inr (temp, ds)"
| "div_loop temp ds os divisor01 lo2 nd2 (Suc iter) =
     res_bind (div_step temp os divisor01 lo2 nd2 iter) (\<lambda>(temp, q).
       div_loop temp (if iter < maxDigits then ds[iter := q] else ds) os divisor01 lo2 nd2 iter)"

function round_up_loop :: "nat list \<Rightarrow> nat \<Rightarrow> nat \<Rightarrow> nat list res" where
  "round_up_loop ds roundDigit iters =
     (if roundDigit < iters then
        res_bind (rd ds (int roundDigit)) (\<lambda>v.
          let nxt = (if v + 1 = 10 then 0 else v + 1)
          in res_bind (wr ds (int roundDigit) nxt) (\<lambda>ds.
               if nxt \<noteq> 0 then Inr ds else round_up_loop ds (Suc roundDigit) iters))
      else Inr ds)"
  by pat_completeness auto
termination
  by (relation "measure (\<lambda>(ds, roundDigit, iters). iters - roundDigit)") auto

definition div_rounds_up :: "nat list \<Rightarrow> nat list \<Rightarrow> nat \<Rightarrow> nat \<Rightarrow> nat \<Rightarrow> bool" where
  "div_rounds_up temp os divisor01 lo2 nd2 =
     (let base = spare - 1;
          q = div_guess temp base nd2 divisor01;
          q = (if q = 5 \<and> (div_borrow temp os base lo2 0 nd2 q 0 - int (temp ! (base + nd2))) mod 2 ^ 32 \<noteq> 0
               then q - 1 else q)
      in q \<ge> 5)"

text \<open>\<open>memcpy xs dst ys src n\<close> copies \<open>n\<close> bytes from offset \<open>src\<close> of \<open>ys\<close> to offset \<open>dst\<close> of \<open>xs\<close>.\<close>

definition memcpy :: "nat list \<Rightarrow> int \<Rightarrow> nat list \<Rightarrow> int \<Rightarrow> int \<Rightarrow> nat list res" where
  "memcpy xs dst ys src n =
     (if 0 \<le> n \<and> 0 \<le> dst \<and> dst + n \<le> int (length xs) \<and> 0 \<le> src \<and> src + n \<le> int (length ys)
      then Inr (take (nat dst) xs @ take (nat n) (drop (nat src) ys) @ drop (nat (dst + n)) xs)
      else Inl OutOfRange)"

text \<open>
  The copy of the numerator's digits into the buffer. The source compares \<^verbatim>\<open>numeratorDigits\<close> with
  \<^verbatim>\<open>(unsigned)nd1\<close>, so that a negative \<^verbatim>\<open>nd1\<close> counts as a huge number.
\<close>

definition div_numerator :: "decimal \<Rightarrow> int \<Rightarrow> int \<Rightarrow> int \<Rightarrow> nat list res" where
  "div_numerator d lo1 hi1 numeratorDigits =
     (let nd1 = hi1 + 1 - lo1;
          temp = replicate (nat numeratorDigits + spare) 0
      in if numeratorDigits > nd1 mod 2 ^ 32
         then memcpy temp (int spare + numeratorDigits - 1 - nd1) (digits d) lo1 nd1
         else memcpy temp (int spare) (digits d) (hi1 + 1 - (numeratorDigits - 1)) (numeratorDigits - 1))"

definition divide :: "decimal \<Rightarrow> decimal \<Rightarrow> decimal res" where
  "divide d other =
     (let (lo1, hi1) = clip d;
          (lo2, hi2) = clip other;
          nd2 = hi2 + 1 - lo2;
          hi = (hi1 - hi2) + int zeroDigit;
          iters = hi + 1
      in if hi < 0 then Inr (setZero d)
         else if hi2 < lo2 then Inr (setZero d)
         else
           res_bind (div_numerator d lo1 hi1 (hi + 1 + nd2)) (\<lambda>temp.
           let divisor01 = digits other ! nat hi2 * 10 +
                 (if hi2 \<noteq> lo2 then digits other ! nat (hi2 - 1) else 0)
           in res_bind (div_loop temp (digits d) (digits other) divisor01 (nat lo2) (nat nd2) (nat iters))
                (\<lambda>(temp, ds).
           res_bind (if div_rounds_up temp (digits other) divisor01 (nat lo2) (nat nd2)
                     then round_up_loop ds 0 (nat iters) else Inr ds) (\<lambda>ds.
           Inr (d\<lparr>digits := ds, lsb := 0, msb := byte (if hi \<ge> int maxDigits then int maxDigits - 1 else hi),
                  negative := (negative d \<noteq> negative other)\<rparr>)))))"

text \<open>The loops are unfolded one step at a time, by name.\<close>

declare clip_lo.simps [simp del] and clip_hi.simps [simp del]
  and zero_fill.simps [simp del] and add_loop.simps [simp del] and carry_loop.simps [simp del]
  and sub_loop.simps [simp del] and borrow_loop.simps [simp del] and complement_loop.simps [simp del]
  and compareNull_loop.simps [simp del] and compare_loop.simps [simp del]
  and mul_row.simps [simp del] and mul_rows.simps [simp del] and mul_round.simps [simp del]
  and mul_copy.simps [simp del] and mul_spill.simps [simp del] and doPower.simps [simp del]
  and div_sub.simps [simp del] and div_addback.simps [simp del] and div_borrow.simps [simp del]
  and round_up_loop.simps [simp del]

end
