(* ===== verification/Nbcd_Conv.thy ===== *)
theory Nbcd_Conv
  imports Nbcd
begin

text \<open>
  The rest of class \<^verbatim>\<open>Decimal\<close> (rtl/nbcd/nbcd.cpp) and of its file: powers and modulus, rounding,
  precision, the conversions from and to machine integers, text and packed decimals, and the
  helper functions on packed decimals. \<^verbatim>\<open>getReal\<close> and \<^verbatim>\<open>setReal\<close> work on doubles and are not
  modelled.

  A machine integer is a word of its width. A text or a packed decimal in memory is the list of its
  characters or bytes; a read or a write at an index the source does not bound goes through
  \<open>rd\<close> or \<open>wr\<close>.
\<close>

section \<open>Rounding\<close>

function incLSD_loop :: "decimal \<Rightarrow> nat \<Rightarrow> decimal res" where
  "incLSD_loop d index =
     (if index \<le> msb d then
        res_bind (rd (digits d) (int index)) (\<lambda>v.
          if byte (int v + 1) \<noteq> 10
          then Inr (d\<lparr>digits := (digits d)[index := byte (int v + 1)], lsb := index\<rparr>)
          else incLSD_loop (d\<lparr>digits := (digits d)[index := 0]\<rparr>) (Suc index))
      else res_bind (wr (digits d) (int (msb d + 1)) 1) (\<lambda>ds.
             Inr (d\<lparr>digits := ds, msb := msb d + 1\<rparr>)))"
  by pat_completeness auto
termination
  by (relation "measure (\<lambda>(d, index). Suc (msb d) - index)") auto

definition incLSD :: "decimal \<Rightarrow> decimal res" where
  "incLSD d = incLSD_loop d (lsb d)"

definition round_dec :: "decimal \<Rightarrow> int \<Rightarrow> decimal res" where
  "round_dec d places =
     (if places < - int maxPrecision then Inr (setZero d)
      else if int zeroDigit - places \<le> int (lsb d) then Inr d
      else
        let d = d\<lparr>lsb := byte (int zeroDigit - places)\<rparr>
        in if lsb d > msb d
           then res_bind (wr (digits d) (int (lsb d)) 0) (\<lambda>ds.
                  if lsb d = msb d + 1 \<and> ds ! msb d \<ge> 5
                  then Inr (d\<lparr>digits := ds[lsb d := ds ! lsb d + 1], msb := lsb d\<rparr>)
                  else Inr (d\<lparr>digits := ds, msb := lsb d\<rparr>))
           else if digits d ! (lsb d - 1) < 5 then Inr d
           else incLSD d)"

text \<open>The loop of \<^verbatim>\<open>roundup\<close>: is one of the dropped digits not zero?\<close>

function roundup_loop :: "nat list \<Rightarrow> nat \<Rightarrow> nat \<Rightarrow> bool res" where
  "roundup_loop ds i limit =
     (if i < limit then
        res_bind (rd ds (int i)) (\<lambda>v. if v \<noteq> 0 then Inr True else roundup_loop ds (Suc i) limit)
      else Inr False)"
  by pat_completeness auto
termination
  by (relation "measure (\<lambda>(ds, i, limit). limit - i)") auto

definition roundup :: "decimal \<Rightarrow> int \<Rightarrow> decimal res" where
  "roundup d places =
     (if places \<ge> int maxPrecision \<or> int zeroDigit - places \<le> int (lsb d) then Inr d
      else
        let lower = lsb d;
            d = d\<lparr>lsb := byte (int zeroDigit - places)\<rparr>
        in res_bind (roundup_loop (digits d) lower (lsb d)) (\<lambda>found. if found then incLSD d else Inr d))"

definition truncate_dec :: "decimal \<Rightarrow> int \<Rightarrow> decimal" where
  "truncate_dec d places =
     (if places \<le> - int maxIntegerDigits then setZero d
      else if int zeroDigit - places > int (lsb d)
      then let d = d\<lparr>lsb := byte (int zeroDigit - places)\<rparr>
           in if lsb d > msb d then d\<lparr>digits := (digits d)[lsb d := 0], msb := lsb d\<rparr> else d
      else d)"

section \<open>Precision\<close>

definition getPrecision :: "decimal \<Rightarrow> nat \<times> nat" where
  "getPrecision d =
     (let top = (if msb d \<ge> zeroDigit then msb d + 1 else zeroDigit);
          low = (if lsb d \<ge> zeroDigit then zeroDigit else lsb d)
      in (if top = low then 1 else top - low, zeroDigit - low))"

definition getClipPrecision :: "decimal \<Rightarrow> nat \<times> nat" where
  "getClipPrecision d =
     (let (lo, hi) = clip d
      in if lo > hi then (1, 0)
         else let top = (if hi \<ge> int zeroDigit then hi + 1 else int zeroDigit);
                  low = (if lo \<ge> int zeroDigit then int zeroDigit else lo)
              in (if top = low then 1 else nat (top - low), nat (int zeroDigit - low)))"

definition setPrecision :: "decimal \<Rightarrow> nat \<Rightarrow> nat \<Rightarrow> decimal" where
  "setPrecision d numDigits precision =
     (let newhigh = byte (int zeroDigit + int numDigits - int precision - 1);
          newlow = byte (int zeroDigit - int precision);
          d = (if msb d > newhigh then d\<lparr>msb := newhigh\<rparr> else d);
          d = (if lsb d < newlow then d\<lparr>lsb := newlow\<rparr> else d)
      in if lsb d > msb d then d\<lparr>lsb := msb d, digits := (digits d)[msb d := 0]\<rparr> else d)"

section \<open>Machine integers\<close>

text \<open>
  The loop of \<^verbatim>\<open>setUInt\<close> and \<^verbatim>\<open>setUInt64\<close>. A word of 64 bits has at most 20 decimal digits, so
  that \<open>idx\<close> stays in the array.
\<close>

function set_uint_loop :: "nat list \<Rightarrow> nat \<Rightarrow> 'a::len word \<Rightarrow> nat list \<times> nat" where
  "set_uint_loop ds idx value =
     (if unat value > 9 then
        let nxt = unat value div 10
        in set_uint_loop (ds[idx := unat value - nxt * 10]) (Suc idx) (word_of_nat nxt :: 'a word)
      else (ds[idx := unat value], idx))"
  by pat_completeness auto
termination
proof (relation "measure (\<lambda>(ds, idx, value). unat value)", goal_cases)
  case (2 ds idx v nxt)
  then have "unat (word_of_nat nxt :: 'a word) \<le> nxt" by (simp add: unat_of_nat)
  then show ?case using 2 by simp
qed auto

definition setUInt :: "decimal \<Rightarrow> 32 word \<Rightarrow> decimal" where
  "setUInt d value =
     (let (ds, idx) = set_uint_loop (digits d) zeroDigit value
      in d\<lparr>negative := False, lsb := zeroDigit, digits := ds, msb := idx\<rparr>)"

definition setUInt64 :: "decimal \<Rightarrow> 64 word \<Rightarrow> decimal" where
  "setUInt64 d value =
     (let (ds, idx) = set_uint_loop (digits d) zeroDigit value
      in d\<lparr>negative := False, lsb := zeroDigit, digits := ds, msb := idx\<rparr>)"

text \<open>A negative number is negated as a signed number, which is undefined for the least one.\<close>

definition setInt :: "decimal \<Rightarrow> 32 word \<Rightarrow> decimal res" where
  "setInt d value =
     (if sint value \<ge> 0 then Inr (setUInt d value)
      else res_bind (sneg value) (\<lambda>value. Inr ((setUInt d value)\<lparr>negative := True\<rparr>)))"

definition setInt64 :: "decimal \<Rightarrow> 64 word \<Rightarrow> decimal res" where
  "setInt64 d value =
     (if sint value \<ge> 0 then Inr (setUInt64 d value)
      else res_bind (sneg value) (\<lambda>value. Inr ((setUInt64 d value)\<lparr>negative := True\<rparr>)))"

text \<open>The two loops of \<^verbatim>\<open>getUInt\<close> and \<^verbatim>\<open>getUInt64\<close>; both leave \<open>idx\<close> one below the last place.\<close>

function get_uint_loop :: "nat list \<Rightarrow> int \<Rightarrow> int \<Rightarrow> 'a::len word \<Rightarrow> 'a word \<times> int" where
  "get_uint_loop ds idx lo value =
     (if idx \<ge> lo then get_uint_loop ds (idx - 1) lo (value * 10 + word_of_nat (ds ! nat idx))
      else (value, idx))"
  by pat_completeness auto
termination
  by (relation "measure (\<lambda>(ds, idx, lo, value). nat (idx - lo + 1))") auto

function scale_loop :: "int \<Rightarrow> 'a::len word \<Rightarrow> 'a word" where
  "scale_loop idx value = (if idx \<ge> int zeroDigit then scale_loop (idx - 1) (value * 10) else value)"
  by pat_completeness auto
termination
  by (relation "measure (\<lambda>(idx, value). nat (idx - int zeroDigit + 1))") auto

definition getUInt :: "decimal \<Rightarrow> 32 word" where
  "getUInt d =
     (if msb d \<ge> zeroDigit then
        let value = word_of_nat (digits d ! msb d)
        in if lsb d < zeroDigit
           then fst (get_uint_loop (digits d) (int (msb d) - 1) (int zeroDigit) value)
           else let (value, idx) = get_uint_loop (digits d) (int (msb d) - 1) (int (lsb d)) value
                in scale_loop idx value
      else 0)"

definition getUInt64 :: "decimal \<Rightarrow> 64 word" where
  "getUInt64 d =
     (if msb d \<ge> zeroDigit then
        let value = word_of_nat (digits d ! msb d)
        in if lsb d < zeroDigit
           then fst (get_uint_loop (digits d) (int (msb d) - 1) (int zeroDigit) value)
           else let (value, idx) = get_uint_loop (digits d) (int (msb d) - 1) (int (lsb d)) value
                in scale_loop idx value
      else 0)"

definition getInt64 :: "decimal \<Rightarrow> 64 word res" where
  "getInt64 d = (let value = getUInt64 d in if negative d then sneg value else Inr value)"

definition getInt :: "decimal \<Rightarrow> 32 word res" where
  "getInt d = (let value = getUInt d in if negative d then sneg value else Inr value)"

section \<open>Powers and modulus\<close>

definition power_unsigned :: "decimal \<Rightarrow> nat \<Rightarrow> decimal res" where
  "power_unsigned d value = (if value = 0 then setInt d 1 else doPower d value)"

definition power_int :: "decimal \<Rightarrow> int \<Rightarrow> decimal res" where
  "power_int d value =
     (if value \<ge> 0 then power_unsigned d (nat value)
      else res_bind (setInt decimal_init 1) (\<lambda>reciprocal. res_bind (divide reciprocal d) (\<lambda>reciprocal.
        if value = - (2 ^ 31) then Inl Undefined else doPower reciprocal (nat (- value)))))"

definition modulus :: "decimal \<Rightarrow> decimal \<Rightarrow> decimal res" where
  "modulus d other =
     res_bind (divide d other) (\<lambda>left. subtract_dec d (multiply (truncate_dec left 0) other))"

end
