(* ===== verification/Nbcd_AddSub.thy ===== *)
theory Nbcd_AddSub
  imports Nbcd
begin

text \<open>
  What a \<^verbatim>\<open>Decimal\<close> denotes, the invariant its operations keep, and the correctness of addition,
  subtraction and comparison. \<open>dval\<close> is the magnitude in units of the last of the 32 decimal
  places (\<open>10 ^ 32\<close> is one), \<open>sval\<close> the signed value in the same units.
\<close>

section \<open>Denotation and invariant\<close>

definition dval :: "decimal \<Rightarrow> nat" where
  "dval d = seg10 (digits d) (lsb d) (Suc (msb d))"

definition sval :: "decimal \<Rightarrow> int" where
  "sval d = (if negative d then - int (dval d) else int (dval d))"

definition digits_ok :: "nat list \<Rightarrow> bool" where
  "digits_ok ds \<longleftrightarrow> length ds = maxDigits \<and> list_all (\<lambda>x. x \<le> 9) ds"

definition dec_wf :: "decimal \<Rightarrow> bool" where
  "dec_wf d \<longleftrightarrow> digits_ok (digits d) \<and> msb d < maxDigits \<and> lsb d \<le> maxDigits"

lemma digits_okI: "length ds = 64 \<Longrightarrow> (\<And>i. i < 64 \<Longrightarrow> ds ! i \<le> 9) \<Longrightarrow> digits_ok ds"
  by (simp add: digits_ok_def list_all_length)

lemma digits_ok_length: "digits_ok ds \<Longrightarrow> length ds = 64"
  by (simp add: digits_ok_def)

lemma digits_ok_nth: "digits_ok ds \<Longrightarrow> i < 64 \<Longrightarrow> ds ! i \<le> 9"
  by (simp add: digits_ok_def list_all_length)

lemma digits_ok_update: "digits_ok ds \<Longrightarrow> v \<le> 9 \<Longrightarrow> digits_ok (ds[i := v])"
  by (cases "i < length ds")
     (auto intro!: digits_okI simp: digits_ok_length digits_ok_nth nth_list_update list_update_beyond)

lemma dec_wfD:
  assumes "dec_wf d"
  shows "digits_ok (digits d)" "msb d < 64" "lsb d \<le> 64"
  using assms by (simp_all add: dec_wf_def)

lemma dval_less: "dec_wf d \<Longrightarrow> dval d < 10 ^ Suc (msb d)"
  unfolding dval_def by (rule seg10_less) (auto simp: dec_wf_def digits_ok_nth)

lemma dval_less_max: "dec_wf d \<Longrightarrow> dval d < 10 ^ 64"
proof -
  assume wf: "dec_wf d"
  then have "(10::nat) ^ Suc (msb d) \<le> 10 ^ 64"
    by (intro power_increasing) (auto simp: dec_wf_def)
  with dval_less [OF wf] show ?thesis by (rule less_le_trans)
qed

lemma dec_wf_init: "dec_wf decimal_init"
  by (simp add: dec_wf_def decimal_init_def digits_ok_def list_all_length)

section \<open>Extending the range\<close>

lemma zero_fill_out: "i \<le> length ds \<Longrightarrow> length ds < j \<Longrightarrow> zero_fill ds i j = Inl OutOfRange"
proof (induction ds i j rule: zero_fill.induct)
  case (1 ds i j)
  show ?case
  proof (cases "i = length ds")
    case True
    then show ?thesis using 1(3) by (simp add: zero_fill.simps [of ds] wr_def)
  next
    case False
    then have "wr ds (int i) 0 = Inr (ds[i := 0])" using 1(2) by (simp add: wr_def)
    then show ?thesis using 1 False by (simp add: zero_fill.simps [of ds])
  qed
qed

lemma zero_fill_spec:
  "j \<le> length ds \<Longrightarrow>
     \<exists>es. zero_fill ds i j = Inr es \<and> length es = length ds \<and>
          (\<forall>k. es ! k = (if i \<le> k \<and> k < j then 0 else ds ! k))"
proof (induction ds i j rule: zero_fill.induct)
  case (1 ds i j)
  show ?case
  proof (cases "i < j")
    case False
    then show ?thesis by (simp add: zero_fill.simps [of ds i j])
  next
    case True
    with "1.prems" have w: "wr ds (int i) 0 = Inr (ds[i := 0])" by (simp add: wr_def)
    from "1.IH" [OF True, of "ds[i := 0]"] "1.prems" obtain es where
      es: "zero_fill (ds[i := 0]) (Suc i) j = Inr es" "length es = length ds"
      "\<forall>k. es ! k = (if Suc i \<le> k \<and> k < j then 0 else ds[i := 0] ! k)" by auto
    have "es ! k = (if i \<le> k \<and> k < j then 0 else ds ! k)" for k
      using es(3) True "1.prems" by (cases "k = i") auto
    with es True w show ?thesis by (simp add: zero_fill.simps [of ds i j])
  qed
qed

lemma extendRange_spec:
  assumes wf: "dec_wf d" and o: "oLsb \<le> 64" "oMsb < 64"
  obtains e where "extendRange d oLsb oMsb = Inr e" "dec_wf e" "negative e = negative d"
    "lsb e = min (lsb d) oLsb" "msb e = max (msb d) oMsb" "dval e = dval d"
proof -
  from wf have ok: "digits_ok (digits d)" and m: "msb d < 64" and l: "lsb d \<le> 64"
    by (simp_all add: dec_wfD)
  let ?j = "if oLsb < lsb d then lsb d else oLsb"
  have "?j \<le> length (digits d)" using l o digits_ok_length [OF ok] by simp
  then obtain ds1 where ds1: "zero_fill (digits d) oLsb ?j = Inr ds1" "length ds1 = length (digits d)"
    "\<forall>k. ds1 ! k = (if oLsb \<le> k \<and> k < ?j then 0 else digits d ! k)"
    using zero_fill_spec by blast
  let ?h = "if msb d < oMsb then oMsb + 1 else msb d + 1"
  have "?h \<le> length ds1" using m o ds1(2) digits_ok_length [OF ok] by simp
  then obtain ds2 where ds2: "zero_fill ds1 (msb d + 1) ?h = Inr ds2" "length ds2 = length ds1"
    "\<forall>k. ds2 ! k = (if msb d + 1 \<le> k \<and> k < ?h then 0 else ds1 ! k)"
    using zero_fill_spec by blast
  let ?e = "d\<lparr>digits := ds2, lsb := min (lsb d) oLsb, msb := max (msb d) oMsb\<rparr>"
  have fill0: "zero_fill xs i i = Inr xs" for xs i by (simp add: zero_fill.simps)
  have e: "extendRange d oLsb oMsb = Inr ?e"
    using ds1(1) ds2(1) by (auto simp: extendRange_def fill0 min_def max_def split: if_splits)
  have "digits_ok ds2"
    using ds1(2,3) ds2(2,3) digits_ok_nth [OF ok] digits_ok_length [OF ok]
    by (intro digits_okI) simp_all
  then have wfe: "dec_wf ?e" using m l o by (auto simp: dec_wf_def)
  have "seg10 ds2 (min (lsb d) oLsb) (Suc (max (msb d) oMsb)) = dval d"
  proof (cases "lsb d \<le> Suc (msb d)")
    case True
    let ?a = "min (lsb d) oLsb" and ?b = "Suc (max (msb d) oMsb)"
    have "seg10 ds2 ?a (lsb d) = 0"
      by (rule seg10_zero) (use ds1(3) ds2(3) True in \<open>auto split: if_splits\<close>)
    moreover have "seg10 ds2 (Suc (msb d)) ?b = 0"
      by (rule seg10_zero) (use ds1(3) ds2(3) True in \<open>auto split: if_splits\<close>)
    moreover have "seg10 ds2 (lsb d) (Suc (msb d)) = dval d"
      unfolding dval_def by (rule seg10_cong) (use ds1(3) ds2(3) in auto)
    moreover have "seg10 ds2 ?a ?b = seg10 ds2 ?a (lsb d) + seg10 ds2 (lsb d) ?b"
      by (rule seg10_split) (use True in auto)
    moreover have "seg10 ds2 (lsb d) ?b = seg10 ds2 (lsb d) (Suc (msb d)) + seg10 ds2 (Suc (msb d)) ?b"
      by (rule seg10_split) (use True in auto)
    ultimately show ?thesis by simp
  next
    case False
    then show ?thesis unfolding dval_def
      by (subst (2) seg10_empty) (auto intro!: seg10_zero simp: ds1(3) ds2(3) min_def max_def)
  qed
  with e wfe that [of ?e] show ?thesis by (simp add: dval_def)
qed

section \<open>The digit loops\<close>

text \<open>
  Each lemma compares the number in a segment \<open>[l, b)\<close> around the digits the loop works on
  before and after it; \<open>c * 10 ^ i\<close> is the carry that is still to be added at position \<open>i\<close>.
\<close>

lemma add_loop_step:
  assumes "idx \<le> oHi" "ds ! idx \<le> 9" "os ! idx \<le> 9" "c \<le> 1"
  shows "add_loop ds os idx oHi c =
    add_loop (ds[idx := (ds ! idx + os ! idx + c) mod 10]) os (Suc idx) oHi
      ((ds ! idx + os ! idx + c) div 10)"
proof -
  let ?s = "ds ! idx + os ! idx + c"
  have s: "byte (int (ds ! idx) + (int (os ! idx) + int c)) = ?s"
    using assms by (simp add: nat_add_distrib)
  show ?thesis
  proof (cases "?s > 9")
    case True
    then have "?s mod 10 = ?s - 10" "?s div 10 = 1" using assms by (simp_all add: mod_if div_if)
    with True assms(1) s show ?thesis by (simp add: add_loop.simps [of ds])
  next
    case False
    then have "?s mod 10 = ?s" "?s div 10 = 0" by simp_all
    with False assms(1) s show ?thesis by (simp add: add_loop.simps [of ds])
  qed
qed

lemma add_loop_spec:
  "add_loop ds os idx oHi c = (ds', i', c') \<Longrightarrow> digits_ok ds \<Longrightarrow> digits_ok os \<Longrightarrow> c \<le> 1 \<Longrightarrow>
   l \<le> idx \<Longrightarrow> oHi < b \<Longrightarrow> b \<le> 64 \<Longrightarrow>
   digits_ok ds' \<and> c' \<le> 1 \<and> i' = max idx (Suc oHi) \<and>
   seg10 ds' l b + c' * 10 ^ i' = seg10 ds l b + seg10 os idx (Suc oHi) + c * 10 ^ idx"
proof (induction "Suc oHi - idx" arbitrary: ds idx c)
  case 0
  then show ?case by (simp add: add_loop.simps [of ds])
next
  case (Suc n)
  then have idx: "idx \<le> oHi" "idx < 64" by simp_all
  have le: "ds ! idx \<le> 9" "os ! idx \<le> 9" using idx Suc.prems by (simp_all add: digits_ok_nth)
  let ?s = "ds ! idx + os ! idx + c"
  let ?ds = "ds[idx := ?s mod 10]"
  have "add_loop ?ds os (Suc idx) oHi (?s div 10) = (ds', i', c')"
    using add_loop_step [OF idx(1) le] Suc.prems by simp
  moreover have "digits_ok ?ds" using Suc.prems by (simp add: digits_ok_update)
  moreover have "?s div 10 \<le> 1" using le Suc.prems by simp
  ultimately have IH: "digits_ok ds' \<and> c' \<le> 1 \<and> i' = max (Suc idx) (Suc oHi) \<and>
      seg10 ds' l b + c' * 10 ^ i' =
      seg10 ?ds l b + seg10 os (Suc idx) (Suc oHi) + ?s div 10 * 10 ^ Suc idx"
    using Suc by (intro Suc.hyps(1)) simp_all
  have "seg10 ?ds l b + 0 * 10 ^ idx + ?s div 10 * 10 ^ Suc idx =
      seg10 ds l b + (os ! idx + c) * 10 ^ idx + 0 * 10 ^ Suc idx"
    using Suc.prems idx by (intro seg10_digit_step) (simp_all add: digits_ok_length)
  moreover have "seg10 os idx (Suc oHi) = os ! idx * 10 ^ idx + seg10 os (Suc idx) (Suc oHi)"
    using idx by (simp add: seg10_head)
  ultimately show ?case using IH idx by (auto simp: max_def distrib_right)
qed

lemma carry_loop_step:
  assumes "c \<noteq> 0" "idx \<le> hi" "ds ! idx \<le> 9"
  shows "carry_loop ds idx hi c =
    carry_loop (ds[idx := (ds ! idx + 1) mod 10]) (Suc idx) hi ((ds ! idx + 1) div 10)"
proof -
  have s: "byte (int (ds ! idx) + 1) = ds ! idx + 1" using assms by (simp add: nat_add_distrib)
  show ?thesis
  proof (cases "ds ! idx = 9")
    case True
    with assms s show ?thesis by (simp add: carry_loop.simps [of ds])
  next
    case False
    with assms(3) have "(ds ! idx + 1) mod 10 = ds ! idx + 1" "(ds ! idx + 1) div 10 = 0" by simp_all
    with False assms s show ?thesis by (simp add: carry_loop.simps [of ds])
  qed
qed

lemma carry_loop_spec:
  "carry_loop ds idx hi c = (ds', i', c') \<Longrightarrow> digits_ok ds \<Longrightarrow> c \<le> 1 \<Longrightarrow>
   l \<le> idx \<Longrightarrow> hi < b \<Longrightarrow> b \<le> 64 \<Longrightarrow>
   digits_ok ds' \<and> c' \<le> 1 \<and> (c' \<noteq> 0 \<longrightarrow> i' = max idx (Suc hi)) \<and>
   seg10 ds' l b + c' * 10 ^ i' = seg10 ds l b + c * 10 ^ idx"
proof (induction "Suc hi - idx" arbitrary: ds idx c)
  case 0
  then show ?case by (auto simp: carry_loop.simps [of ds])
next
  case (Suc n)
  then have idx: "idx \<le> hi" "idx < 64" by simp_all
  have le: "ds ! idx \<le> 9" using idx Suc.prems by (simp add: digits_ok_nth)
  show ?case
  proof (cases "c = 0")
    case True
    with Suc.prems show ?thesis by (simp add: carry_loop.simps [of ds])
  next
    case False
    let ?s = "ds ! idx + 1"
    let ?ds = "ds[idx := ?s mod 10]"
    have "carry_loop ?ds (Suc idx) hi (?s div 10) = (ds', i', c')"
      using carry_loop_step [OF False idx(1) le] Suc.prems by simp
    moreover have "digits_ok ?ds" using Suc.prems by (simp add: digits_ok_update)
    moreover have "?s div 10 \<le> 1" using le by simp
    ultimately have "digits_ok ds' \<and> c' \<le> 1 \<and> (c' \<noteq> 0 \<longrightarrow> i' = max (Suc idx) (Suc hi)) \<and>
        seg10 ds' l b + c' * 10 ^ i' = seg10 ?ds l b + ?s div 10 * 10 ^ Suc idx"
      using Suc by (intro Suc.hyps(1)) simp_all
    moreover have "seg10 ?ds l b + 0 * 10 ^ idx + ?s div 10 * 10 ^ Suc idx =
        seg10 ds l b + 1 * 10 ^ idx + 0 * 10 ^ Suc idx"
      using Suc.prems idx by (intro seg10_digit_step) (simp_all add: digits_ok_length)
    moreover have "c = 1" using False Suc.prems by simp
    ultimately show ?thesis using idx by (auto simp: max_def)
  qed
qed

text \<open>
  The subtracting loops: \<open>bor\<close> is the borrow out of a position from which \<open>t\<close> is taken.
\<close>

definition bor :: "nat \<Rightarrow> nat \<Rightarrow> nat" where
  "bor d t = (if d < t then 1 else 0)"

lemma bor_digit: "d \<le> 9 \<Longrightarrow> t \<le> 10 \<Longrightarrow> d + 10 * bor d t - t \<le> 9 \<and> t \<le> d + 10 * bor d t"
  by (auto simp: bor_def)

lemma sub_loop_step:
  assumes "idx \<le> oHi" "ds ! idx \<le> 9" "os ! idx \<le> 9" "c \<le> 1"
  shows "sub_loop ds os idx oHi c =
    sub_loop (ds[idx := ds ! idx + 10 * bor (ds ! idx) (os ! idx + c) - (os ! idx + c)]) os (Suc idx) oHi
      (bor (ds ! idx) (os ! idx + c))"
proof (cases "ds ! idx < os ! idx + c")
  case True
  let ?n = "int (ds ! idx) - (int (os ! idx) + int c)"
  have "byte (?n + 10) = ds ! idx + 10 - (os ! idx + c)"
    using True assms by (subst byte_id) (auto simp: nat_diff_distrib nat_add_distrib)
  with True assms(1) show ?thesis by (simp add: sub_loop.simps [of ds] bor_def)
next
  case False
  let ?n = "int (ds ! idx) - (int (os ! idx) + int c)"
  have "byte ?n = ds ! idx - (os ! idx + c)"
    using False assms by (subst byte_id) (auto simp: nat_diff_distrib nat_add_distrib)
  with False assms(1) show ?thesis by (simp add: sub_loop.simps [of ds] bor_def)
qed

lemma sub_loop_spec:
  "sub_loop ds os idx oHi c = (ds', i', c') \<Longrightarrow> digits_ok ds \<Longrightarrow> digits_ok os \<Longrightarrow> c \<le> 1 \<Longrightarrow>
   l \<le> idx \<Longrightarrow> oHi < b \<Longrightarrow> b \<le> 64 \<Longrightarrow>
   digits_ok ds' \<and> c' \<le> 1 \<and> i' = max idx (Suc oHi) \<and>
   seg10 ds' l b + seg10 os idx (Suc oHi) + c * 10 ^ idx = seg10 ds l b + c' * 10 ^ i'"
proof (induction "Suc oHi - idx" arbitrary: ds idx c)
  case 0
  then show ?case by (simp add: sub_loop.simps [of ds])
next
  case (Suc n)
  then have idx: "idx \<le> oHi" "idx < 64" by simp_all
  have le: "ds ! idx \<le> 9" "os ! idx \<le> 9" using idx Suc.prems by (simp_all add: digits_ok_nth)
  let ?t = "os ! idx + c" and ?k = "bor (ds ! idx) (os ! idx + c)"
  let ?ds = "ds[idx := ds ! idx + 10 * ?k - ?t]"
  have dig: "ds ! idx + 10 * ?k - ?t \<le> 9" "?t \<le> ds ! idx + 10 * ?k"
    using bor_digit [of "ds ! idx" ?t] le Suc.prems by simp_all
  have "sub_loop ?ds os (Suc idx) oHi ?k = (ds', i', c')"
    using sub_loop_step [OF idx(1) le] Suc.prems by simp
  moreover have "digits_ok ?ds" using Suc.prems dig by (simp add: digits_ok_update)
  moreover have "?k \<le> 1" by (simp add: bor_def)
  ultimately have IH: "digits_ok ds' \<and> c' \<le> 1 \<and> i' = max (Suc idx) (Suc oHi) \<and>
      seg10 ds' l b + seg10 os (Suc idx) (Suc oHi) + ?k * 10 ^ Suc idx = seg10 ?ds l b + c' * 10 ^ i'"
    using Suc by (intro Suc.hyps(1)) simp_all
  have "seg10 ?ds l b + ?t * 10 ^ idx + 0 * 10 ^ Suc idx =
      seg10 ds l b + 0 * 10 ^ idx + ?k * 10 ^ Suc idx"
    using Suc.prems idx dig by (intro seg10_digit_step) (simp_all add: digits_ok_length)
  moreover have "seg10 os idx (Suc oHi) = os ! idx * 10 ^ idx + seg10 os (Suc idx) (Suc oHi)"
    using idx by (simp add: seg10_head)
  ultimately show ?case using IH idx by (auto simp: max_def distrib_right)
qed

lemma borrow_loop_step:
  assumes "c \<noteq> 0" "idx \<le> hi" "ds ! idx \<le> 9"
  shows "borrow_loop ds idx hi c =
    borrow_loop (ds[idx := ds ! idx + 10 * bor (ds ! idx) 1 - 1]) (Suc idx) hi (bor (ds ! idx) 1)"
proof (cases "ds ! idx = 0")
  case True
  have "byte (- 1) = 255" "byte 265 = 9" by (simp_all add: byte_def)
  with True assms show ?thesis by (simp add: borrow_loop.simps [of ds] bor_def)
next
  case False
  have "byte (int (ds ! idx) - 1) = ds ! idx - 1"
    using False assms by (subst byte_id) (auto simp: nat_diff_distrib)
  moreover have "ds ! idx - 1 \<noteq> 255" using assms by simp
  ultimately show ?thesis
    using False assms by (simp add: borrow_loop.simps [of ds] bor_def Let_def del: byte_id)
qed

lemma borrow_loop_spec:
  "borrow_loop ds idx hi c = (ds', i', c') \<Longrightarrow> digits_ok ds \<Longrightarrow> c \<le> 1 \<Longrightarrow>
   l \<le> idx \<Longrightarrow> hi < b \<Longrightarrow> b \<le> 64 \<Longrightarrow>
   digits_ok ds' \<and> c' \<le> 1 \<and> (c' \<noteq> 0 \<longrightarrow> i' = max idx (Suc hi)) \<and>
   seg10 ds' l b + c * 10 ^ idx = seg10 ds l b + c' * 10 ^ i'"
proof (induction "Suc hi - idx" arbitrary: ds idx c)
  case 0
  then show ?case by (auto simp: borrow_loop.simps [of ds])
next
  case (Suc n)
  then have idx: "idx \<le> hi" "idx < 64" by simp_all
  have le: "ds ! idx \<le> 9" using idx Suc.prems by (simp add: digits_ok_nth)
  show ?case
  proof (cases "c = 0")
    case True
    with Suc.prems show ?thesis by (simp add: borrow_loop.simps [of ds])
  next
    case False
    let ?k = "bor (ds ! idx) 1"
    let ?ds = "ds[idx := ds ! idx + 10 * ?k - 1]"
    have dig: "ds ! idx + 10 * ?k - 1 \<le> 9" "1 \<le> ds ! idx + 10 * ?k"
      using bor_digit [of "ds ! idx" 1] le by simp_all
    have "borrow_loop ?ds (Suc idx) hi ?k = (ds', i', c')"
      using borrow_loop_step [OF False idx(1) le] Suc.prems by simp
    moreover have "digits_ok ?ds" using Suc.prems dig by (simp add: digits_ok_update)
    moreover have "?k \<le> 1" by (simp add: bor_def)
    ultimately have "digits_ok ds' \<and> c' \<le> 1 \<and> (c' \<noteq> 0 \<longrightarrow> i' = max (Suc idx) (Suc hi)) \<and>
        seg10 ds' l b + ?k * 10 ^ Suc idx = seg10 ?ds l b + c' * 10 ^ i'"
      using Suc by (intro Suc.hyps(1)) simp_all
    moreover have "seg10 ?ds l b + 1 * 10 ^ idx + 0 * 10 ^ Suc idx =
        seg10 ds l b + 0 * 10 ^ idx + ?k * 10 ^ Suc idx"
      using Suc.prems idx dig by (intro seg10_digit_step) (simp_all add: digits_ok_length)
    moreover have "c = 1" using False Suc.prems by simp
    ultimately show ?thesis using idx by (auto simp: max_def)
  qed
qed

lemma complement_loop_step:
  assumes "idx \<le> hi" "ds ! idx \<le> 9" "c \<le> 1"
  shows "complement_loop ds idx hi c =
    complement_loop (ds[idx := (9 - ds ! idx + c) mod 10]) (Suc idx) hi ((9 - ds ! idx + c) div 10)"
proof -
  have s: "byte (9 - int (ds ! idx) + int c) = 9 - ds ! idx + c"
    using assms by (subst byte_id) (auto simp: nat_add_distrib nat_diff_distrib)
  show ?thesis
  proof (cases "9 - ds ! idx + c = 10")
    case True
    with assms s show ?thesis by (simp add: complement_loop.simps [of ds])
  next
    case False
    with assms(3) have "9 - ds ! idx + c < 10" by simp
    with False assms s show ?thesis by (simp add: complement_loop.simps [of ds])
  qed
qed

lemma complement_loop_spec:
  "complement_loop ds idx hi c = (ds', c') \<Longrightarrow> digits_ok ds \<Longrightarrow> c \<le> 1 \<Longrightarrow>
   idx \<le> Suc hi \<Longrightarrow> hi < 64 \<Longrightarrow>
   digits_ok ds' \<and> c' \<le> 1 \<and> (\<forall>k < idx. ds' ! k = ds ! k) \<and>
   seg10 ds' idx (Suc hi) + seg10 ds idx (Suc hi) + c' * 10 ^ Suc hi + 10 ^ idx = 10 ^ Suc hi + c * 10 ^ idx"
proof (induction "Suc hi - idx" arbitrary: ds idx c)
  case 0
  then have "idx = Suc hi" by simp
  with 0 show ?case by (simp add: complement_loop.simps [of ds])
next
  case (Suc n)
  then have idx: "idx \<le> hi" "idx < 64" by simp_all
  have le: "ds ! idx \<le> 9" using idx Suc.prems by (simp add: digits_ok_nth)
  let ?s = "9 - ds ! idx + c"
  let ?ds = "ds[idx := ?s mod 10]"
  have "complement_loop ?ds (Suc idx) hi (?s div 10) = (ds', c')"
    using complement_loop_step [OF idx(1) le] Suc.prems by simp
  moreover have "digits_ok ?ds" using Suc.prems by (simp add: digits_ok_update)
  moreover have "?s div 10 \<le> 1" using le Suc.prems by simp
  ultimately have "digits_ok ds' \<and> c' \<le> 1 \<and> (\<forall>k < Suc idx. ds' ! k = ?ds ! k) \<and>
    seg10 ds' (Suc idx) (Suc hi) + seg10 ?ds (Suc idx) (Suc hi) + c' * 10 ^ Suc hi + 10 ^ Suc idx
       = 10 ^ Suc hi + ?s div 10 * 10 ^ Suc idx"
    using Suc.hyps(2) Suc.prems idx by (intro Suc.hyps(1)) simp_all
  then have IH: "digits_ok ds'" "c' \<le> 1" "\<forall>k < Suc idx. ds' ! k = ?ds ! k"
    "seg10 ds' (Suc idx) (Suc hi) + seg10 ?ds (Suc idx) (Suc hi) + c' * 10 ^ Suc hi + 10 ^ Suc idx
       = 10 ^ Suc hi + ?s div 10 * 10 ^ Suc idx"
    by blast+
  have d: "ds' ! idx = ?s mod 10" using IH(3) Suc.prems idx by (simp add: digits_ok_length)
  have scale: "m * p + k * (10 * p) + e * p = 9 * p + c * p" if "m + 10 * k + e = 9 + c" for m k e p :: nat
    using arg_cong [OF that, of "\<lambda>x. x * p"] by (simp add: algebra_simps)
  have "?s mod 10 + 10 * (?s div 10) + ds ! idx = 9 + c" using le by simp
  then have "?s mod 10 * 10 ^ idx + ?s div 10 * (10 * 10 ^ idx) + ds ! idx * 10 ^ idx = 9 * 10 ^ idx + c * 10 ^ idx"
    by (rule scale)
  then have "?s mod 10 * 10 ^ idx + ?s div 10 * 10 ^ Suc idx + ds ! idx * 10 ^ idx = 9 * 10 ^ idx + c * 10 ^ idx"
    by simp
  moreover have "10 ^ Suc idx = 10 * (10 ^ idx :: nat)" by simp
  moreover have "seg10 ?ds (Suc idx) (Suc hi) = seg10 ds (Suc idx) (Suc hi)" by simp
  moreover have "seg10 ds' idx (Suc hi) = ?s mod 10 * 10 ^ idx + seg10 ds' (Suc idx) (Suc hi)"
    "seg10 ds idx (Suc hi) = ds ! idx * 10 ^ idx + seg10 ds (Suc idx) (Suc hi)"
    using idx d by (simp_all add: seg10_head)
  ultimately have "seg10 ds' idx (Suc hi) + seg10 ds idx (Suc hi) + c' * 10 ^ Suc hi + 10 ^ idx =
      10 ^ Suc hi + c * 10 ^ idx"
    using IH(4) by linarith
  with IH(1-3) show ?case by auto
qed

section \<open>Addition and subtraction of magnitudes\<close>

lemma addDigits_spec:
  assumes wf: "dec_wf d" "dec_wf other"
  obtains e where "addDigits d other = Inr e" "dec_wf e" "negative e = negative d"
    "dval e = (dval d + dval other) mod 10 ^ 64"
proof -
  from wf(2) have oo: "digits_ok (digits other)" "msb other < 64" "lsb other \<le> 64" by (simp_all add: dec_wfD)
  obtain f where f: "extendRange d (lsb other) (msb other) = Inr f" "dec_wf f" "negative f = negative d"
    "lsb f = min (lsb d) (lsb other)" "msb f = max (msb d) (msb other)" "dval f = dval d"
    using extendRange_spec [OF wf(1) oo(3,2)] by blast
  from f(2) have ff: "digits_ok (digits f)" "msb f < 64" "lsb f \<le> 64" by (simp_all add: dec_wfD)
  obtain ds1 i1 c1 where l1: "add_loop (digits f) (digits other) (lsb other) (msb other) 0 = (ds1, i1, c1)"
    by (metis prod_cases3)
  obtain ds2 i2 c2 where l2: "carry_loop ds1 i1 (msb f) c1 = (ds2, i2, c2)" by (metis prod_cases3)
  let ?b = "Suc (msb f)"
  have "digits_ok ds1 \<and> c1 \<le> 1 \<and> i1 = max (lsb other) (Suc (msb other)) \<and>
    seg10 ds1 (lsb f) ?b + c1 * 10 ^ i1 = dval f + dval other + 0 * 10 ^ lsb other"
    unfolding dval_def using f(4,5) ff by (intro add_loop_spec [OF l1 ff(1) oo(1)]) simp_all
  then have s1: "digits_ok ds1" "c1 \<le> 1" "i1 = max (lsb other) (Suc (msb other))"
    "seg10 ds1 (lsb f) ?b + c1 * 10 ^ i1 = dval d + dval other"
    using f(6) by auto
  have "digits_ok ds2 \<and> c2 \<le> 1 \<and> (c2 \<noteq> 0 \<longrightarrow> i2 = max i1 ?b) \<and>
    seg10 ds2 (lsb f) ?b + c2 * 10 ^ i2 = seg10 ds1 (lsb f) ?b + c1 * 10 ^ i1"
    using f(4,5) ff s1(3) by (intro carry_loop_spec [OF l2 s1(1,2)]) (simp_all add: min_le_iff_disj)
  then have s2: "digits_ok ds2" "c2 \<le> 1" "c2 \<noteq> 0 \<longrightarrow> i2 = max i1 ?b"
    "seg10 ds2 (lsb f) ?b + c2 * 10 ^ i2 = dval d + dval other"
    using s1(4) by auto
  have le: "\<forall>i < 64. ds2 ! i \<le> 9" using s2(1) by (simp add: digits_ok_nth)
  have small: "seg10 ds2 (lsb f) ?b < 10 ^ ?b" using le ff by (intro seg10_less) simp
  have carried: "i2 = ?b \<and> lsb f \<le> ?b" if "c2 \<noteq> 0"
  proof -
    have "c1 \<noteq> 0" using l2 that by (auto simp: carry_loop.simps [of ds1] split: if_splits)
    then have "lsb other \<le> msb other"
      using l1 by (auto simp: add_loop.simps [of "digits f"] split: if_splits)
    then show ?thesis using that s2(3) s1(3) f(4,5) by auto
  qed
  show ?thesis
  proof (cases "c2 = 0")
    case True
    let ?e = "f\<lparr>digits := ds2\<rparr>"
    have "addDigits d other = Inr ?e" using f(1) l1 l2 True by (simp add: addDigits_def)
    moreover have wfe: "dec_wf ?e" using s2(1) ff by (simp add: dec_wf_def)
    moreover have v: "dval ?e = dval d + dval other" using s2(4) True by (simp add: dval_def)
    moreover have "dval d + dval other < 10 ^ 64" using dval_less_max [OF wfe] v by simp
    ultimately show ?thesis using that [of ?e] f(3) by simp
  next
    case False
    then have c: "c2 = 1" using s2(2) by simp
    have sum: "seg10 ds2 (lsb f) ?b + 10 ^ ?b = dval d + dval other"
      using s2(4) carried [OF False] c by simp
    show ?thesis
    proof (cases "msb f = 63")
      case True
      let ?e = "f\<lparr>digits := ds2\<rparr>"
      have "addDigits d other = Inr ?e" using f(1) l1 l2 True by (simp add: addDigits_def)
      moreover have "dec_wf ?e" using s2(1) ff by (simp add: dec_wf_def)
      moreover have "dval ?e = (dval d + dval other) mod 10 ^ 64"
        unfolding sum [symmetric] using small True by (simp add: dval_def)
      ultimately show ?thesis using that [of ?e] f(3) by simp
    next
      case m: False
      let ?e = "f\<lparr>digits := ds2[msb f + 1 := c2], msb := msb f + 1\<rparr>"
      have "addDigits d other = Inr ?e" using f(1) l1 l2 False m by (simp add: addDigits_def)
      moreover have wfe: "dec_wf ?e" using s2(1) ff m c by (simp add: dec_wf_def digits_ok_update)
      moreover have v: "dval ?e = dval d + dval other"
        using sum carried [OF False] ff s2(1) m c by (simp add: dval_def seg10_Suc digits_ok_length)
      moreover have "dval d + dval other < 10 ^ 64" using dval_less_max [OF wfe] v by simp
      ultimately show ?thesis using that [of ?e] f(3) by simp
    qed
  qed
qed

lemma subtractDigits_spec:
  assumes wf: "dec_wf d" "dec_wf other"
  obtains e where "subtractDigits d other = Inr e" "dec_wf e"
    "negative e = (if dval d < dval other then \<not> negative d else negative d)"
    "int (dval e) = \<bar>int (dval d) - int (dval other)\<bar>"
proof -
  from wf(2) have oo: "digits_ok (digits other)" "msb other < 64" "lsb other \<le> 64" by (simp_all add: dec_wfD)
  obtain f where f: "extendRange d (lsb other) (msb other) = Inr f" "dec_wf f" "negative f = negative d"
    "lsb f = min (lsb d) (lsb other)" "msb f = max (msb d) (msb other)" "dval f = dval d"
    using extendRange_spec [OF wf(1) oo(3,2)] by blast
  from f(2) have ff: "digits_ok (digits f)" "msb f < 64" "lsb f \<le> 64" by (simp_all add: dec_wfD)
  obtain ds1 i1 c1 where l1: "sub_loop (digits f) (digits other) (lsb other) (msb other) 0 = (ds1, i1, c1)"
    by (metis prod_cases3)
  obtain ds2 i2 c2 where l2: "borrow_loop ds1 i1 (msb f) c1 = (ds2, i2, c2)" by (metis prod_cases3)
  let ?b = "Suc (msb f)"
  have "digits_ok ds1 \<and> c1 \<le> 1 \<and> i1 = max (lsb other) (Suc (msb other)) \<and>
    seg10 ds1 (lsb f) ?b + dval other + 0 * 10 ^ lsb other = dval f + c1 * 10 ^ i1"
    unfolding dval_def using f(4,5) ff by (intro sub_loop_spec [OF l1 ff(1) oo(1)]) simp_all
  then have s1: "digits_ok ds1" "c1 \<le> 1" "i1 = max (lsb other) (Suc (msb other))"
    "seg10 ds1 (lsb f) ?b + dval other = dval d + c1 * 10 ^ i1"
    using f(6) by auto
  have "digits_ok ds2 \<and> c2 \<le> 1 \<and> (c2 \<noteq> 0 \<longrightarrow> i2 = max i1 ?b) \<and>
    seg10 ds2 (lsb f) ?b + c1 * 10 ^ i1 = seg10 ds1 (lsb f) ?b + c2 * 10 ^ i2"
    using f(4,5) ff s1(3) by (intro borrow_loop_spec [OF l2 s1(1,2)]) (simp_all add: min_le_iff_disj)
  then have s2: "digits_ok ds2" "c2 \<le> 1" "c2 \<noteq> 0 \<longrightarrow> i2 = max i1 ?b"
    "seg10 ds2 (lsb f) ?b + dval other = dval d + c2 * 10 ^ i2"
    using s1(4) by auto
  show ?thesis
  proof (cases "c2 = 0")
    case True
    let ?e = "f\<lparr>digits := ds2\<rparr>"
    have "subtractDigits d other = Inr ?e" using f(1) l1 l2 True by (simp add: subtractDigits_def)
    moreover have "dec_wf ?e" using s2(1) ff by (simp add: dec_wf_def)
    moreover have "dval ?e + dval other = dval d" using s2(4) True by (simp add: dval_def)
    ultimately show ?thesis using that [of ?e] f(3) by simp
  next
    case False
    then have c: "c2 = 1" using s2(2) by simp
    have "c1 \<noteq> 0" using l2 False by (auto simp: borrow_loop.simps [of ds1] split: if_splits)
    then have "lsb other \<le> msb other"
      using l1 by (auto simp: sub_loop.simps [of "digits f"] split: if_splits)
    then have i2: "i2 = ?b" and lb: "lsb f \<le> ?b" using False s2(3) s1(3) f(4,5) by auto
    obtain ds3 c3 where l3: "complement_loop ds2 (lsb f) (msb f) 1 = (ds3, c3)" by fastforce
    have s3: "digits_ok ds3" "c3 \<le> 1"
      "seg10 ds3 (lsb f) ?b + seg10 ds2 (lsb f) ?b + c3 * 10 ^ ?b = 10 ^ ?b"
      using complement_loop_spec [OF l3 s2(1)] lb ff by auto
    have sum: "seg10 ds2 (lsb f) ?b + dval other = dval d + 10 ^ ?b" using s2(4) c i2 by simp
    have "(10::nat) ^ Suc (msb other) \<le> 10 ^ ?b" using f(5) by (intro power_increasing) simp_all
    with dval_less [OF wf(2)] have less: "dval other < 10 ^ ?b" by (rule less_le_trans)
    have small: "seg10 ds2 (lsb f) ?b < 10 ^ ?b"
      using s2(1) ff by (intro seg10_less) (simp add: digits_ok_nth)
    have "c3 \<noteq> 1" using s3(3) sum less by auto
    with s3(2) have c3: "c3 = 0" by linarith
    let ?e = "f\<lparr>negative := \<not> negative f, digits := ds3\<rparr>"
    have "subtractDigits d other = Inr ?e" using f(1) l1 l2 l3 False c3 by (simp add: subtractDigits_def)
    moreover have "dec_wf ?e" using s3(1) ff by (simp add: dec_wf_def)
    moreover have "dval ?e + dval d = dval other" using s3(3) c3 sum by (simp add: dval_def)
    moreover have "dval d < dval other" using sum small by linarith
    ultimately show ?thesis using that [of ?e] f(3) by simp
  qed
qed

text \<open>The signed value that is left when the digits above the array are dropped.\<close>

definition keep64 :: "int \<Rightarrow> int" where
  "keep64 x = sgn x * (\<bar>x\<bar> mod 10 ^ 64)"

lemma keep64_id [simp]: "\<bar>x\<bar> < 10 ^ 64 \<Longrightarrow> keep64 x = x"
  by (simp add: keep64_def sgn_mult_abs)

lemma keep64_uminus: "keep64 (- x) = - keep64 x"
  by (simp add: keep64_def)

lemma keep64_nat: "keep64 (int n) = int (n mod 10 ^ 64)"
  by (cases "n = 0") (simp_all add: keep64_def zmod_int)

lemma abs_sval: "\<bar>sval d\<bar> = int (dval d)"
  by (simp add: sval_def)

lemma abs_sval_less: "dec_wf d \<Longrightarrow> \<bar>sval d\<bar> < 10 ^ 64"
  using dval_less_max [of d] by (simp add: abs_sval)

section \<open>Signed addition and subtraction\<close>

lemma sval_sum_same:
  assumes "negative e = negative d" "dval e = n mod 10 ^ 64"
  shows "sval e = keep64 (if negative d then - int n else int n)"
  using assms by (simp add: sval_def keep64_nat keep64_uminus)

lemma sval_difference:
  assumes wf: "dec_wf d" "dec_wf other"
    and e: "negative e = (if dval d < dval other then \<not> negative d else negative d)"
      "int (dval e) = \<bar>int (dval d) - int (dval other)\<bar>"
  shows "sval e = keep64 (if negative d then int (dval other) - int (dval d) else int (dval d) - int (dval other))"
proof -
  have "\<bar>int (dval d) - int (dval other)\<bar> < 10 ^ 64"
    using abs_sval_less [OF wf(1)] abs_sval_less [OF wf(2)] by (simp add: abs_sval)
  then show ?thesis using e by (auto simp: sval_def abs_minus_commute)
qed

text \<open>
  \<^verbatim>\<open>Decimal::add\<close> on well-formed decimals returns (no write leaves the digit array and its
  internal assertion never fires), keeps the invariant, and its value is the exact signed sum; a
  sum that needs more than the 64 digits loses the digits above the array and nothing else.
\<close>

lemma add_dec_spec:
  assumes "dec_wf d" "dec_wf other"
  shows "\<exists>e. add_dec d other = Inr e \<and> dec_wf e \<and> sval e = keep64 (sval d + sval other)"
proof (cases "negative d = negative other")
  case True
  obtain e where "addDigits d other = Inr e" "dec_wf e" "negative e = negative d"
    "dval e = (dval d + dval other) mod 10 ^ 64"
    using addDigits_spec [OF assms] by blast
  with True sval_sum_same [of e d "dval d + dval other"] show ?thesis
    by (auto simp: add_dec_def sval_def)
next
  case False
  obtain e where "subtractDigits d other = Inr e" "dec_wf e"
    "negative e = (if dval d < dval other then \<not> negative d else negative d)"
    "int (dval e) = \<bar>int (dval d) - int (dval other)\<bar>"
    using subtractDigits_spec [OF assms] by blast
  with False sval_difference [OF assms] show ?thesis
    by (auto simp: add_dec_def sval_def)
qed

text \<open>
  \<^verbatim>\<open>Decimal::subtract\<close> is the exact signed difference, under the same conditions as addition.
\<close>

lemma subtract_dec_spec:
  assumes "dec_wf d" "dec_wf other"
  shows "\<exists>e. subtract_dec d other = Inr e \<and> dec_wf e \<and> sval e = keep64 (sval d - sval other)"
proof (cases "negative d = negative other")
  case False
  obtain e where "addDigits d other = Inr e" "dec_wf e" "negative e = negative d"
    "dval e = (dval d + dval other) mod 10 ^ 64"
    using addDigits_spec [OF assms] by blast
  with False sval_sum_same [of e d "dval d + dval other"] show ?thesis
    by (auto simp: subtract_dec_def sval_def)
next
  case True
  obtain e where "subtractDigits d other = Inr e" "dec_wf e"
    "negative e = (if dval d < dval other then \<not> negative d else negative d)"
    "int (dval e) = \<bar>int (dval d) - int (dval other)\<bar>"
    using subtractDigits_spec [OF assms] by blast
  with True sval_difference [OF assms] show ?thesis
    by (auto simp: subtract_dec_def sval_def)
qed

end
