(* ===== verification/Nbcd_Compare.thy ===== *)
theory Nbcd_Compare
  imports Nbcd_AddSub
begin

text \<open>
  \<^verbatim>\<open>Decimal::clip\<close>, which finds the significant digits, and the comparisons built on it.
\<close>

section \<open>Clipping\<close>

lemma clip_lo_spec:
  "lo \<le> clip_lo ds lo hi \<and> (lo \<le> hi \<longrightarrow> clip_lo ds lo hi \<le> hi) \<and> (hi \<le> lo \<longrightarrow> clip_lo ds lo hi = lo) \<and>
   (\<forall>k. lo \<le> k \<and> k < clip_lo ds lo hi \<longrightarrow> ds ! nat k = 0) \<and>
   (clip_lo ds lo hi < hi \<longrightarrow> ds ! nat (clip_lo ds lo hi) \<noteq> 0)"
proof (induction ds lo hi rule: clip_lo.induct)
  case (1 ds lo hi)
  show ?case
  proof (cases "lo < hi \<and> ds ! nat lo = 0")
    case True
    have "\<forall>k. lo \<le> k \<and> k < r \<longrightarrow> ds ! nat k = 0" if "\<forall>k. lo + 1 \<le> k \<and> k < r \<longrightarrow> ds ! nat k = 0" for r
      using that True by (metis le_less zless_imp_add1_zle)
    with 1 [OF True] True show ?thesis by (subst (1 2 3 4 5 6) clip_lo.simps) auto
  next
    case False
    then show ?thesis by (subst (1 2 3 4 5 6) clip_lo.simps) auto
  qed
qed

lemma clip_hi_spec:
  "clip_hi ds lo hi \<le> hi \<and> (lo \<le> hi \<longrightarrow> lo - 1 \<le> clip_hi ds lo hi) \<and> (hi < lo \<longrightarrow> clip_hi ds lo hi = hi) \<and>
   (\<forall>k. clip_hi ds lo hi < k \<and> k \<le> hi \<longrightarrow> ds ! nat k = 0) \<and>
   (lo \<le> clip_hi ds lo hi \<longrightarrow> ds ! nat (clip_hi ds lo hi) \<noteq> 0)"
proof (induction ds lo hi rule: clip_hi.induct)
  case (1 ds lo hi)
  show ?case
  proof (cases "lo \<le> hi \<and> ds ! nat hi = 0")
    case True
    have "\<forall>k. r < k \<and> k \<le> hi \<longrightarrow> ds ! nat k = 0" if "\<forall>k. r < k \<and> k \<le> hi - 1 \<longrightarrow> ds ! nat k = 0" for r
      using that True by (metis le_less zle_diff1_eq)
    with 1 [OF True] True show ?thesis by (subst (1 2 3 4 5 6) clip_hi.simps) auto
  next
    case False
    then show ?thesis by (subst (1 2 3 4 5 6) clip_hi.simps) auto
  qed
qed

lemma clip_range_bounds:
  assumes "clip d = (lo, hi)"
  shows "int (lsb d) \<le> lo" "lo \<le> max (int (lsb d)) (int (msb d))" "hi \<le> int (msb d)" "-1 \<le> hi"
proof -
  let ?lo = "clip_lo (digits d) (int (lsb d)) (int (msb d))"
  have lo: "lo = ?lo" and hi: "hi = clip_hi (digits d) lo (int (msb d))"
    using assms by (auto simp: clip_def Let_def)
  note l = clip_lo_spec [of "int (lsb d)" "digits d" "int (msb d)", folded lo]
  note h = clip_hi_spec [of "digits d" lo "int (msb d)", folded hi]
  show "int (lsb d) \<le> lo" "hi \<le> int (msb d)" using l h by blast+
  show "lo \<le> max (int (lsb d)) (int (msb d))"
    using l by (cases "int (lsb d) \<le> int (msb d)") (simp_all add: max_def)
  show "-1 \<le> hi"
    using l h by (cases "lo \<le> int (msb d)") auto
qed

lemma clip_nonempty:
  assumes "clip d = (lo, hi)" "lo \<le> hi"
  shows "0 \<le> lo" "int (lsb d) \<le> lo" "hi \<le> int (msb d)" "digits d ! nat lo \<noteq> 0" "digits d ! nat hi \<noteq> 0"
    "dval d = seg10 (digits d) (nat lo) (Suc (nat hi))" "dval d \<noteq> 0"
proof -
  let ?lo = "clip_lo (digits d) (int (lsb d)) (int (msb d))"
  have lo: "lo = ?lo" and hi: "hi = clip_hi (digits d) lo (int (msb d))"
    using assms(1) by (auto simp: clip_def Let_def)
  note l = clip_lo_spec [of "int (lsb d)" "digits d" "int (msb d)", folded lo]
  note h = clip_hi_spec [of "digits d" lo "int (msb d)", folded hi]
  show lo0: "0 \<le> lo" and a: "int (lsb d) \<le> lo" and b: "hi \<le> int (msb d)" using l h by auto
  show nzh: "digits d ! nat hi \<noteq> 0" using h assms(2) by blast
  show nzl: "digits d ! nat lo \<noteq> 0"
  proof (cases "lo < int (msb d)")
    case True
    then show ?thesis using l by blast
  next
    case False
    then have "lo = hi" using assms(2) b by simp
    then show ?thesis using nzh by simp
  qed
  have "seg10 (digits d) (lsb d) (nat lo) = 0"
    using l by (intro seg10_zero) (metis nat_int of_nat_le_iff int_nat_eq lo0 of_nat_less_iff)
  moreover have "seg10 (digits d) (Suc (nat hi)) (Suc (msb d)) = 0"
  proof (rule seg10_zero)
    fix i assume "Suc (nat hi) \<le> i" "i < Suc (msb d)"
    then have "hi < int i \<and> int i \<le> int (msb d)" using assms(2) lo0 by linarith
    then show "digits d ! i = 0" using h by (metis nat_int)
  qed
  moreover have "dval d = seg10 (digits d) (lsb d) (nat lo) + seg10 (digits d) (nat lo) (Suc (msb d))"
    unfolding dval_def using a b lo0 assms(2) by (intro seg10_split) linarith+
  moreover have "seg10 (digits d) (nat lo) (Suc (msb d)) =
      seg10 (digits d) (nat lo) (Suc (nat hi)) + seg10 (digits d) (Suc (nat hi)) (Suc (msb d))"
    using a b lo0 assms(2) by (intro seg10_split) linarith+
  ultimately show v: "dval d = seg10 (digits d) (nat lo) (Suc (nat hi))" by simp
  have "10 ^ nat hi \<le> seg10 (digits d) (nat lo) (Suc (nat hi))"
    using nzh assms(2) lo0 by (intro seg10_lead) simp_all
  moreover have "(0::nat) < 10 ^ nat hi" by simp
  ultimately show "dval d \<noteq> 0" using v by linarith
qed

lemma clip_empty:
  assumes "clip d = (lo, hi)" "hi < lo"
  shows "dval d = 0"
proof -
  let ?lo = "clip_lo (digits d) (int (lsb d)) (int (msb d))"
  have lo: "lo = ?lo" and hi: "hi = clip_hi (digits d) lo (int (msb d))"
    using assms(1) by (auto simp: clip_def Let_def)
  note l = clip_lo_spec [of "int (lsb d)" "digits d" "int (msb d)", folded lo]
  note h = clip_hi_spec [of "digits d" lo "int (msb d)", folded hi]
  have "digits d ! i = 0" if "lsb d \<le> i" "i < Suc (msb d)" for i
  proof (cases "int i < lo")
    case True
    then show ?thesis using l that(1) by (metis nat_int of_nat_le_iff)
  next
    case False
    then have "hi < int i \<and> int i \<le> int (msb d)" using assms(2) that by simp
    then show ?thesis using h by (metis nat_int)
  qed
  then show ?thesis unfolding dval_def by (rule seg10_zero)
qed

lemma clip_iff_zero: "clip d = (lo, hi) \<Longrightarrow> hi < lo \<longleftrightarrow> dval d = 0"
  using clip_empty clip_nonempty(7) by (metis not_less)

section \<open>Comparison\<close>

lemma compare_loop_spec:
  "compare_loop ds os neg hi limit = None \<Longrightarrow> limit \<le> k \<Longrightarrow> k \<le> hi \<Longrightarrow> ds ! nat k = os ! nat k"
  "compare_loop ds os neg hi limit = Some r \<Longrightarrow>
     \<exists>k. limit \<le> k \<and> k \<le> hi \<and> ds ! nat k \<noteq> os ! nat k \<and>
         (\<forall>j. k < j \<and> j \<le> hi \<longrightarrow> ds ! nat j = os ! nat j) \<and>
         r = (if (ds ! nat k > os ! nat k) \<noteq> neg then 1 else -1)"
proof (induction ds os neg hi limit arbitrary: k rule: compare_loop.induct)
  case (1 ds os neg hi limit)
  {
    case 1
    then show ?case using "1.IH"(1) [of _ k]
      by (cases "k = hi") (auto simp: compare_loop.simps [of ds os neg hi] Let_def split: if_splits)
  next
    case 2
    show ?case
    proof (cases "ds ! nat hi = os ! nat hi")
      case True
      with 2 have le: "limit \<le> hi" and rec: "compare_loop ds os neg (hi - 1) limit = Some r"
        by (auto simp: compare_loop.simps [of ds os neg hi] Let_def split: if_splits)
      from "1.IH"(2) [OF le refl _ rec] True obtain k where
        k: "limit \<le> k" "k \<le> hi - 1" "ds ! nat k \<noteq> os ! nat k"
        "\<forall>j. k < j \<and> j \<le> hi - 1 \<longrightarrow> ds ! nat j = os ! nat j"
        "r = (if (ds ! nat k > os ! nat k) \<noteq> neg then 1 else -1)" by auto
      have "ds ! nat j = os ! nat j" if "k < j" "j \<le> hi" for j
        using k(4) True that by (cases "j = hi") auto
      with k show ?thesis by (intro exI [of _ k]) auto
    next
      case False
      with 2 show ?thesis
        by (intro exI [of _ hi]) (auto simp: compare_loop.simps [of ds os neg hi] Let_def split: if_splits)
    qed
  }
qed

text \<open>A number is decided by its leading difference to another one.\<close>

lemma seg10_lead_less:
  assumes "a \<le> Suc k" "b \<le> k" "k < h" "\<And>i. i < k \<Longrightarrow> ds ! i \<le> 9" "ds ! k < os ! k"
    and "\<And>i. k < i \<Longrightarrow> i < h \<Longrightarrow> ds ! i = os ! i"
  shows "seg10 ds a h < seg10 os b h"
proof -
  have top: "seg10 ds (Suc k) h = seg10 os (Suc k) h" using assms(6) by (intro seg10_cong) simp
  have "seg10 os b h = seg10 os b k + os ! k * 10 ^ k + seg10 os (Suc k) h"
    using assms(2,3) seg10_split [of b k h os] seg10_head [of k h os] by simp
  moreover have "seg10 ds a h < Suc (ds ! k) * 10 ^ k + seg10 ds (Suc k) h"
  proof (cases "a = Suc k")
    case True
    then show ?thesis by simp
  next
    case False
    then have "seg10 ds a h = seg10 ds a k + ds ! k * 10 ^ k + seg10 ds (Suc k) h"
      using assms(1,3) seg10_split [of a k h ds] seg10_head [of k h ds] by simp
    moreover have "seg10 ds a k < 10 ^ k" using assms(4) by (intro seg10_less) simp
    ultimately show ?thesis by simp
  qed
  moreover have "Suc (ds ! k) * 10 ^ k \<le> os ! k * 10 ^ k" using assms(5) by (intro mult_right_mono) simp_all
  ultimately show ?thesis using top by linarith
qed

lemma magnitude_less_of_high:
  assumes wf: "dec_wf d" and d: "clip d = (lo1, hi1)" "lo1 \<le> hi1" and o: "clip e = (lo2, hi2)" "lo2 \<le> hi2"
    and less: "hi1 < hi2"
  shows "dval d < dval e"
proof -
  note c1 = clip_nonempty [OF d] and c2 = clip_nonempty [OF o]
  have "dval d < 10 ^ Suc (nat hi1)"
    unfolding c1(6) using wf c1 by (intro seg10_less digits_ok_nth) (auto simp: dec_wf_def)
  moreover have "(10::nat) ^ Suc (nat hi1) \<le> 10 ^ nat hi2"
    using less c1(1) d(2) by (intro power_increasing) auto
  moreover have "10 ^ nat hi2 \<le> dval e"
    unfolding c2(6) using c2 o(2) by (intro seg10_lead) auto
  ultimately show ?thesis by linarith
qed

definition flip :: "bool \<Rightarrow> int \<Rightarrow> int" where
  "flip neg r = (if neg then - r else r)"

lemma sval_flip: "sval d = flip (negative d) (int (dval d))"
  by (simp add: sval_def flip_def)

lemma sgn_diff_less: "x < y \<Longrightarrow> sgn (int x - int y) = -1" "y < x \<Longrightarrow> sgn (int x - int y) = 1"
  by simp_all

lemma compare_same_high:
  assumes wf: "dec_wf d" "dec_wf e" and d: "clip d = (lo1, hi)" "lo1 \<le> hi" and o: "clip e = (lo2, hi)" "lo2 \<le> hi"
  shows "(case compare_loop (digits d) (digits e) neg hi (if lo1 < lo2 then lo2 else lo1) of
            Some r \<Rightarrow> r
          | None \<Rightarrow> if lo1 = lo2 then 0 else if lo1 < lo2 then (if neg then -1 else 1)
                    else (if neg then 1 else -1)) = flip neg (sgn (int (dval d) - int (dval e)))"
    (is "(case ?cl of Some r \<Rightarrow> r | None \<Rightarrow> ?tail) = _")
proof -
  note c1 = clip_nonempty [OF d] and c2 = clip_nonempty [OF o]
  let ?lim = "if lo1 < lo2 then lo2 else lo1"
  have ok: "i < 64 \<Longrightarrow> digits d ! i \<le> 9" "i < 64 \<Longrightarrow> digits e ! i \<le> 9" for i
    using wf by (simp_all add: dec_wf_def digits_ok_nth)
  have h64: "nat hi < 64" using c1(1,3) d(2) wf(1) dec_wfD(2) [OF wf(1)] by linarith
  show ?thesis
  proof (cases ?cl)
    case None
    have agree: "digits d ! i = digits e ! i" if "nat ?lim \<le> i" "i < Suc (nat hi)" for i
      using compare_loop_spec(1) [OF None, of "int i"] that c1(1) c2(1) d(2) by (auto split: if_splits)
    consider "lo1 = lo2" | "lo1 < lo2" | "lo2 < lo1" by linarith
    then show ?thesis
    proof cases
      case 1
      then have "dval d = dval e" unfolding c1(6) c2(6) using agree by (auto intro!: seg10_cong)
      with None 1 show ?thesis by (simp add: flip_def)
    next
      case 2
      have "seg10 (digits d) (nat lo1) (Suc (nat hi)) =
          seg10 (digits d) (nat lo1) (nat lo2) + seg10 (digits d) (nat lo2) (Suc (nat hi))"
        using 2 o(2) by (intro seg10_split) auto
      moreover have "10 ^ nat lo1 \<le> seg10 (digits d) (nat lo1) (nat lo2)"
        using 2 c1(1,4) by (intro seg10_lead) auto
      moreover have "(0::nat) < 10 ^ nat lo1" by simp
      moreover have "seg10 (digits d) (nat lo2) (Suc (nat hi)) = dval e"
        unfolding c2(6) using agree 2 by (auto intro!: seg10_cong)
      ultimately have "dval e < dval d" unfolding c1(6) by linarith
      with None 2 show ?thesis by (simp add: flip_def)
    next
      case 3
      have "seg10 (digits e) (nat lo2) (Suc (nat hi)) =
          seg10 (digits e) (nat lo2) (nat lo1) + seg10 (digits e) (nat lo1) (Suc (nat hi))"
        using 3 d(2) by (intro seg10_split) auto
      moreover have "10 ^ nat lo2 \<le> seg10 (digits e) (nat lo2) (nat lo1)"
        using 3 c2(1,4) by (intro seg10_lead) auto
      moreover have "(0::nat) < 10 ^ nat lo2" by simp
      moreover have "seg10 (digits e) (nat lo1) (Suc (nat hi)) = dval d"
        unfolding c1(6) using agree 3 by (auto intro!: seg10_cong)
      ultimately have "dval d < dval e" unfolding c2(6) by linarith
      with None 3 show ?thesis by (simp add: flip_def)
    qed
  next
    case (Some r)
    from compare_loop_spec(2) [OF Some] obtain k where k: "?lim \<le> k" "k \<le> hi"
      "digits d ! nat k \<noteq> digits e ! nat k"
      "\<forall>j. k < j \<and> j \<le> hi \<longrightarrow> digits d ! nat j = digits e ! nat j"
      "r = (if (digits d ! nat k > digits e ! nat k) \<noteq> neg then 1 else -1)" by blast
    have k0: "0 \<le> k" "nat lo1 \<le> nat k" "nat lo2 \<le> nat k" "nat k < Suc (nat hi)" "nat k < 64"
      using k(1,2) c1(1) c2(1) h64 by (auto split: if_splits)
    have above: "digits d ! i = digits e ! i" if "nat k < i" "i < Suc (nat hi)" for i
      using k(4) [rule_format, of "int i"] that k0(1) d(2) c1(1) by (simp add: nat_less_iff)
    show ?thesis
    proof (cases "digits d ! nat k < digits e ! nat k")
      case True
      then have "dval d < dval e" unfolding c1(6) c2(6)
        using k0 ok above by (intro seg10_lead_less [of _ "nat k"]) auto
      with Some True k(5) show ?thesis by (simp add: flip_def)
    next
      case False
      with k(3) have "digits e ! nat k < digits d ! nat k" by simp
      then have "dval e < dval d" unfolding c1(6) c2(6)
        using k0 ok above by (intro seg10_lead_less [of _ "nat k"]) auto
      with Some False k(3,5) show ?thesis by (simp add: flip_def)
    qed
  qed
qed

text \<open>
  \<^verbatim>\<open>Decimal::compare\<close> returns the sign of the difference of the two values, whatever the two
  representations are (leading and trailing zeros, a negative zero, digits left over outside the
  significant range).
\<close>

lemma compare_dec_spec:
  assumes wf: "dec_wf d" "dec_wf other"
  shows "compare_dec d other = sgn (sval d - sval other)"
proof -
  obtain lo1 hi1 where d: "clip d = (lo1, hi1)" by fastforce
  obtain lo2 hi2 where o: "clip other = (lo2, hi2)" by fastforce
  note z = clip_iff_zero [OF d] clip_iff_zero [OF o]
  show ?thesis
  proof (cases "dval d = 0 \<or> dval other = 0 \<or> negative d \<noteq> negative other")
    case True
    then show ?thesis using d o z
      by (auto simp: compare_dec_def sval_def)
  next
    case False
    then have ne: "lo1 \<le> hi1" "lo2 \<le> hi2" and s: "negative other = negative d" using z by auto
    have eq: "sgn (sval d - sval other) = flip (negative d) (sgn (int (dval d) - int (dval other)))"
      unfolding sval_flip s by (auto simp: flip_def sgn_if)
    show ?thesis
    proof (cases "hi1 = hi2")
      case True
      with compare_same_high [OF wf, of lo1 hi1 lo2 "negative d"] d o ne s eq show ?thesis
        by (simp add: compare_dec_def)
    next
      case False
      then show ?thesis
        using magnitude_less_of_high [OF wf(1) d ne(1) o ne(2)]
          magnitude_less_of_high [OF wf(2) o ne(2) d ne(1)] d o ne s eq
        by (cases "hi1 < hi2") (auto simp: compare_dec_def flip_def)
    qed
  qed
qed

lemma compareNull_loop_spec:
  "compareNull_loop ds neg i h = (if seg10 ds i (Suc h) = 0 then 0 else flip neg 1)"
proof (induction ds neg i h rule: compareNull_loop.induct)
  case (1 ds neg i h)
  then show ?case
    by (cases "i \<le> h") (auto simp: compareNull_loop.simps [of ds neg i h] seg10_head flip_def)
qed

lemma compareNull_sgn: "compareNull d = sgn (sval d)"
  by (auto simp: compareNull_def compareNull_loop_spec sval_flip dval_def flip_def)

lemma isZero_iff: "isZero d \<longleftrightarrow> sval d = 0"
proof -
  obtain lo hi where c: "clip d = (lo, hi)" by fastforce
  then show ?thesis using clip_iff_zero [OF c] by (simp add: isZero_def sval_def)
qed

end
