(* ===== verification/Nbcd_Mul.thy ===== *)
theory Nbcd_Mul
  imports Nbcd_Compare
begin

text \<open>
  Correctness of \<^verbatim>\<open>Decimal::multiply\<close>: the column sums are the product, the columns below the
  last decimal place are rounded half up, the ones above the array are dropped.
\<close>

section \<open>The column sums\<close>

lemma mul_row_spec:
  "0 \<le> i \<Longrightarrow> i < 64 \<Longrightarrow> 0 \<le> j \<Longrightarrow> high2 < 64 \<Longrightarrow> nxt \<le> 9 \<Longrightarrow> length temp = 128 \<Longrightarrow>
   (\<forall>k < 64. d2 ! k \<le> 9) \<Longrightarrow> M \<le> 10000 \<Longrightarrow>
   (\<forall>k < 128. temp ! k \<le> M + (if k < nat (i + j) then 81 else 0)) \<Longrightarrow>
   l \<le> nat (i + j) \<Longrightarrow> i + high2 < int b \<Longrightarrow> b \<le> 128 \<Longrightarrow>
   length (mul_row temp d2 nxt i j high2) = 128 \<and>
   (\<forall>k < 128. mul_row temp d2 nxt i j high2 ! k \<le> M + 81) \<and>
   seg10 (mul_row temp d2 nxt i j high2) l b =
     seg10 temp l b + nxt * 10 ^ nat i * seg10 d2 (nat j) (nat (high2 + 1))"
proof (induction temp d2 nxt i j high2 rule: mul_row.induct)
  case (1 temp d2 nxt i j high2)
  show ?case
  proof (cases "j \<le> high2")
    case False
    have "temp ! k \<le> M + 81" if "k < 128" for k
      using "1.prems"(9) that by (cases "k < nat (i + j)") force+
    with False "1.prems" show ?thesis by (simp add: mul_row.simps [of temp])
  next
    case True
    let ?p = "nat (i + j)" and ?v = "nxt * d2 ! nat j"
    have p: "?p < 128" "?p < b" "nat j < 64" "nat (j + 1) = Suc (nat j)" "nat (i + (j + 1)) = Suc ?p"
      using "1.prems" True by auto
    have "nxt * d2 ! nat j \<le> 9 * 9" using "1.prems" p by (intro mult_le_mono) auto
    then have v: "?v \<le> 81" by simp
    have tp: "temp ! ?p \<le> M" using "1.prems"(9) p(1) by auto
    then have m: "(temp ! ?p + ?v) mod 2 ^ 32 = temp ! ?p + ?v" using v "1.prems"(8) by simp
    let ?t = "temp[?p := temp ! ?p + ?v]"
    have bound: "?t ! k \<le> M + (if k < nat (i + (j + 1)) then 81 else 0)" if "k < 128" for k
      using "1.prems"(6,9) that tp v p(1,5) by (cases "k = ?p") (auto simp: less_Suc_eq)
    have "seg10 ?t l b = seg10 temp l b + ?v * 10 ^ ?p"
      using seg10_update [of l ?p b temp "temp ! ?p + ?v"] "1.prems" p by (simp add: distrib_right)
    moreover have "?v * 10 ^ ?p = nxt * 10 ^ nat i * (d2 ! nat j * 10 ^ nat j)"
      using "1.prems" by (simp add: nat_add_distrib power_add)
    moreover have "seg10 d2 (nat j) (nat (high2 + 1)) = d2 ! nat j * 10 ^ nat j + seg10 d2 (Suc (nat j)) (nat (high2 + 1))"
      using True "1.prems" by (intro seg10_head) simp
    moreover have "length (mul_row ?t d2 nxt i (j + 1) high2) = 128 \<and>
        (\<forall>k < 128. mul_row ?t d2 nxt i (j + 1) high2 ! k \<le> M + 81) \<and>
        seg10 (mul_row ?t d2 nxt i (j + 1) high2) l b =
          seg10 ?t l b + nxt * 10 ^ nat i * seg10 d2 (nat (j + 1)) (nat (high2 + 1))"
      using "1.prems"(1-8,10-) bound p(5) by (intro "1.IH" [OF True, unfolded m]) simp_all
    moreover have "mul_row temp d2 nxt i j high2 = mul_row ?t d2 nxt i (j + 1) high2"
      using True m by (simp add: mul_row.simps [of temp])
    ultimately show ?thesis using p(4) by (simp add: distrib_left)
  qed
qed

lemma mul_rows_spec:
  "0 \<le> i \<Longrightarrow> high1 < 64 \<Longrightarrow> 0 \<le> low2 \<Longrightarrow> high2 < 64 \<Longrightarrow> length temp = 128 \<Longrightarrow>
   (\<forall>k < 64. d1 ! k \<le> 9) \<Longrightarrow> (\<forall>k < 64. d2 ! k \<le> 9) \<Longrightarrow>
   (\<forall>k < 128. temp ! k \<le> 81 * nat i) \<Longrightarrow>
   l \<le> nat (i + low2) \<Longrightarrow> high1 + high2 < int b \<Longrightarrow> b \<le> 128 \<Longrightarrow>
   length (mul_rows temp d1 d2 i high1 low2 high2) = 128 \<and>
   seg10 (mul_rows temp d1 d2 i high1 low2 high2) l b =
     seg10 temp l b + seg10 d1 (nat i) (nat (high1 + 1)) * seg10 d2 (nat low2) (nat (high2 + 1))"
proof (induction temp d1 d2 i high1 low2 high2 rule: mul_rows.induct)
  case (1 temp d1 d2 i high1 low2 high2)
  show ?case
  proof (cases "i \<le> high1")
    case False
    with "1.prems" show ?thesis by (simp add: mul_rows.simps [of temp])
  next
    case True
    let ?n = "d1 ! nat i"
    let ?t = "if ?n \<noteq> 0 then mul_row temp d2 ?n i low2 high2 else temp"
    have i64: "i < 64" "nat i < 64" "nat (i + 1) = Suc (nat i)" using True "1.prems" by auto
    have n9: "?n \<le> 9" using "1.prems"(6) i64 by simp
    have row: "length (mul_row temp d2 ?n i low2 high2) = 128 \<and>
      (\<forall>k < 128. mul_row temp d2 ?n i low2 high2 ! k \<le> 81 * nat i + 81) \<and>
      seg10 (mul_row temp d2 ?n i low2 high2) l b =
        seg10 temp l b + ?n * 10 ^ nat i * seg10 d2 (nat low2) (nat (high2 + 1))"
      using "1.prems" i64 n9 True by (intro mul_row_spec) auto
    have t: "length ?t = 128" "\<forall>k < 128. ?t ! k \<le> 81 * nat (i + 1)"
      "seg10 ?t l b = seg10 temp l b + ?n * 10 ^ nat i * seg10 d2 (nat low2) (nat (high2 + 1))"
      using row "1.prems"(5,8) i64(3) by (auto intro: le_trans)
    have "seg10 d1 (nat i) (nat (high1 + 1)) = ?n * 10 ^ nat i + seg10 d1 (nat (i + 1)) (nat (high1 + 1))"
      unfolding i64(3) using True "1.prems" by (intro seg10_head) simp
    moreover have "mul_rows temp d1 d2 i high1 low2 high2 = mul_rows ?t d1 d2 (i + 1) high1 low2 high2"
      using True by (simp add: mul_rows.simps [of temp] Let_def)
    moreover have "length (mul_rows ?t d1 d2 (i + 1) high1 low2 high2) = 128 \<and>
        seg10 (mul_rows ?t d1 d2 (i + 1) high1 low2 high2) l b = seg10 ?t l b +
        seg10 d1 (nat (i + 1)) (nat (high1 + 1)) * seg10 d2 (nat low2) (nat (high2 + 1))"
      using "1.prems"(1-4,6,7,9-) t(1,2) by (intro "1.IH" [OF True refl]) simp_all
    ultimately show ?thesis using t(3) by (simp add: distrib_right)
  qed
qed

section \<open>The carries\<close>

lemma mul_round_spec:
  "j < 0 \<Longrightarrow> 0 \<le> j + 32 \<Longrightarrow>
   mul_round temp j 0 c = (seg10 temp (nat (j + 32)) 32 + c * 10 ^ nat (j + 32) + 5 * 10 ^ 31) div 10 ^ 32"
proof (induction "nat (- j)" arbitrary: j c)
  case 0
  then show ?case by simp
next
  case (Suc n)
  let ?k = "nat (j + 32)"
  let ?t = "temp ! ?k + c"
  have k: "?k < 32" "nat (j + 1 + 32) = Suc ?k" using Suc.prems by auto
  have seg: "seg10 temp ?k 32 = temp ! ?k * 10 ^ ?k + seg10 temp (Suc ?k) 32" using k by (simp add: seg10_head)
  show ?case
  proof (cases "j = -1")
    case True
    have "(?t + 5) div 10 = (?t * 10 ^ 31 + 5 * 10 ^ 31) div 10 ^ 32"
      using div_mult_mult2 [of "10 ^ 31" "?t + 5" 10] by (simp add: distrib_right)
    moreover have "mul_round temp 0 0 x = x" for x by (simp add: mul_round.simps [of temp 0])
    moreover have "mul_round temp (-1) 0 c = mul_round temp 0 0 ((temp ! 31 + c + 5) div 10)"
      by (subst mul_round.simps) (simp add: Let_def)
    ultimately show ?thesis using True seg by (simp add: distrib_right)
  next
    case False
    let ?y = "?t div 10 * 10 ^ Suc ?k + seg10 temp (Suc ?k) 32 + 5 * 10 ^ 31"
    have le: "Suc ?k \<le> 31" using False Suc.prems by auto
    have "mul_round temp j 0 c = mul_round temp (j + 1) 0 (?t div 10)"
      using False Suc.prems by (simp add: mul_round.simps [of temp j] Let_def)
    also have "\<dots> = ?y div 10 ^ 32"
      using Suc.hyps(1) [of "j + 1" "?t div 10"] Suc.hyps(2) Suc.prems False k(2) by (simp add: ac_simps)
    also have "\<dots> = (?y + ?t mod 10 * 10 ^ ?k) div (10 ^ Suc ?k * 10 ^ (32 - Suc ?k))"
    proof -
      have "(10::nat) ^ Suc ?k dvd 5 * 10 ^ 31" using le by (intro dvd_mult le_imp_power_dvd)
      then have "10 ^ Suc ?k dvd ?y"
        by (intro dvd_add) (simp_all add: seg10_dvd del: power_Suc)
      moreover have "?t mod 10 * 10 ^ ?k < 10 ^ Suc ?k" by simp
      moreover have "10 ^ Suc ?k * 10 ^ (32 - Suc ?k) = (10::nat) ^ 32"
        using k(1) by (subst power_add [symmetric]) simp
      ultimately show ?thesis using div_drop_rest by metis
    qed
    also have "10 ^ Suc ?k * 10 ^ (32 - Suc ?k) = (10::nat) ^ 32"
      using k(1) by (subst power_add [symmetric]) simp
    also have "?y + ?t mod 10 * 10 ^ ?k = seg10 temp ?k 32 + c * 10 ^ ?k + 5 * 10 ^ 31"
      using divmod10_scale [of ?t ?k] seg by (simp add: distrib_right)
    finally show ?thesis .
  qed
qed

lemma mul_copy_spec:
  "mul_copy temp ds j hight c = (ds', c') \<Longrightarrow> 0 \<le> j \<Longrightarrow> j \<le> hight + 1 \<Longrightarrow> hight < 64 \<Longrightarrow>
   length temp = 128 \<Longrightarrow> digits_ok ds \<Longrightarrow>
   digits_ok ds' \<and> (\<forall>k < nat j. ds' ! k = ds ! k) \<and>
   seg10 ds' (nat j) (nat (hight + 1)) + c' * 10 ^ nat (hight + 1) =
     seg10 (drop 32 temp) (nat j) (nat (hight + 1)) + c * 10 ^ nat j"
proof (induction temp ds j hight c rule: mul_copy.induct)
  case (1 temp ds j hight c)
  show ?case
  proof (cases "j \<le> hight")
    case False
    then have "nat j = nat (hight + 1)" using "1.prems" by simp
    moreover have "ds' = ds" "c' = c" using "1.prems"(1) False by (simp_all add: mul_copy.simps [of temp ds j])
    ultimately show ?thesis using "1.prems" by simp
  next
    case True
    let ?t = "temp ! nat (j + 32) + c"
    let ?ds = "ds[nat j := ?t mod 10]"
    have j: "nat (j + 1) = Suc (nat j)" "nat j < 64" "nat j < nat (hight + 1)" using "1.prems" True by auto
    have "mul_copy temp ?ds (j + 1) hight (?t div 10) = (ds', c')"
      using "1.prems"(1) True by (simp add: mul_copy.simps [of temp ds j] Let_def)
    moreover have "digits_ok ?ds" using "1.prems" by (simp add: digits_ok_update)
    ultimately have IH: "digits_ok ds' \<and> (\<forall>k < nat (j + 1). ds' ! k = ?ds ! k) \<and>
      seg10 ds' (nat (j + 1)) (nat (hight + 1)) + c' * 10 ^ nat (hight + 1) =
        seg10 (drop 32 temp) (nat (j + 1)) (nat (hight + 1)) + ?t div 10 * 10 ^ nat (j + 1)"
      using "1.prems" True by (intro "1.IH") simp_all
    have dj: "ds' ! nat j = ?t mod 10" using IH j "1.prems" by (simp add: digits_ok_length)
    have tj: "drop 32 temp ! nat j = temp ! nat (j + 32)" using "1.prems" by (simp add: nat_add_distrib add.commute)
    have "seg10 ds' (nat j) (nat (hight + 1)) = ?t mod 10 * 10 ^ nat j + seg10 ds' (nat (j + 1)) (nat (hight + 1))"
      "seg10 (drop 32 temp) (nat j) (nat (hight + 1)) =
        temp ! nat (j + 32) * 10 ^ nat j + seg10 (drop 32 temp) (nat (j + 1)) (nat (hight + 1))"
      using seg10_head [OF j(3)] dj tj j(1) by simp_all
    then have "seg10 ds' (nat j) (nat (hight + 1)) + c' * 10 ^ nat (hight + 1) =
        seg10 (drop 32 temp) (nat j) (nat (hight + 1)) + c * 10 ^ nat j"
      using IH divmod10_scale [of ?t "nat j"] j(1) by (simp add: distrib_right del: power_Suc)
    with IH j(1) show ?thesis by auto
  qed
qed

lemma mul_spill_spec:
  "mul_spill ds h c = (ds', h') \<Longrightarrow> -1 \<le> h \<Longrightarrow> h < 64 \<Longrightarrow> digits_ok ds \<Longrightarrow>
   int a \<le> h + 1 \<or> c = 0 \<or> h = 63 \<Longrightarrow>
   digits_ok ds' \<and> h \<le> h' \<and> h' < 64 \<and>
   seg10 ds' a (nat (h' + 1)) = (seg10 ds a (nat (h + 1)) + c * 10 ^ nat (h + 1)) mod 10 ^ 64"
proof (induction ds h c rule: mul_spill.induct)
  case (1 ds h c)
  have less: "seg10 ds a (nat (h + 1)) < 10 ^ 64"
  proof -
    have "seg10 ds a (nat (h + 1)) < 10 ^ nat (h + 1)"
      using "1.prems" by (intro seg10_less digits_ok_nth) auto
    also have "(10::nat) ^ nat (h + 1) \<le> 10 ^ 64" using "1.prems" by (intro power_increasing) auto
    finally show ?thesis .
  qed
  show ?case
  proof (cases "h < 63 \<and> c \<noteq> 0")
    case False
    with "1.prems" have e: "ds' = ds" "h' = h" by (auto simp: mul_spill.simps [of ds h] split: if_splits)
    from False "1.prems" have "c = 0 \<or> h = 63" by auto
    with e less "1.prems" show ?thesis by auto
  next
    case True
    let ?p = "nat (h + 1)"
    let ?ds = "ds[?p := c mod 10]"
    have p: "nat (h + 1 + 1) = Suc ?p" "?p < 64" "a \<le> ?p" using True "1.prems" by auto
    have "mul_spill ?ds (h + 1) (c div 10) = (ds', h')"
      using "1.prems"(1) True by (simp add: mul_spill.simps [of ds h])
    then have IH: "digits_ok ds' \<and> h + 1 \<le> h' \<and> h' < 64 \<and>
      seg10 ds' a (nat (h' + 1)) =
        (seg10 ?ds a (nat (h + 1 + 1)) + c div 10 * 10 ^ nat (h + 1 + 1)) mod 10 ^ 64"
      using "1.prems" True p by (intro "1.IH") (auto simp: digits_ok_update)
    have "seg10 ?ds a (Suc ?p) = seg10 ds a ?p + c mod 10 * 10 ^ ?p"
      using p "1.prems" by (simp add: seg10_Suc digits_ok_length)
    then have "seg10 ?ds a (Suc ?p) + c div 10 * 10 ^ Suc ?p = seg10 ds a ?p + c * 10 ^ ?p"
      using divmod10_scale [of c ?p] by (simp del: power_Suc)
    with IH p(1) show ?thesis by simp
  qed
qed

section \<open>The product\<close>

text \<open>The nearest multiple of the last decimal place to a product of two magnitudes.\<close>

definition round32 :: "nat \<Rightarrow> nat" where
  "round32 p = (p + 5 * 10 ^ 31) div 10 ^ 32"

lemma seg10_clip:
  assumes "clip d = (lo, hi)"
  shows "seg10 (digits d) (nat lo) (nat (hi + 1)) = dval d"
proof (cases "lo \<le> hi")
  case True
  then have "nat (hi + 1) = Suc (nat hi)" using clip_nonempty(1) [OF assms] by simp
  then show ?thesis using clip_nonempty(6) [OF assms True] by simp
next
  case False
  then show ?thesis using clip_empty [OF assms] by simp
qed

text \<open>The column sums of two clipped operands, and what \<open>mul_round\<close> makes of the low ones.\<close>

lemma columns_product:
  assumes wf: "dec_wf d" "dec_wf e" and c: "clip d = (low1, high1)" "clip e = (low2, high2)"
    and b: "high1 + high2 < int b" "b \<le> 128" and l: "l \<le> nat (low1 + low2)"
    and temp: "temp = mul_rows (replicate 128 0) (digits d) (digits e) low1 high1 low2 high2"
  shows "length temp = 128" "seg10 temp l b = dval d * dval e"
proof -
  note r1 = clip_range_bounds [OF c(1)] and r2 = clip_range_bounds [OF c(2)]
  have ok: "\<forall>k < 64. digits d ! k \<le> 9" "\<forall>k < 64. digits e ! k \<le> 9" "msb d < 64" "msb e < 64"
    using wf by (simp_all add: dec_wf_def digits_ok_nth)
  have z: "seg10 (replicate 128 0) l b = 0" using b(2) by (intro seg10_zero) simp
  have "length temp = 128 \<and> seg10 temp l b = seg10 (replicate 128 0) l b +
      seg10 (digits d) (nat low1) (nat (high1 + 1)) * seg10 (digits e) (nat low2) (nat (high2 + 1))"
    unfolding temp using r1 r2 ok b l by (intro mul_rows_spec) auto
  then show "length temp = 128" "seg10 temp l b = dval d * dval e"
    using z seg10_clip [OF c(1)] seg10_clip [OF c(2)] by simp_all
qed

text \<open>Columns at or above position 64 of the result only contribute multiples of \<open>10 ^ 64\<close>.\<close>

lemma columns_round:
  assumes len: "length temp = 128" and L: "0 \<le> L" "L \<le> 128"
    and tot: "seg10 temp (nat L) 128 = p" and lowt: "lowt = (if L - 32 < 0 then 0 else L - 32)"
  shows "seg10 (drop 32 temp) (nat lowt) 96 + mul_round temp (L - 32) lowt 0 * 10 ^ nat lowt = round32 p"
proof (cases "L < 32")
  case True
  then have lt: "lowt = 0" using lowt by simp
  have "p = seg10 temp (nat L) 32 + seg10 temp 32 128"
    using tot True L by (subst seg10_split [of _ 32, symmetric]) auto
  moreover have "seg10 temp 32 128 = seg10 (drop 32 temp) 0 96 * 10 ^ 32"
    using seg10_drop [of 96 32 temp 0] len by simp
  moreover have "mul_round temp (L - 32) 0 0 = (seg10 temp (nat L) 32 + 5 * 10 ^ 31) div 10 ^ 32"
    using mul_round_spec [of "L - 32" temp 0] True L by simp
  moreover have "(x + y * 10 ^ 32 + 5 * 10 ^ 31) div 10 ^ 32 = y + (x + 5 * 10 ^ 31) div (10 ^ 32 :: nat)" for x y
    using div_mult_self1 [of "10 ^ 32" "x + 5 * 10 ^ 31" y] by (simp add: ac_simps)
  ultimately show ?thesis by (simp add: lt round32_def)
next
  case False
  then have lt: "lowt = L - 32" using lowt by simp
  have "p = seg10 (drop 32 temp) (nat lowt) 96 * 10 ^ 32"
    using seg10_drop [of 96 32 temp "nat lowt"] len tot lt False by (simp add: nat_diff_distrib)
  moreover have "mul_round temp (L - 32) lowt 0 = 0" by (simp add: mul_round.simps lt)
  ultimately show ?thesis by (simp add: round32_def)
qed

lemma multiply_tiny:
  assumes "clip d = (low1, high1)" "clip e = (low2, high2)" "high1 + high2 < 31"
  shows "multiply d e = setZero d"
  using assms by (simp add: multiply_def)

text \<open>The main path of \<open>multiply\<close>, with its intermediate results named.\<close>

lemma multiply_main:
  assumes wf: "dec_wf d" "dec_wf e" and c: "clip d = (low1, high1)" "clip e = (low2, high2)"
    and h: "31 \<le> high1 + high2"
  shows "digits_ok (digits (multiply d e))" "msb (multiply d e) < 64"
    "lsb (multiply d e) = nat (low1 + low2 - 32)"
    "dval (multiply d e) = round32 (dval d * dval e) mod 10 ^ 64"
    "negative (multiply d e) = (negative d \<noteq> negative e)"
proof -
  let ?L = "low1 + low2" and ?H = "high1 + high2"
  define lowt where "lowt = (if ?L - int zeroDigit < 0 then 0 else ?L - int zeroDigit)"
  define hight where "hight = (if ?H - int zeroDigit \<ge> int maxDigits then int maxDigits - 1
    else if ?H - int zeroDigit < 0 then 0 else ?H - int zeroDigit)"
  define temp where "temp = mul_rows (replicate (maxDigits * 2) 0) (digits d) (digits e) low1 high1 low2 high2"
  define carry where "carry = mul_round temp (?L - int zeroDigit) lowt 0"
  obtain ds1 c1 where cp: "mul_copy temp (digits d) lowt hight carry = (ds1, c1)" by fastforce
  obtain ds2 h2 where sp: "mul_spill ds1 hight c1 = (ds2, h2)" by fastforce
  note r1 = clip_range_bounds [OF c(1)] and r2 = clip_range_bounds [OF c(2)]
  have w: "digits_ok (digits d)" "msb d < 64" "msb e < 64" "lsb d \<le> 64" "lsb e \<le> 64"
    using wf by (simp_all add: dec_wf_def)
  have m: "multiply d e = d\<lparr>digits := ds2, lsb := byte lowt, msb := byte h2, negative := (negative d \<noteq> negative e)\<rparr>"
    unfolding multiply_def c Let_def prod.case
    unfolding lowt_def [symmetric] hight_def [symmetric] temp_def [symmetric] carry_def [symmetric]
    using h cp sp by simp
  have h0: "0 \<le> hight" "hight < 64" "0 \<le> lowt" "lowt \<le> 96" using h w r1 r2 by (auto simp: hight_def lowt_def)
  have L: "0 \<le> ?L" "?L \<le> 128" using r1 r2 w by auto
  have H: "?H < 128" using r1 r2 w by simp
  have len: "length temp = 128" and tot: "seg10 temp (nat ?L) 128 = dval d * dval e"
    using columns_product [OF wf c, of 128 "nat ?L" temp] H temp_def by simp_all
  have rnd: "seg10 (drop 32 temp) (nat lowt) 96 + carry * 10 ^ nat lowt = round32 (dval d * dval e)"
  proof -
    have "lowt = (if ?L - 32 < 0 then 0 else ?L - 32)" by (simp add: lowt_def)
    from columns_round [OF len L tot this] show ?thesis by (simp add: carry_def)
  qed
  have key: "digits_ok ds2 \<and> h2 < 64 \<and> 0 \<le> h2 \<and>
      seg10 ds2 (nat lowt) (nat (h2 + 1)) = round32 (dval d * dval e) mod 10 ^ 64"
  proof (cases "lowt \<le> hight + 1")
    case True
    have top: "10 ^ 64 dvd seg10 (drop 32 temp) (nat (hight + 1)) 96"
    proof (cases "64 \<le> ?H - 32")
      case True
      then have "nat (hight + 1) = 64" by (simp add: hight_def)
      then show ?thesis by (metis seg10_dvd)
    next
      case False
      let ?b = "nat (?H + 1)"
      have "seg10 temp 0 ?b = dval d * dval e" "seg10 temp 0 128 = dval d * dval e"
        using columns_product(2) [OF wf c, of ?b 0 temp] columns_product(2) [OF wf c, of 128 0 temp] H h temp_def
        by simp_all
      moreover have "seg10 temp 0 128 = seg10 temp 0 ?b + seg10 temp ?b 128" using H by (intro seg10_split) auto
      moreover have "seg10 temp ?b 128 = seg10 temp ?b (nat (hight + 33)) + seg10 temp (nat (hight + 33)) 128"
        using False h H by (intro seg10_split) (auto simp: hight_def)
      ultimately have "seg10 temp (nat (hight + 33)) 128 = 0" by simp
      then have "seg10 (drop 32 temp) (nat (hight + 1)) 96 = 0"
        using seg10_drop [of 96 32 temp "nat (hight + 1)"] len h0 by (simp add: nat_add_distrib add.commute)
      then show ?thesis by simp
    qed
    let ?x = "seg10 (drop 32 temp) (nat lowt) (nat (hight + 1)) + carry * 10 ^ nat lowt"
    have cpy: "digits_ok ds1" "seg10 ds1 (nat lowt) (nat (hight + 1)) + c1 * 10 ^ nat (hight + 1) = ?x"
      using mul_copy_spec [OF cp h0(3) True h0(2) len w(1)] by simp_all
    have "digits_ok ds2 \<and> hight \<le> h2 \<and> h2 < 64 \<and> seg10 ds2 (nat lowt) (nat (h2 + 1)) = ?x mod 10 ^ 64"
      using mul_spill_spec [OF sp _ h0(2) cpy(1), of "nat lowt"] True h0 cpy(2) by simp
    moreover have "round32 (dval d * dval e) = ?x + seg10 (drop 32 temp) (nat (hight + 1)) 96"
      using rnd True h0 by (subst (asm) seg10_split [of _ "nat (hight + 1)"]) auto
    ultimately show ?thesis using top h0 by (auto elim!: dvdE)
  next
    case False
    then have big: "32 < ?L" "lowt = ?L - 32" using h0 by (auto simp: lowt_def split: if_splits)
    then have "carry = 0" by (simp add: carry_def mul_round.simps)
    moreover from this have "c1 = 0" "ds1 = digits d" using cp False by (auto simp: mul_copy.simps)
    ultimately have e: "ds2 = digits d" "h2 = hight" using sp by (auto simp: mul_spill.simps)
    have "round32 (dval d * dval e) mod 10 ^ 64 = 0"
    proof (cases "low1 \<le> high1 \<and> low2 \<le> high2")
      case True
      then have "64 \<le> nat lowt" using False big by (auto simp: hight_def split: if_splits)
      then have "10 ^ 64 dvd seg10 (drop 32 temp) (nat lowt) 96"
        using seg10_dvd dvd_trans le_imp_power_dvd by metis
      then show ?thesis using rnd \<open>carry = 0\<close> by (simp add: mod_eq_0_iff_dvd)
    next
      case False
      then have "dval d = 0 \<or> dval e = 0" using clip_empty c by auto
      then show ?thesis by (auto simp: round32_def)
    qed
    then show ?thesis using e w(1) h0 False by (simp add: nat_le_iff)
  qed
  have b: "byte lowt = nat lowt" "byte h2 = nat h2" "Suc (nat h2) = nat (h2 + 1)" using h0 key by auto
  show "digits_ok (digits (multiply d e))" "negative (multiply d e) = (negative d \<noteq> negative e)"
    using m key by simp_all
  show "msb (multiply d e) < 64" using m key b(2) by (simp add: nat_less_iff)
  show "lsb (multiply d e) = nat (low1 + low2 - 32)" using m b(1) by (simp add: lowt_def)
  show "dval (multiply d e) = round32 (dval d * dval e) mod 10 ^ 64"
  proof -
    have "dval (multiply d e) = seg10 ds2 (nat lowt) (Suc (nat h2))" unfolding m dval_def by (simp add: b)
    with key b(3) show ?thesis by simp
  qed
qed

section \<open>Correctness of multiply\<close>

lemma product_bounds:
  assumes wf: "dec_wf d" "dec_wf e" and c: "clip d = (low1, high1)" "clip e = (low2, high2)"
    and ne: "low1 \<le> high1" "low2 \<le> high2"
  shows "dval d * dval e < 10 ^ nat (high1 + high2 + 2)"
proof -
  note c1 = clip_nonempty [OF c(1) ne(1)] and c2 = clip_nonempty [OF c(2) ne(2)]
  have "dval d < 10 ^ Suc (nat high1)"
    unfolding c1(6) using wf c1 by (intro seg10_less digits_ok_nth) (auto simp: dec_wf_def)
  moreover have "dval e < 10 ^ Suc (nat high2)"
    unfolding c2(6) using wf c2 by (intro seg10_less digits_ok_nth) (auto simp: dec_wf_def)
  ultimately have "dval d * dval e < 10 ^ Suc (nat high1) * 10 ^ Suc (nat high2)"
    by (intro mult_strict_mono) auto
  also have "\<dots> = 10 ^ (Suc (nat high1) + Suc (nat high2))" by (simp add: power_add)
  also have "Suc (nat high1) + Suc (nat high2) = nat (high1 + high2 + 2)" using c1(1) c2(1) ne by simp
  finally show ?thesis .
qed

lemma setZero_simps [simp]:
  "dec_wf d \<Longrightarrow> dec_wf (setZero d)" "dec_wf d \<Longrightarrow> dval (setZero d) = 0"
  "negative (setZero d) = False" "lsb (setZero d) = 32" "msb (setZero d) = 32"
  using seg10_Suc [of 32 32 "(digits d)[32 := 0]"]
  by (auto simp: setZero_def dec_wf_def digits_ok_update dval_def digits_ok_length)

lemma multiply_dval:
  assumes wf: "dec_wf d" "dec_wf e"
  shows "dval (multiply d e) = round32 (dval d * dval e) mod 10 ^ 64 \<or>
    dval (multiply d e) = 0 \<and> dval d * dval e < 10 ^ 32"
proof -
  obtain low1 high1 low2 high2 where c: "clip d = (low1, high1)" "clip e = (low2, high2)" by fastforce
  show ?thesis
  proof (cases "31 \<le> high1 + high2")
    case True
    then show ?thesis using multiply_main(4) [OF wf c] by blast
  next
    case False
    have "dval d * dval e < 10 ^ 32"
    proof (cases "low1 \<le> high1 \<and> low2 \<le> high2")
      case True
      then have "dval d * dval e < 10 ^ nat (high1 + high2 + 2)" using product_bounds [OF wf c] by blast
      also have "(10::nat) ^ nat (high1 + high2 + 2) \<le> 10 ^ 32" using False by (intro power_increasing) auto
      finally show ?thesis .
    next
      case False
      then have "dval d = 0 \<or> dval e = 0" using clip_empty c by auto
      then show ?thesis by auto
    qed
    moreover have "dval (multiply d e) = 0" using False multiply_tiny [OF c] wf(1) by simp
    ultimately show ?thesis by blast
  qed
qed

lemma multiply_sign:
  assumes "dec_wf d" "dec_wf e"
  shows "sval (multiply d e) = flip (negative d \<noteq> negative e) (int (dval (multiply d e)))"
proof -
  obtain low1 high1 low2 high2 where c: "clip d = (low1, high1)" "clip e = (low2, high2)" by fastforce
  show ?thesis
  proof (cases "31 \<le> high1 + high2")
    case True
    then show ?thesis using multiply_main(5) [OF assms c] by (simp add: sval_flip)
  next
    case False
    then show ?thesis using multiply_tiny [OF c] assms(1) by (simp add: sval_flip flip_def)
  qed
qed

lemma keep64_flip: "keep64 (flip s (int n)) = flip s (int (n mod 10 ^ 64))"
  by (simp add: flip_def keep64_nat keep64_uminus)

text \<open>
  \<^verbatim>\<open>Decimal::multiply\<close>: the value of the result is the product of the two values rounded half
  away from zero to the last of the 32 decimal places, with the digits above the array dropped.
  The hypothesis leaves out only the products between a half and one unit of the last place.
\<close>

lemma multiply_spec:
  assumes wf: "dec_wf d" "dec_wf e"
    and p: "dval d * dval e < 5 * 10 ^ 31 \<or> 10 ^ 32 \<le> dval d * dval e"
  shows "sval (multiply d e) =
    keep64 (flip (negative d \<noteq> negative e) (int (round32 (dval d * dval e))))"
proof -
  have "round32 (dval d * dval e) = 0" if "dval d * dval e < 10 ^ 32"
    using p that by (simp add: round32_def)
  with multiply_dval [OF wf] have "dval (multiply d e) = round32 (dval d * dval e) mod 10 ^ 64"
    by auto
  then show ?thesis using multiply_sign [OF wf] by (simp add: keep64_flip)
qed

text \<open>
  \<^verbatim>\<open>Decimal::multiply\<close> keeps the invariant exactly when the last significant positions of the
  operands add up to at most 96 (the product then ends inside the array); otherwise \<^verbatim>\<open>lsb\<close> is left
  pointing beyond the digit array.
\<close>

lemma multiply_wf_spec:
  assumes wf: "dec_wf d" "dec_wf e" and h: "31 \<le> snd (clip d) + snd (clip e)"
  shows "dec_wf (multiply d e) \<longleftrightarrow> fst (clip d) + fst (clip e) \<le> 96"
proof -
  obtain low1 high1 low2 high2 where c: "clip d = (low1, high1)" "clip e = (low2, high2)" by fastforce
  from h c have "31 \<le> high1 + high2" by simp
  note m = multiply_main [OF wf c this]
  show ?thesis using m(1,2,3) c by (auto simp: dec_wf_def)
qed

text \<open>Then every later sum or difference fills zeros up to \<^verbatim>\<open>lsb\<close>, beyond the array.\<close>

lemma multiply_overflow_spec:
  assumes wf: "dec_wf d" "dec_wf e" "dec_wf x" and h: "31 \<le> snd (clip d) + snd (clip e)" and l: "96 < fst (clip d) + fst (clip e)"
  shows "add_dec (multiply d e) x = Inl OutOfRange \<and> subtract_dec (multiply d e) x = Inl OutOfRange"
proof -
  obtain low1 high1 low2 high2 where c: "clip d = (low1, high1)" "clip e = (low2, high2)" by fastforce
  from h c have "31 \<le> high1 + high2" by simp
  note m = multiply_main [OF wf(1,2) c this]
  have "length (digits (multiply d e)) = 64" using digits_ok_length [OF m(1)] .
  moreover have "64 < lsb (multiply d e)" using m(3) l c by simp
  moreover have "lsb x \<le> 64" using wf(3) by (simp add: dec_wf_def)
  ultimately have "extendRange (multiply d e) (lsb x) (msb x) = Inl OutOfRange"
    using zero_fill_out [of "lsb x" "digits (multiply d e)" "lsb (multiply d e)"] by (simp add: extendRange_def)
  then show ?thesis by (simp add: add_dec_def subtract_dec_def addDigits_def subtractDigits_def)
qed

end
