(* ===== verification/Nbcd_Round.thy ===== *)
theory Nbcd_Round
  imports Nbcd_Conv Nbcd_Mul
begin

text \<open>
  Correctness of rounding, truncation and the precision operations of \<^verbatim>\<open>Decimal\<close>. A place \<open>p\<close> after
  the decimal point is the digit position \<open>32 - p\<close>, so that keeping \<open>p\<close> places is keeping the
  multiples of \<open>10 ^ (32 - p)\<close> of the magnitude.
\<close>

declare incLSD_loop.simps [simp del] and roundup_loop.simps [simp del]
  and set_uint_loop.simps [simp del] and get_uint_loop.simps [simp del] and scale_loop.simps [simp del]

section \<open>Cutting digits off\<close>

lemma dval_cut:
  assumes "dec_wf d" "lsb d \<le> k" "k \<le> Suc (msb d)"
  shows "dval d div 10 ^ k * 10 ^ k = seg10 (digits d) k (Suc (msb d))" "dval d mod 10 ^ k = seg10 (digits d) (lsb d) k"
  unfolding dval_def using assms by (auto intro!: seg10_cut simp: dec_wf_def digits_ok_nth)

lemma dval_below: "dec_wf d \<Longrightarrow> k \<le> lsb d \<Longrightarrow> dval d div 10 ^ k * 10 ^ k = dval d"
  unfolding dval_def by (meson dvd_div_mult_self dvd_trans le_imp_power_dvd seg10_dvd)

lemma dval_above: "dec_wf d \<Longrightarrow> msb d < k \<Longrightarrow> dval d div 10 ^ k = 0"
  using dval_less [of d] div_power_zero [of "dval d" "Suc (msb d)" k] by simp

text \<open>
  \<^verbatim>\<open>truncate(places)\<close> keeps the sign and drops the digits after \<open>places\<close> places, for every number of
  places, negative ones included: the result is well formed and is the value rounded toward zero to
  a multiple of \<open>10 ^ - places\<close>.
\<close>

lemma truncate_dec_spec:
  fixes places :: int
  assumes "dec_wf d"
  defines "k \<equiv> nat (32 - places)"
  shows "dec_wf (truncate_dec d places) \<and>
    sval (truncate_dec d places) = flip (negative d) (int (dval d div 10 ^ k * 10 ^ k))"
proof -
  note w = dec_wfD [OF assms(1)]
  show ?thesis
  proof (cases "places \<le> - 32 \<or> 32 - places \<le> int (lsb d)")
    case True
    have "dval d div 10 ^ k = 0" if "places \<le> - 32"
      using that w assms(1) by (intro dval_above) (auto simp: k_def)
    moreover have "dval d div 10 ^ k * 10 ^ k = dval d" if "32 - places \<le> int (lsb d)"
      using that assms(1) by (intro dval_below) (auto simp: k_def)
    ultimately show ?thesis
      using True assms(1) by (auto simp: truncate_dec_def sval_flip flip_def setZero_simps simp del: of_nat_mult)
  next
    case False
    then have b: "byte (32 - places) = k" "lsb d < k" "k < 64" by (auto simp: k_def)
    have t: "truncate_dec d places =
        (if msb d < k then d\<lparr>lsb := k, digits := (digits d)[k := 0], msb := k\<rparr> else d\<lparr>lsb := k\<rparr>)"
      using False b(1) by (simp add: truncate_dec_def)
    have "dval (truncate_dec d places) = dval d div 10 ^ k * 10 ^ k"
    proof (cases "msb d < k")
      case True
      then show ?thesis using t b w dval_above [OF assms(1) True]
        by (simp add: dval_def seg10_Suc digits_ok_length)
    next
      case False
      then show ?thesis using t dval_cut(1) [OF assms(1), of k] b(2) by (simp add: dval_def)
    qed
    moreover have "dec_wf (truncate_dec d places)" using t b w by (simp add: dec_wf_def digits_ok_update)
    moreover have "negative (truncate_dec d places) = negative d" using t by simp
    ultimately show ?thesis by (simp add: sval_flip)
  qed
qed

section \<open>The increment of the last kept digit\<close>

lemma incLSD_loop_spec:
  assumes "digits_ok (digits d)" "msb d < 64" "i \<le> Suc (msb d)" "lsb d \<le> i"
    "\<forall>k. lsb d \<le> k \<and> k < i \<longrightarrow> digits d ! k = 0"
  shows "if seg10 (digits d) i (Suc (msb d)) + 10 ^ i < 10 ^ 64
    then \<exists>e. incLSD_loop d i = Inr e \<and> digits_ok (digits e) \<and> msb e < 64 \<and> lsb e \<le> 64 \<and>
      negative e = negative d \<and> dval e = seg10 (digits d) i (Suc (msb d)) + 10 ^ i
    else incLSD_loop d i = Inl OutOfRange"
  using assms
proof (induction "Suc (msb d) - i" arbitrary: d i)
  case 0
  then have i: "i = Suc (msb d)" by simp
  have l: "length (digits d) = 64" using 0 by (simp add: digits_ok_length)
  show ?case
  proof (cases "msb d = 63")
    case True
    then have "incLSD_loop d i = Inl OutOfRange"
      unfolding i using l by (subst incLSD_loop.simps) (simp add: wr_def)
    then show ?thesis using i True by simp
  next
    case False
    then have m: "Suc (msb d) < 64" using 0(3) by simp
    then have lt: "(10::nat) ^ Suc (msb d) < 10 ^ 64" by (intro power_strict_increasing) auto
    let ?e = "d\<lparr>digits := (digits d)[Suc (msb d) := 1], msb := Suc (msb d)\<rparr>"
    have "incLSD_loop d i = Inr ?e"
      unfolding i using m l by (subst incLSD_loop.simps) (simp add: wr_def nat_add_distrib)
    moreover have "dval ?e = 10 ^ i"
    proof -
      have "seg10 (digits d) (lsb d) (Suc (msb d)) = 0" using 0(6) i by (intro seg10_zero) auto
      then show ?thesis using i 0(5) l m by (simp add: dval_def seg10_Suc)
    qed
    ultimately show ?thesis using lt i m 0 by (auto simp: digits_ok_update)
  qed
next
  case (Suc n)
  then have i: "i \<le> msb d" by simp
  let ?s = "seg10 (digits d) i (Suc (msb d))"
  have l: "length (digits d) = 64" "digits d ! i \<le> 9" using Suc.prems i by (auto simp: digits_ok_length digits_ok_nth)
  have r: "rd (digits d) (int i) = Inr (digits d ! i)" using l i Suc.prems by (simp add: rd_def)
  have h: "?s = digits d ! i * 10 ^ i + seg10 (digits d) (Suc i) (Suc (msb d))" using i by (intro seg10_head) simp
  show ?case
  proof (cases "digits d ! i = 9")
    case False
    let ?e = "d\<lparr>digits := (digits d)[i := digits d ! i + 1], lsb := i\<rparr>"
    have "byte (int (digits d ! i) + 1) = digits d ! i + 1"
      using l(2) by (subst byte_id) (simp_all add: nat_add_distrib)
    then have e: "incLSD_loop d i = Inr ?e" using i r l False by (simp add: incLSD_loop.simps [of d i])
    have "digits_ok (digits ?e)" using Suc.prems(1) l False by (simp add: digits_ok_update)
    moreover have v: "dval ?e = ?s + 10 ^ i"
      using seg10_update [of i i "Suc (msb d)" "digits d" "digits d ! i + 1"] i l Suc.prems by (simp add: dval_def)
    ultimately have "dec_wf ?e" using Suc.prems i by (simp add: dec_wf_def)
    then have "?s + 10 ^ i < 10 ^ 64" using dval_less_max [of ?e] v by simp
    then show ?thesis using e v \<open>dec_wf ?e\<close> by (auto simp: dec_wf_def)
  next
    case True
    let ?d = "d\<lparr>digits := (digits d)[i := 0]\<rparr>"
    have e: "incLSD_loop d i = incLSD_loop ?d (Suc i)" using i r True by (simp add: incLSD_loop.simps [of d i])
    have "if seg10 (digits ?d) (Suc i) (Suc (msb ?d)) + 10 ^ Suc i < 10 ^ 64
      then \<exists>e. incLSD_loop ?d (Suc i) = Inr e \<and> digits_ok (digits e) \<and> msb e < 64 \<and> lsb e \<le> 64 \<and>
        negative e = negative ?d \<and> dval e = seg10 (digits ?d) (Suc i) (Suc (msb ?d)) + 10 ^ Suc i
      else incLSD_loop ?d (Suc i) = Inl OutOfRange"
      using Suc.prems Suc.hyps(2) i l by (intro Suc.hyps(1)) (auto simp: digits_ok_update nth_list_update)
    moreover have "?s + 10 ^ i = seg10 (digits ?d) (Suc i) (Suc (msb ?d)) + 10 ^ Suc i" using h True by simp
    moreover have "negative ?d = negative d" by simp
    ultimately show ?thesis unfolding e by (simp only:)
  qed
qed

lemma incLSD_spec:
  assumes "digits_ok (digits d)" "msb d < 64" "lsb d \<le> Suc (msb d)"
  shows "if dval d + 10 ^ lsb d < 10 ^ 64
    then \<exists>e. incLSD d = Inr e \<and> dec_wf e \<and> sval e = flip (negative d) (int (dval d + 10 ^ lsb d))
    else incLSD d = Inl OutOfRange"
  using incLSD_loop_spec [OF assms(1,2,3) order_refl] unfolding incLSD_def dval_def [symmetric]
  by (auto simp: dec_wf_def sval_flip split: if_splits)

section \<open>Rounding\<close>

lemma half_digit:
  fixes s t c :: nat
  assumes "s < t"
  shows "10 * t \<le> 2 * (s + c * t) \<longleftrightarrow> 5 \<le> c"
proof (cases "5 \<le> c")
  case True
  then obtain e where "c = 5 + e" by (metis le_iff_add)
  then show ?thesis by (simp add: algebra_simps)
next
  case False
  then obtain e where "4 = c + e" using le_Suc_ex [of c 4] by auto
  then have "4 * t = c * t + e * t" by (metis add_mult_distrib)
  with False assms show ?thesis by simp
qed

lemma round_half_digit:
  assumes wf: "dec_wf d" and k: "lsb d < k" "k \<le> Suc (msb d)"
  shows "(2 * dval d + 10 ^ k) div (2 * 10 ^ k) * 10 ^ k =
    seg10 (digits d) k (Suc (msb d)) + (if 5 \<le> digits d ! (k - 1) then 10 ^ k else 0)"
proof -
  obtain m where m: "k = Suc m" using k(1) by (cases k) auto
  have w: "digits_ok (digits d)" "msb d < 64" using wf by (simp_all add: dec_wf_def)
  have r: "dval d mod 10 ^ k = seg10 (digits d) (lsb d) m + digits d ! m * 10 ^ m"
    using dval_cut(2) [OF wf, of k] k m by (simp add: seg10_Suc)
  have lt: "seg10 (digits d) (lsb d) m < 10 ^ m" using w k m by (intro seg10_less digits_ok_nth) auto
  have "10 ^ k \<le> 2 * (dval d mod 10 ^ k) \<longleftrightarrow> 5 \<le> digits d ! m"
    unfolding r unfolding m power_Suc by (rule half_digit [OF lt])
  then show ?thesis
    using round_half_up [of "10 ^ k" "dval d"] dval_cut(1) [OF wf, of k] k m by (simp add: add_mult_distrib)
qed

text \<open>
  \<^verbatim>\<open>round(places)\<close>, for a number of places from -31 up: the result is the value rounded half away
  from zero to a multiple of \<open>10 ^ - places\<close>, except when the carry leaves the array (the rounded
  magnitude needs a 65th digit), where \<^verbatim>\<open>incLSD\<close> writes beyond \<^verbatim>\<open>digits\<close>.
\<close>

lemma round_dec_spec:
  fixes places :: int
  assumes wf: "dec_wf d" and p: "-31 \<le> places"
  defines "k \<equiv> nat (32 - places)"
  defines "r \<equiv> (2 * dval d + 10 ^ k) div (2 * 10 ^ k) * 10 ^ k"
  shows "if r < 10 ^ 64 then \<exists>e. round_dec d places = Inr e \<and> dec_wf e \<and> sval e = flip (negative d) (int r)
    else round_dec d places = Inl OutOfRange"
proof (cases "32 - places \<le> int (lsb d)")
  case True
  then have e: "dval d div 10 ^ k * 10 ^ k = dval d" using wf by (intro dval_below) (auto simp: k_def)
  then have "dval d mod 10 ^ k = 0" by (metis mod_mult_self2_is_0)
  then have "r = dval d" using e round_half_up [of "10 ^ k" "dval d"] by (simp add: r_def)
  then show ?thesis using True p wf dval_less_max [OF wf] by (auto simp: round_dec_def sval_flip)
next
  case False
  then have b: "byte (32 - places) = k" "lsb d < k" "k < 64" using p by (auto simp: k_def)
  have w: "digits_ok (digits d)" "length (digits d) = 64" "msb d < 64"
    using wf by (auto simp: dec_wf_def digits_ok_length)
  let ?d = "d\<lparr>lsb := k\<rparr>"
  have u: "round_dec d places =
    (if k > msb d then
       if k = msb d + 1 \<and> digits d ! msb d \<ge> 5
       then Inr (?d\<lparr>digits := (digits d)[k := 1], msb := k\<rparr>) else Inr (?d\<lparr>digits := (digits d)[k := 0], msb := k\<rparr>)
     else if digits d ! (k - 1) < 5 then Inr ?d else incLSD ?d)"
    using False p b w by (simp add: round_dec_def Let_def wr_def)
  show ?thesis
  proof (cases "k > msb d")
    case True
    have "r = (if k = msb d + 1 \<and> digits d ! msb d \<ge> 5 then 10 ^ k else 0)"
    proof (cases "k = Suc (msb d)")
      case True
      then show ?thesis using round_half_digit [OF wf b(2)] by (simp add: r_def)
    next
      case False
      then have g: "Suc (msb d) \<le> k - 1" "k = Suc (k - 1)" using \<open>k > msb d\<close> by auto
      have "dval d < 10 ^ (k - 1)" using dval_less [OF wf] power_increasing [OF g(1), of "10::nat"] by linarith
      moreover have "(10::nat) ^ k = 10 * 10 ^ (k - 1)" using g(2) by (metis power_Suc)
      ultimately have "2 * dval d + 10 ^ k < 2 * 10 ^ k" by linarith
      then show ?thesis using False by (simp add: r_def)
    qed
    moreover have "(10::nat) ^ k < 10 ^ 64" using b(3) by (intro power_strict_increasing) auto
    ultimately show ?thesis using True u b w
      by (auto simp: dec_wf_def digits_ok_update sval_flip dval_def seg10_Suc)
  next
    case False
    have r: "r = dval ?d + (if 5 \<le> digits d ! (k - 1) then 10 ^ k else 0)"
      using round_half_digit [OF wf b(2)] False by (simp add: r_def dval_def)
    have wf': "dec_wf ?d" using wf b by (simp add: dec_wf_def)
    show ?thesis
    proof (cases "5 \<le> digits d ! (k - 1)")
      case True
      then have "round_dec d places = incLSD ?d" "r = dval ?d + 10 ^ lsb ?d" "negative ?d = negative d"
        using u r False by simp_all
      moreover have "digits_ok (digits ?d)" "msb ?d < 64" "lsb ?d \<le> Suc (msb ?d)" using w False by simp_all
      note incLSD_spec [OF this]
      ultimately show ?thesis by (simp only:)
    next
      case False
      then show ?thesis using u r \<open>\<not> k > msb d\<close> wf' dval_less_max [OF wf'] by (simp add: sval_flip)
    qed
  qed
qed

section \<open>Rounding up\<close>

lemma roundup_loop_spec:
  "limit \<le> length ds \<Longrightarrow> roundup_loop ds i limit = Inr (\<exists>k. i \<le> k \<and> k < limit \<and> ds ! k \<noteq> 0)"
proof (induction "limit - i" arbitrary: i)
  case 0
  then show ?case by (auto simp: roundup_loop.simps)
next
  case (Suc n)
  then have i: "i < limit" "rd ds (int i) = Inr (ds ! i)" by (auto simp: rd_def)
  have "(\<exists>k. i \<le> k \<and> k < limit \<and> ds ! k \<noteq> 0) \<longleftrightarrow>
      ds ! i \<noteq> 0 \<or> (\<exists>k. Suc i \<le> k \<and> k < limit \<and> ds ! k \<noteq> 0)"
    unfolding le_eq_less_or_eq [of i] Suc_le_eq using i(1) by auto
  then show ?case using Suc i by (simp add: roundup_loop.simps [of ds i])
qed

lemma ceil_cut:
  fixes x p :: nat
  assumes "0 < p"
  shows "(x + (p - 1)) div p = x div p + (if x mod p = 0 then 0 else 1)"
proof -
  have "(x + (p - 1)) div p = ((x mod p + (p - 1)) + x div p * p) div p" by simp
  also have "\<dots> = x div p + (x mod p + (p - 1)) div p" using assms by (intro div_mult_self1) simp
  also have "(x mod p + (p - 1)) div p = (if x mod p = 0 then 0 else 1)"
    using assms mod_less_divisor [OF assms, of x] by (auto intro: div_nat_eqI)
  finally show ?thesis .
qed

text \<open>
  \<^verbatim>\<open>roundup(places)\<close>, when the last kept place is at most one above the leading digit: the result is the
  magnitude rounded up to a multiple of \<open>10 ^ - places\<close>, with the sign kept, and the one failure is a
  carry out of the array.
\<close>

lemma roundup_spec:
  fixes places :: int
  assumes wf: "dec_wf d" and p: "32 - places \<le> int (Suc (msb d))" "places < 32"
  defines "k \<equiv> nat (32 - places)"
  defines "r \<equiv> (dval d + (10 ^ k - 1)) div 10 ^ k * 10 ^ k"
  shows "if r < 10 ^ 64 then \<exists>e. roundup d places = Inr e \<and> dec_wf e \<and> sval e = flip (negative d) (int r)
    else roundup d places = Inl OutOfRange"
proof -
  have r: "r = dval d div 10 ^ k * 10 ^ k + (if dval d mod 10 ^ k = 0 then 0 else 10 ^ k)"
    unfolding r_def using ceil_cut [of "10 ^ k" "dval d"] by simp
  show ?thesis
  proof (cases "32 - places \<le> int (lsb d)")
    case True
    then have e: "dval d div 10 ^ k * 10 ^ k = dval d" using wf by (intro dval_below) (auto simp: k_def)
    then have "dval d mod 10 ^ k = 0" by (metis mod_mult_self2_is_0)
    with r e have "r = dval d" by simp
    then show ?thesis using True wf dval_less_max [OF wf] by (auto simp: roundup_def sval_flip)
  next
    case False
    have w: "digits_ok (digits d)" "length (digits d) = 64" "msb d < 64"
      using wf by (auto simp: dec_wf_def digits_ok_length)
    have b: "byte (32 - places) = k" "lsb d < k" "k \<le> Suc (msb d)" using False p w by (auto simp: k_def)
    let ?d = "d\<lparr>lsb := k\<rparr>"
    note cut = dval_cut [OF wf less_imp_le [OF b(2)] b(3)]
    have "(\<exists>i. lsb d \<le> i \<and> i < k \<and> digits d ! i \<noteq> 0) \<longleftrightarrow> dval d mod 10 ^ k \<noteq> 0"
      unfolding cut seg10_eq_0_iff by auto
    then have u: "roundup d places = (if dval d mod 10 ^ k = 0 then Inr ?d else incLSD ?d)"
      using False p b w by (auto simp: roundup_def Let_def roundup_loop_spec)
    have s: "digits_ok (digits ?d)" "msb ?d < 64" "lsb ?d \<le> Suc (msb ?d)" using w b by simp_all
    have r': "r = dval ?d + (if dval d mod 10 ^ k = 0 then 0 else 10 ^ lsb ?d)"
      using r cut by (simp add: dval_def)
    show ?thesis
    proof (cases "dval d mod 10 ^ k = 0")
      case True
      have "dec_wf ?d" using s b w by (simp add: dec_wf_def)
      then show ?thesis using u r' True dval_less_max [of ?d] by (simp add: sval_flip)
    next
      case False
      then have "roundup d places = incLSD ?d" "r = dval ?d + 10 ^ lsb ?d" "negative ?d = negative d"
        using u r' by simp_all
      then show ?thesis using incLSD_spec [OF s] by (simp only:)
    qed
  qed
qed

text \<open>
  Further up, the increment is lost: the digit is written one above the leading digit, below the last
  kept place, and the result is zero although the value rounds up to \<open>10 ^ - places\<close>.
\<close>

lemma roundup_far_is_zero:
  assumes wf: "dec_wf d" and p: "int (msb d) + 1 < 32 - places" "32 - places < 64" "int (lsb d) < 32 - places"
  shows "\<exists>e. roundup d places = Inr e \<and> dval e = 0"
proof -
  define k where "k = nat (32 - places)"
  have w: "length (digits d) = 64" using wf by (simp add: dec_wf_def digits_ok_length)
  have b: "byte (32 - places) = k" "Suc (msb d) < k" "k < 64" "lsb d < k" using p by (auto simp: k_def)
  let ?d = "d\<lparr>lsb := k\<rparr>"
  have "incLSD ?d = Inr (?d\<lparr>digits := (digits d)[Suc (msb d) := 1], msb := Suc (msb d)\<rparr>)"
    using b w by (simp add: incLSD_def incLSD_loop.simps wr_def nat_add_distrib)
  moreover have "dval (?d\<lparr>digits := (digits d)[Suc (msb d) := 1], msb := Suc (msb d)\<rparr>) = 0" "dval ?d = 0"
    using b by (simp_all add: dval_def)
  ultimately show ?thesis using p b w by (simp add: roundup_def Let_def roundup_loop_spec)
qed

section \<open>Precision\<close>

text \<open>
  \<^verbatim>\<open>setPrecision(numDigits, precision)\<close> with 1 to 32 integer digits kept and at most 32 fractional ones keeps
  exactly the digits of a number with \<open>numDigits\<close> digits, \<open>precision\<close> of them after the point: the
  rest of the magnitude is cut off on both sides.
\<close>

lemma setPrecision_spec:
  assumes wf: "dec_wf d" and p: "precision \<le> 32" "precision < numDigits" "numDigits \<le> precision + 32"
  shows "dec_wf (setPrecision d numDigits precision) \<and>
    sval (setPrecision d numDigits precision) = flip (negative d)
      (int (dval d mod 10 ^ (32 + numDigits - precision) div 10 ^ (32 - precision) * 10 ^ (32 - precision)))"
proof -
  note w = dec_wfD [OF wf]
  let ?h = "31 + numDigits - precision" and ?l = "32 - precision"
  have b: "byte (32 + int numDigits - int precision - 1) = ?h" "byte (32 - int precision) = ?l" "?h < 64" "?l \<le> ?h"
    using p by (auto simp: byte_def nat_mod_as_int of_nat_diff)
  define m where "m = min (msb d) ?h"
  define n where "n = max (lsb d) ?l"
  let ?e = "setPrecision d numDigits precision"
  have u: "?e = (if n > m then d\<lparr>msb := m, lsb := m, digits := (digits d)[m := 0]\<rparr> else d\<lparr>msb := m, lsb := n\<rparr>)"
    using b by (simp add: setPrecision_def Let_def min_def max_def m_def n_def)
  have m: "m < 64" "m \<le> msb d" using w by (simp_all add: m_def)
  have "dval d mod 10 ^ Suc ?h = seg10 (digits d) (lsb d) (Suc m)"
    unfolding dval_def m_def using w by (subst seg10_mod) (auto simp: digits_ok_nth min_def)
  then have "dval d mod 10 ^ Suc ?h div 10 ^ ?l * 10 ^ ?l = seg10 (digits d) n (Suc m)"
    using w m seg10_div [of "lsb d" "Suc m" "digits d" ?l] by (simp add: digits_ok_nth n_def)
  moreover have "dval ?e = seg10 (digits d) n (Suc m)"
    using u w m by (simp add: dval_def seg10_Suc digits_ok_length)
  moreover have "Suc ?h = 32 + numDigits - precision" using p by simp
  moreover have "dec_wf ?e" using u w(1) m by (simp add: dec_wf_def digits_ok_update)
  moreover have "negative ?e = negative d" using u by simp
  ultimately show ?thesis by (simp add: sval_flip del: power_Suc)
qed

text \<open>
  The digits and the precision that \<^verbatim>\<open>getClipPrecision\<close> reports are enough to hold the value: it is a multiple
  of \<open>10 ^ - precision\<close>, its magnitude is below \<open>10 ^ (digits - precision)\<close>, and \<open>precision \<le> digits\<close>
  as the comment in the code promises. The reported precision is the least possible one.
\<close>

lemma getClipPrecision_spec:
  assumes wf: "dec_wf d" and g: "getClipPrecision d = (n, p)"
  shows "p \<le> n \<and> p \<le> 32 \<and> 10 ^ (32 - p) dvd dval d \<and> dval d < 10 ^ (32 - p + n) \<and>
    (\<forall>q < p. \<not> 10 ^ (32 - q) dvd dval d)"
proof -
  obtain lo hi where c: "clip d = (lo, hi)" by fastforce
  show ?thesis
  proof (cases "hi < lo")
    case True
    then show ?thesis using g c clip_empty [OF c] by (auto simp: getClipPrecision_def)
  next
    case False
    then have lh: "lo \<le> hi" by simp
    note k = clip_nonempty [OF c lh]
    obtain l h where n: "lo = int l" "hi = int h" using lh k(1) nonneg_int_cases by (metis order_trans)
    have h: "h < 64" "l \<le> h" using dec_wfD(2) [OF wf] k(3) n lh by auto
    have v: "dval d = seg10 (digits d) l (Suc h)" "digits d ! l \<noteq> 0" using k(4,6) n by simp_all
    have dig: "digits d ! i \<le> 9" if "i < Suc h" for i
      using dec_wfD(1) [OF wf] h that by (auto intro: digits_ok_nth)
    have p: "p = 32 - l" "32 - p = min l 32" using g c n h by (auto simp: getClipPrecision_def Let_def split: if_splits)
    have n1: "Suc h \<le> 32 - p + n" "p \<le> n"
      using g c n h by (auto simp: getClipPrecision_def Let_def split: if_splits)
    have "10 ^ (32 - p) dvd dval d"
      using dvd_trans [OF le_imp_power_dvd [of "32 - p" l] seg10_dvd [of l "digits d" "Suc h"]] p(2) v(1) by simp
    moreover have "dval d < 10 ^ (32 - p + n)"
      unfolding v(1) using dig n1(1) by (intro seg10_less_power) auto
    moreover have "\<not> 10 ^ (32 - q) dvd dval d" if "q < p" for q
    proof
      have lq: "Suc l \<le> 32 - q" using that p by simp
      assume "10 ^ (32 - q) dvd dval d"
      then have "10 ^ Suc l dvd dval d" using lq by (meson dvd_trans le_imp_power_dvd)
      then have "seg10 (digits d) l (min (Suc h) (Suc l)) = 0"
        using seg10_mod [of l "Suc h" "digits d" "Suc l"] dig v(1) by (simp add: dvd_eq_mod_eq_0)
      moreover have "min (Suc h) (Suc l) = Suc l" using h(2) by simp
      ultimately show False using v(2) by (simp add: seg10_Suc)
    qed
    moreover have "p \<le> 32" using p(1) by simp
    ultimately show ?thesis using n1(2) by blast
  qed
qed

end
