(* ===== verification/Nbcd_Div.thy ===== *)
theory Nbcd_Div
  imports Nbcd_Mul
begin

text \<open>
  Correctness of \<^verbatim>\<open>Decimal::divide\<close>: the schoolbook long division with a guessed quotient digit,
  its correction step, its assertions, and the rounding of the last digit.
\<close>

section \<open>The guess of a quotient digit\<close>

text \<open>
  The guess divides the three leading digits of the current remainder by the two leading digits of
  the divisor. As the comment in the source says, it is never too small and at most one too large.
\<close>

lemma guess_scaled:
  fixes r v t d p :: nat
  assumes v: "d * p \<le> v" "v < (d + 1) * p" and r: "t * p \<le> r" "r < (t + 1) * p"
    and d: "10 \<le> d" and lt: "r < 10 * v"
  shows "r div v \<le> t div d" "t div d \<le> r div v + 1" "t div d \<le> 10"
proof -
  have p: "0 < p" and v0: "0 < v" using r(2) lt by (auto intro: Nat.gr0I)
  let ?q = "r div v" and ?g = "t div d"
  have "?q * d * p \<le> ?q * v" using v(1) by (simp add: mult.assoc)
  also have "\<dots> \<le> r" by simp
  also have "r < (t + 1) * p" by (rule r(2))
  finally have "?q * d < t + 1" using p by (simp only: mult_less_cancel2)
  then show "?q \<le> ?g" using d by (simp add: less_eq_div_iff_mult_less_eq)
  have "t * p < 10 * ((d + 1) * p)" using r(1) lt v(2) by linarith
  then have "t < 10 * (d + 1)" using p by (simp only: mult.assoc [symmetric] mult_less_cancel2)
  then have "t div d < 11" using d by (simp add: div_less_iff_less_mult)
  then show g10: "?g \<le> 10" by simp
  show "?g \<le> ?q + 1"
  proof (rule ccontr)
    assume "\<not> ?g \<le> ?q + 1"
    then have q2: "?q + 1 \<le> ?g - 1" "1 \<le> ?g" by simp_all
    have "?g * d \<le> t" by simp
    then have "?g * d * p \<le> t * p" by simp
    also have "\<dots> \<le> r" by (rule r(1))
    also have "r < (?q + 1) * v" using v0 dividend_less_times_div [OF v0, of r] by (simp add: algebra_simps)
    also have "\<dots> \<le> (?g - 1) * ((d + 1) * p)" using q2(1) v(2) by (intro mult_le_mono) simp_all
    finally have "?g * d < (?g - 1) * (d + 1)" using p by (simp only: mult.assoc [symmetric] mult_less_cancel2)
    also have "\<dots> = ?g * d + ?g - (d + 1)" using q2(2) by (simp add: algebra_simps diff_mult_distrib)
    finally have "d + 1 < ?g" by linarith
    with g10 d show False by simp
  qed
qed

definition small :: "nat list \<Rightarrow> bool" where
  "small xs \<longleftrightarrow> (\<forall>i < length xs. xs ! i \<le> 9)"

lemma small_nth: "small xs \<Longrightarrow> i < length xs \<Longrightarrow> xs ! i \<le> 9"
  by (simp add: small_def)

lemma small_update: "small xs \<Longrightarrow> v \<le> 9 \<Longrightarrow> small (xs[i := v])"
  by (cases "i < length xs") (auto simp: small_def nth_list_update list_update_beyond)

text \<open>The divisor as the loop reads it: \<open>nd2\<close> digits from \<open>lo2\<close>, the leading one not zero.\<close>

definition divisor :: "nat list \<Rightarrow> nat \<Rightarrow> nat \<Rightarrow> nat \<Rightarrow> bool" where
  "divisor os divisor01 lo2 nd2 \<longleftrightarrow>
     small os \<and> 0 < nd2 \<and> lo2 + nd2 \<le> length os \<and> os ! (lo2 + nd2 - 1) \<noteq> 0 \<and>
     divisor01 = os ! (lo2 + nd2 - 1) * 10 + (if nd2 \<noteq> 1 then os ! (lo2 + nd2 - 2) else 0)"

lemma divisor_bounds:
  assumes "divisor os d01 lo2 nd2"
  shows "10 ^ (nd2 - 1) \<le> num10 os lo2 nd2" "num10 os lo2 nd2 < 10 ^ nd2" "0 < num10 os lo2 nd2"
proof -
  obtain n where n: "nd2 = Suc n" using assms by (cases nd2) (auto simp: divisor_def)
  have "os ! (lo2 + n) \<noteq> 0" using assms n by (simp add: divisor_def)
  then have "10 ^ n \<le> os ! (lo2 + n) * 10 ^ n" by simp
  then show ge: "10 ^ (nd2 - 1) \<le> num10 os lo2 nd2" unfolding n num10_Suc diff_Suc_1 by (rule trans_le_add2)
  have "(0::nat) < 10 ^ (nd2 - 1)" by simp
  then show "0 < num10 os lo2 nd2" using ge by linarith
  show "num10 os lo2 nd2 < 10 ^ nd2"
    using assms by (intro num10_less) (auto simp: divisor_def small_def)
qed

lemma div_guess_spec:
  assumes dv: "divisor os d01 lo2 nd2" and t: "small temp" "2 \<le> base" "base + nd2 < length temp"
    and lt: "num10 temp base (Suc nd2) < 10 * num10 os lo2 nd2"
  defines "q \<equiv> num10 temp base (Suc nd2) div num10 os lo2 nd2"
  shows "q \<le> div_guess temp base nd2 d01" "div_guess temp base nd2 d01 \<le> q + 1" "div_guess temp base nd2 d01 \<le> 10"
proof -
  let ?v = "num10 os lo2 nd2" and ?r = "num10 temp base (Suc nd2)"
  have "q < 10" unfolding q_def using lt by (rule less_mult_imp_div_less)
  then have q9: "q \<le> 9" by simp
  have "q \<le> div_guess temp base nd2 d01 \<and> div_guess temp base nd2 d01 \<le> q + 1 \<and> div_guess temp base nd2 d01 \<le> 10"
  proof (cases "nd2 = 1")
    case True
    have v: "?v = os ! lo2" "d01 = 10 * os ! lo2" using dv True by (simp_all add: divisor_def num10_def)
    have "temp ! (base - 1) \<le> 9" using t by (intro small_nth) auto
    then have "(?r * 10 + temp ! (base - 1)) div 10 = ?r" by simp
    then have "(?r * 10 + temp ! (base - 1)) div (10 * ?v) = q" unfolding div_mult2_eq q_def by simp
    moreover have "?r * 10 + temp ! (base - 1) = temp ! (base + nd2) * 100 + temp ! (base + nd2 - 1) * 10 + temp ! (base + nd2 - 2)"
      using True t(2) by (simp add: num10_def algebra_simps)
    ultimately show ?thesis using v q9 by (simp add: div_guess_def)
  next
    case False
    with dv obtain n where n: "nd2 = Suc (Suc n)" by (cases nd2; cases "nd2 - 1") (auto simp: divisor_def)
    have dig: "os ! (lo2 + Suc n) \<noteq> 0" "d01 = os ! (lo2 + Suc n) * 10 + os ! (lo2 + n)"
      using dv n by (auto simp: divisor_def)
    let ?t = "temp ! (base + nd2) * 100 + temp ! (base + nd2 - 1) * 10 + temp ! (base + nd2 - 2)"
    have lo: "num10 os lo2 n < 10 ^ n" using dv n by (intro num10_less) (auto simp: divisor_def small_def)
    have lo': "num10 temp base n < 10 ^ n" using t n by (intro num10_less) (auto simp: small_def)
    have v: "?v = num10 os lo2 n + d01 * 10 ^ n" by (simp add: n dig(2) num10_Suc algebra_simps)
    have r: "?r = num10 temp base n + ?t * 10 ^ n" by (simp add: n num10_Suc algebra_simps)
    have "d01 * 10 ^ n \<le> ?v" "?v < (d01 + 1) * 10 ^ n" using v lo by simp_all
    moreover have "?t * 10 ^ n \<le> ?r" "?r < (?t + 1) * 10 ^ n" using r lo' by simp_all
    moreover have "10 \<le> d01" using dig by simp
    ultimately show ?thesis unfolding div_guess_def q_def by (intro conjI guess_scaled) (use lt in simp_all)
  qed
  then show "q \<le> div_guess temp base nd2 d01" "div_guess temp base nd2 d01 \<le> q + 1" "div_guess temp base nd2 d01 \<le> 10"
    by auto
qed

section \<open>Subtracting a multiple of the divisor\<close>

lemma sub_digit:
  fixes c :: int
  assumes "t \<le> 9" "d \<le> 9" "q \<le> 9" "0 \<le> c" "c \<le> 9"
  defines "n \<equiv> 90 + int t - int d * int q - c"
  shows "0 \<le> n" "n smod 10 = n mod 10" "n sdiv 10 = n div 10" "byte (n mod 10) = nat (n mod 10)"
    "0 \<le> 9 - n div 10" "9 - n div 10 \<le> 9" "int (nat (n mod 10)) = int t - int d * int q - c + (9 - n div 10) * 10"
proof -
  have "int d * int q \<le> 9 * 9" using assms(2,3) by (intro mult_mono) simp_all
  then have dq: "int d * int q \<le> 81" by simp
  have dq0: "0 \<le> int d * int q" by simp
  show n0: "0 \<le> n" using dq assms(4,5) by (simp add: n_def)
  have n99: "n \<le> 99" using assms(1,4) dq0 unfolding n_def by linarith
  show "n smod 10 = n mod 10" "n sdiv 10 = n div 10" 
    using n0 by (cases "n = 0"; simp add: signed_modulo_int_def signed_divide_int_def)+
  show "byte (n mod 10) = nat (n mod 10)" by simp
  show "0 \<le> 9 - n div 10" "9 - n div 10 \<le> 9" using n0 n99 by simp_all
  have "int (nat (n mod 10)) = n - n div 10 * 10" by (simp add: minus_div_mult_eq_mod)
  moreover have "n = 90 + int t - int d * int q - c" by (simp add: n_def)
  moreover have "y = m - k * 10 \<Longrightarrow> m = 90 + a - b - c \<Longrightarrow> y = a - b - c + (9 - k) * 10" for y m k a b :: int
    by simp
  ultimately show "int (nat (n mod 10)) = int t - int d * int q - c + (9 - n div 10) * 10" by blast
qed

lemma sub_digit_carry:
  fixes x t d q c k A B C P c' :: int
  assumes "x = t - d * q - c + k * 10" "A - c' * P = B - q * C - k"
  shows "x + 10 * A - c' * (10 * P) = t + 10 * B - q * (d + 10 * C) - c"
proof -
  have "10 * (A - c' * P) = 10 * (B - q * C - k)" using assms(2) by simp
  with assms(1) show ?thesis by (simp add: algebra_simps)
qed

lemma div_sub_spec:
  "div_sub temp os base lo2 i nd2 q c = (temp', c') \<Longrightarrow> small temp \<Longrightarrow> small os \<Longrightarrow> q \<le> 9 \<Longrightarrow>
   0 \<le> c \<Longrightarrow> c \<le> 9 \<Longrightarrow> i \<le> nd2 \<Longrightarrow> base + nd2 < length temp \<Longrightarrow> lo2 + nd2 \<le> length os \<Longrightarrow>
   small temp' \<and> length temp' = length temp \<and> 0 \<le> c' \<and> c' \<le> 9 \<and>
   (\<forall>k. k < base + i \<or> base + nd2 \<le> k \<longrightarrow> temp' ! k = temp ! k) \<and>
   int (num10 temp' (base + i) (nd2 - i)) - c' * 10 ^ (nd2 - i) =
     int (num10 temp (base + i) (nd2 - i)) - int q * int (num10 os (lo2 + i) (nd2 - i)) - c"
proof (induction "nd2 - i" arbitrary: temp i c)
  case 0
  then show ?case by (simp add: div_sub.simps [of temp])
next
  case (Suc m)
  then have i: "i < nd2" "nd2 - i = Suc m" "nd2 - Suc i = m" by simp_all
  let ?t = "temp ! (base + i)" and ?d = "os ! (lo2 + i)"
  let ?n = "90 + int ?t - int ?d * int q - c"
  let ?temp = "temp[base + i := nat (?n mod 10)]"
  have td: "?t \<le> 9" "?d \<le> 9" using Suc.prems i by (simp_all add: small_nth)
  note sd = sub_digit [OF td Suc.prems(4,5,6)]
  have "div_sub ?temp os base lo2 (Suc i) nd2 q (9 - ?n div 10) = (temp', c')"
    using Suc.prems(1) i(1) sd(2,3,4) by (simp add: div_sub.simps [of temp] Let_def)
  moreover have "small ?temp" using Suc.prems by (intro small_update) (simp_all add: nat_le_iff)
  ultimately have IH: "small temp' \<and> length temp' = length ?temp \<and> 0 \<le> c' \<and> c' \<le> 9 \<and>
     (\<forall>k. k < base + Suc i \<or> base + nd2 \<le> k \<longrightarrow> temp' ! k = ?temp ! k) \<and>
     int (num10 temp' (base + Suc i) (nd2 - Suc i)) - c' * 10 ^ (nd2 - Suc i) =
       int (num10 ?temp (base + Suc i) (nd2 - Suc i)) - int q * int (num10 os (lo2 + Suc i) (nd2 - Suc i)) - (9 - ?n div 10)"
    using Suc.hyps(2) Suc.prems sd(5,6) by (intro Suc.hyps(1)) simp_all
  have ti: "temp' ! (base + i) = nat (?n mod 10)" using IH Suc.prems i by simp
  have same: "num10 ?temp (base + Suc i) m = num10 temp (base + Suc i) m" by (intro num10_cong) simp
  let ?A = "int (num10 temp' (base + Suc i) m)" and ?B = "int (num10 temp (base + Suc i) m)"
    and ?C = "int (num10 os (lo2 + Suc i) m)"
  have "?A - c' * 10 ^ m = ?B - int q * ?C - (9 - ?n div 10)" using IH same i by simp
  from sub_digit_carry [OF sd(7) this]
  have "int (nat (?n mod 10)) + 10 * ?A - c' * 10 ^ Suc m = int ?t + 10 * ?B - int q * (int ?d + 10 * ?C) - c"
    by simp
  then have "int (num10 temp' (base + i) (Suc m)) - c' * 10 ^ Suc m =
      int (num10 temp (base + i) (Suc m)) - int q * int (num10 os (lo2 + i) (Suc m)) - c"
    by (simp add: num10_head ti del: power_Suc)
  moreover have "\<forall>k. k < base + i \<or> base + nd2 \<le> k \<longrightarrow> temp' ! k = temp ! k" using IH i by auto
  ultimately show ?case using IH i by simp
qed

lemma div_borrow_spec:
  "div_borrow temp os base lo2 i nd2 q c = snd (div_sub temp' os base lo2 i nd2 q c)"
  if "\<And>k. i \<le> k \<Longrightarrow> k < nd2 \<Longrightarrow> temp' ! (base + k) = temp ! (base + k)"
  using that
proof (induction "nd2 - i" arbitrary: temp' i c)
  case 0
  then show ?case by (simp add: div_borrow.simps [of temp] div_sub.simps [of temp'])
next
  case (Suc m)
  let ?n = "90 + int (temp ! (base + i)) - int (os ! (lo2 + i)) * int q - c"
  have e: "temp' ! (base + i) = temp ! (base + i)" using Suc.prems Suc.hyps(2) by simp
  have "div_borrow temp os base lo2 (Suc i) nd2 q (9 - ?n sdiv 10) =
      snd (div_sub (temp'[base + i := byte (?n smod 10)]) os base lo2 (Suc i) nd2 q (9 - ?n sdiv 10))"
    using Suc.hyps(2) Suc.prems by (intro Suc.hyps(1)) simp_all
  then show ?case using Suc.hyps(2) e
    by (simp add: div_borrow.simps [of temp os base lo2 i] div_sub.simps [of temp' os base lo2 i] Let_def)
qed

lemma div_addback_spec:
  "div_addback temp os base lo2 i nd2 c = (temp', c') \<Longrightarrow> small temp \<Longrightarrow> small os \<Longrightarrow>
   c \<le> 1 \<Longrightarrow> i \<le> nd2 \<Longrightarrow> base + nd2 < length temp \<Longrightarrow> lo2 + nd2 \<le> length os \<Longrightarrow>
   small temp' \<and> length temp' = length temp \<and> c' \<le> 1 \<and>
   (\<forall>k. k < base + i \<or> base + nd2 \<le> k \<longrightarrow> temp' ! k = temp ! k) \<and>
   num10 temp' (base + i) (nd2 - i) + c' * 10 ^ (nd2 - i) =
     num10 temp (base + i) (nd2 - i) + num10 os (lo2 + i) (nd2 - i) + c"
proof (induction "nd2 - i" arbitrary: temp i c)
  case 0
  then show ?case by (simp add: div_addback.simps [of temp])
next
  case (Suc m)
  then have i: "i < nd2" "nd2 - i = Suc m" "nd2 - Suc i = m" by simp_all
  let ?s = "temp ! (base + i) + os ! (lo2 + i) + c"
  let ?temp = "temp[base + i := ?s mod 10]"
  have td: "temp ! (base + i) \<le> 9" "os ! (lo2 + i) \<le> 9" using Suc.prems i by (simp_all add: small_nth)
  have s: "byte (int (temp ! (base + i)) + int (os ! (lo2 + i)) + int c) = ?s"
    using td Suc.prems by (simp add: nat_add_distrib)
  have s19: "?s < 20" using td Suc.prems by simp
  have "div_addback temp os base lo2 i nd2 c = div_addback ?temp os base lo2 (Suc i) nd2 (?s div 10)"
  proof (cases "10 \<le> ?s")
    case True
    then have "?s mod 10 = ?s - 10" "?s div 10 = 1" using s19 by (simp_all add: mod_if div_if)
    with True i(1) s show ?thesis by (simp add: div_addback.simps [of temp])
  next
    case False
    then have "?s mod 10 = ?s" "?s div 10 = 0" by simp_all
    with False i(1) s show ?thesis by (simp add: div_addback.simps [of temp])
  qed
  then have "div_addback ?temp os base lo2 (Suc i) nd2 (?s div 10) = (temp', c')" using Suc.prems(1) by simp
  moreover have "small ?temp" using Suc.prems by (intro small_update) simp_all
  ultimately have IH: "small temp' \<and> length temp' = length ?temp \<and> c' \<le> 1 \<and>
     (\<forall>k. k < base + Suc i \<or> base + nd2 \<le> k \<longrightarrow> temp' ! k = ?temp ! k) \<and>
     num10 temp' (base + Suc i) (nd2 - Suc i) + c' * 10 ^ (nd2 - Suc i) =
       num10 ?temp (base + Suc i) (nd2 - Suc i) + num10 os (lo2 + Suc i) (nd2 - Suc i) + ?s div 10"
    using Suc.hyps(2) Suc.prems s19 by (intro Suc.hyps(1)) simp_all
  have ti: "temp' ! (base + i) = ?s mod 10" using IH Suc.prems i by simp
  have same: "num10 ?temp (base + Suc i) m = num10 temp (base + Suc i) m" by (intro num10_cong) simp
  let ?A = "num10 temp' (base + Suc i) m" and ?B = "num10 temp (base + Suc i) m"
    and ?C = "num10 os (lo2 + Suc i) m"
  have "?A + c' * 10 ^ m = ?B + ?C + ?s div 10" using IH same i by simp
  then have "10 * (?A + c' * 10 ^ m) = 10 * (?B + ?C + ?s div 10)" by simp
  moreover have "?s mod 10 + 10 * (?s div 10) = ?s" by simp
  ultimately have "?s mod 10 + 10 * ?A + c' * 10 ^ Suc m = temp ! (base + i) + 10 * ?B + (os ! (lo2 + i) + 10 * ?C) + c"
    unfolding distrib_left power_Suc mult.left_commute [of 10 c'] by linarith
  then have "num10 temp' (base + i) (Suc m) + c' * 10 ^ Suc m =
      num10 temp (base + i) (Suc m) + num10 os (lo2 + i) (Suc m) + c"
    by (simp add: num10_head ti del: power_Suc)
  moreover have "\<forall>k. k < base + i \<or> base + nd2 \<le> k \<longrightarrow> temp' ! k = temp ! k" using IH i by auto
  ultimately show ?case using IH i by simp
qed

section \<open>One quotient digit\<close>

text \<open>
  Subtracting \<open>q\<close> times the divisor \<open>v\<close> from the remainder \<open>r\<close> whose leading digit is \<open>top\<close> leaves
  a borrow that tells exactly whether \<open>q\<close> was too large.
\<close>

lemma borrow_decides:
  fixes x c' top P r q v :: int
  assumes eq: "x - c' * P = (r - top * P) - q * v" and x: "0 \<le> x" "x < P" and v: "0 < v" "v \<le> P"
    and q: "q = r div v \<or> q = r div v + 1"
  shows "c' = top \<and> x = r mod v \<and> q = r div v \<or> c' = top + 1 \<and> x = r mod v - v + P \<and> q = r div v + 1"
proof -
  obtain Q M where QM: "Q = r div v" "M = r mod v" by blast
  have r: "r = Q * v + M" and m: "0 \<le> M" "M < v" using v QM by simp_all
  have zero: "k = 0" if "y = k * P" "- P < y" "y < P" for k y :: int
  proof (rule ccontr)
    assume "k \<noteq> 0"
    then have "1 \<le> \<bar>k\<bar>" by simp
    then have "1 * P \<le> \<bar>k\<bar> * P" using x by (intro mult_right_mono) simp_all
    moreover have "\<bar>y\<bar> = \<bar>k\<bar> * P" using that(1) x by (simp add: abs_mult)
    ultimately show False using that(2,3) by linarith
  qed
  from q show ?thesis unfolding QM [symmetric]
  proof
    assume q0: "q = Q"
    have e: "x - M = (c' - top) * P" using eq unfolding q0 r by (simp add: algebra_simps)
    have "c' - top = 0" by (rule zero [OF e]) (use x m v in linarith)+
    then show "c' = top \<and> x = M \<and> q = Q \<or> c' = top + 1 \<and> x = M - v + P \<and> q = Q + 1" using q0 e by simp
  next
    assume q1: "q = Q + 1"
    have e: "x - (M - v + P) = (c' - top - 1) * P" using eq unfolding q1 r by (simp add: algebra_simps)
    have "c' - top - 1 = 0" by (rule zero [OF e]) (use x m v in linarith)+
    then show "c' = top \<and> x = M \<and> q = Q \<or> c' = top + 1 \<and> x = M - v + P \<and> q = Q + 1" using q1 e by simp
  qed
qed

lemma sub_decides:
  assumes dv: "divisor os d01 lo2 nd2" and t: "small temp" "base + nd2 < length temp"
    and lt: "num10 temp base (Suc nd2) < 10 * num10 os lo2 nd2"
    and q: "q \<le> 9" "q = num10 temp base (Suc nd2) div num10 os lo2 nd2 \<or>
      q = num10 temp base (Suc nd2) div num10 os lo2 nd2 + 1"
    and sub: "div_sub temp os base lo2 0 nd2 q 0 = (temp', c')"
  defines "r \<equiv> num10 temp base (Suc nd2)" and "v \<equiv> num10 os lo2 nd2"
  shows "small temp'" "length temp' = length temp" "\<forall>k. k < base \<or> base + nd2 \<le> k \<longrightarrow> temp' ! k = temp ! k"
    "c' = int (temp ! (base + nd2)) \<and> num10 temp' base nd2 = r mod v \<and> q = r div v \<or>
     c' = int (temp ! (base + nd2)) + 1 \<and> num10 temp' base nd2 + v = r mod v + 10 ^ nd2 \<and> q = r div v + 1"
proof -
  have b: "small os" "lo2 + nd2 \<le> length os" using dv by (simp_all add: divisor_def)
  note vb = divisor_bounds [OF dv]
  from div_sub_spec [OF sub t(1) b(1) q(1)] b t
  have S: "small temp'" "length temp' = length temp" "\<forall>k. k < base \<or> base + nd2 \<le> k \<longrightarrow> temp' ! k = temp ! k"
    "int (num10 temp' base nd2) - c' * 10 ^ nd2 = int (num10 temp base nd2) - int q * int v"
    by (auto simp: v_def)
  then show "small temp'" "length temp' = length temp" "\<forall>k. k < base \<or> base + nd2 \<le> k \<longrightarrow> temp' ! k = temp ! k"
    by simp_all
  have xl: "num10 temp' base nd2 < 10 ^ nd2" using S(1,2) t(2) by (intro num10_less small_nth) simp_all
  have rtop: "int (num10 temp base nd2) = int r - int (temp ! (base + nd2)) * 10 ^ nd2"
    by (simp add: r_def num10_Suc)
  have "c' = int (temp ! (base + nd2)) \<and> int (num10 temp' base nd2) = int r mod int v \<and> int q = int r div int v \<or>
    c' = int (temp ! (base + nd2)) + 1 \<and> int (num10 temp' base nd2) = int r mod int v - int v + 10 ^ nd2 \<and> int q = int r div int v + 1"
  proof (rule borrow_decides)
    show "int (num10 temp' base nd2) - c' * 10 ^ nd2 = int r - int (temp ! (base + nd2)) * 10 ^ nd2 - int q * int v"
      using S(4) rtop by simp
    show "int (num10 temp' base nd2) < 10 ^ nd2" using xl by (metis of_nat_less_iff of_nat_numeral of_nat_power)
    show "int v \<le> 10 ^ nd2" using vb(2) unfolding v_def by (metis of_nat_le_iff of_nat_numeral of_nat_power less_imp_le)
    show "0 < int v" using vb(3) by (simp add: v_def)
    show "int q = int r div int v \<or> int q = int r div int v + 1"
      using q(2) unfolding r_def v_def by (metis of_nat_1 of_nat_add zdiv_int)
  qed simp
  then show "c' = int (temp ! (base + nd2)) \<and> num10 temp' base nd2 = r mod v \<and> q = r div v \<or>
     c' = int (temp ! (base + nd2)) + 1 \<and> num10 temp' base nd2 + v = r mod v + 10 ^ nd2 \<and> q = r div v + 1"
  proof (elim disjE conjE)
    assume "int (num10 temp' base nd2) = int r mod int v" "int q = int r div int v" "c' = int (temp ! (base + nd2))"
    then show ?thesis by (metis of_nat_eq_iff zdiv_int zmod_int)
  next
    assume a: "int (num10 temp' base nd2) = int r mod int v - int v + 10 ^ nd2" "int q = int r div int v + 1"
      "c' = int (temp ! (base + nd2)) + 1"
    have "int (num10 temp' base nd2 + v) = int (r mod v + 10 ^ nd2)" using a(1) by (simp add: zmod_int)
    moreover have "int q = int (r div v + 1)" using a(2) by (simp add: zdiv_int)
    ultimately show ?thesis using a(3) by (metis of_nat_eq_iff)
  qed
qed

text \<open>The assertions of the loop body hold and the digit is the exact quotient digit.\<close>

lemma div_step_spec:
  assumes dv: "divisor os d01 lo2 nd2" and t: "small temp" "3 + iter + nd2 < length temp"
    and lt: "num10 temp (3 + iter) (Suc nd2) < 10 * num10 os lo2 nd2"
  defines "r \<equiv> num10 temp (3 + iter) (Suc nd2)" and "v \<equiv> num10 os lo2 nd2"
  obtains temp' where "div_step temp os d01 lo2 nd2 iter = Inr (temp', r div v)" "small temp'"
    "length temp' = length temp" "\<forall>k < 3 + iter. temp' ! k = temp ! k" "num10 temp' (3 + iter) nd2 = r mod v"
    "r div v \<le> 9"
proof -
  let ?b = "3 + iter"
  note vb = divisor_bounds [OF dv]
  have b: "small os" "lo2 + nd2 \<le> length os" using dv by (simp_all add: divisor_def)
  have "r div v < 10" using lt unfolding r_def v_def by (rule less_mult_imp_div_less)
  then have q9: "r div v \<le> 9" by simp
  define g where "g = div_guess temp ?b nd2 d01"
  define q where "q = (if g = 10 then g - 1 else g)"
  note step = div_step_def [of temp os d01 lo2 nd2 iter, unfolded Let_def, folded g_def, folded q_def]
  have "r div v \<le> g" "g \<le> r div v + 1" "g \<le> 10"
    using div_guess_spec [OF dv t(1) _ t(2) lt] by (simp_all add: g_def r_def v_def)
  then have q: "q \<le> 9" "q = r div v \<or> q = r div v + 1" using q9 by (auto simp: q_def)
  show ?thesis
  proof (cases "q = 0")
    case True
    then have rv: "r div v = 0" using q by auto
    then have "r < v" using vb(3) by (simp add: v_def div_eq_0_iff)
    then have rm: "r mod v = r" by simp
    have "v < 10 ^ nd2" using vb(2) by (simp add: v_def)
    then have "temp ! (?b + nd2) * 10 ^ nd2 < 10 ^ nd2"
      using \<open>r < v\<close> unfolding r_def num10_Suc by linarith
    then have "num10 temp ?b nd2 = r" by (simp add: r_def num10_Suc)
    moreover have "div_step temp os d01 lo2 nd2 iter = Inr (temp, r div v)"
      using True rv by (simp add: step)
    ultimately show ?thesis using that [of temp] t rm rv by simp
  next
    case False
    obtain temp1 c1 where sub: "div_sub temp os ?b lo2 0 nd2 q 0 = (temp1, c1)" by fastforce
    note S = sub_decides [OF dv t(1) t(2) lt q(1) q(2) [unfolded r_def v_def] sub, folded r_def v_def]
    have top: "temp1 ! (?b + nd2) = temp ! (?b + nd2)" using S(3) by simp
    from S(4) show ?thesis
    proof (elim disjE conjE)
      assume "c1 = int (temp ! (?b + nd2))" "num10 temp1 ?b nd2 = r mod v" "q = r div v"
      moreover from this have "div_step temp os d01 lo2 nd2 iter = Inr (temp1, r div v)"
        using False sub top by (simp add: step)
      ultimately show ?thesis using that [of temp1] S(1-3) q9 by simp
    next
      assume c1: "c1 = int (temp ! (?b + nd2)) + 1" and x: "num10 temp1 ?b nd2 + v = r mod v + 10 ^ nd2"
        and q1: "q = r div v + 1"
      obtain temp2 c2 where add: "div_addback temp1 os ?b lo2 0 nd2 0 = (temp2, c2)" by fastforce
      from div_addback_spec [OF add S(1) b(1)] b S(2) t
      have A: "small temp2" "length temp2 = length temp" "c2 \<le> 1"
        "\<forall>k. k < ?b \<or> ?b + nd2 \<le> k \<longrightarrow> temp2 ! k = temp1 ! k"
        "num10 temp2 ?b nd2 + c2 * 10 ^ nd2 = r mod v + 10 ^ nd2"
        using x by (auto simp: v_def)
      have "num10 temp2 ?b nd2 < 10 ^ nd2" using A t by (intro num10_less small_nth) simp_all
      then have "c2 \<noteq> 0" using A(5) by (cases "c2 = 0") auto
      then have c2: "c2 = 1" using A(3) by simp
      then have "num10 temp2 ?b nd2 = r mod v" using A(5) by simp
      moreover have "div_step temp os d01 lo2 nd2 iter = Inr (temp2, r div v)"
        using False sub add top c1 c2 q1 by (simp add: step)
      ultimately show ?thesis using that [of temp2] A S(3) q9 by simp
    qed
  qed
qed

section \<open>The long division\<close>

lemma div_loop_spec:
  assumes dv: "divisor os d01 lo2 nd2"
  defines "v \<equiv> num10 os lo2 nd2"
  shows "small temp \<Longrightarrow> 3 + iters + nd2 \<le> length temp \<Longrightarrow> digits_ok ds \<Longrightarrow>
    num10 temp (3 + iters) nd2 < v \<Longrightarrow> x = num10 temp 3 (iters + nd2) \<Longrightarrow>
    \<exists>temp' ds'. div_loop temp ds os d01 lo2 nd2 iters = Inr (temp', ds') \<and> small temp' \<and>
      length temp' = length temp \<and> (\<forall>k < 3. temp' ! k = temp ! k) \<and> num10 temp' 3 nd2 = x mod v \<and>
      digits_ok ds' \<and> (\<forall>k. iters \<le> k \<longrightarrow> ds' ! k = ds ! k) \<and>
      seg10 ds' 0 (min iters 64) = (x div v) mod 10 ^ 64 \<and> x div v < 10 ^ iters"
proof (induction iters arbitrary: temp ds x)
  case 0
  then show ?case by (simp add: v_def)
next
  case (Suc j)
  let ?r = "num10 temp (3 + j) (Suc nd2)"
  have v0: "0 < v" using divisor_bounds(3) [OF dv] by (simp add: v_def)
  have t9: "temp ! (3 + j) \<le> 9" using Suc.prems by (intro small_nth) simp_all
  have r: "?r = temp ! (3 + j) + 10 * num10 temp (3 + Suc j) nd2" by (simp add: num10_head)
  have lt: "?r < 10 * v" using r t9 Suc.prems(4) by linarith
  obtain temp1 where st: "div_step temp os d01 lo2 nd2 j = Inr (temp1, ?r div v)" "small temp1"
    "length temp1 = length temp" "\<forall>k < 3 + j. temp1 ! k = temp ! k" "num10 temp1 (3 + j) nd2 = ?r mod v" "?r div v \<le> 9"
    using div_step_spec [OF dv Suc.prems(1), of j] Suc.prems(2) lt unfolding v_def by auto
  let ?ds = "if j < 64 then ds[j := ?r div v] else ds"
  let ?y = "num10 temp1 3 (j + nd2)"
  have ok: "digits_ok ?ds" using Suc.prems(3) st(6) by (simp add: digits_ok_update)
  have low: "num10 temp1 3 j = num10 temp 3 j" using st(4) by (intro num10_cong) simp
  have x: "x = num10 temp 3 j + ?r * 10 ^ j"
    using Suc.prems(5) num10_add [of temp 3 j "Suc nd2"] by (simp add: add.commute)
  have y: "?y = num10 temp 3 j + ?r mod v * 10 ^ j"
    using num10_add [of temp1 3 j nd2] low st(5) by (simp add: add.commute)
  have "?r div v * 10 ^ j * v + ?r mod v * 10 ^ j = (?r div v * v + ?r mod v) * 10 ^ j"
    unfolding distrib_right by (simp only: ac_simps)
  then have xy: "x = ?y + ?r div v * 10 ^ j * v" using x y by simp
  have "\<exists>temp' ds'. div_loop temp1 ?ds os d01 lo2 nd2 j = Inr (temp', ds') \<and> small temp' \<and>
      length temp' = length temp1 \<and> (\<forall>k < 3. temp' ! k = temp1 ! k) \<and> num10 temp' 3 nd2 = ?y mod v \<and>
      digits_ok ds' \<and> (\<forall>k. j \<le> k \<longrightarrow> ds' ! k = ?ds ! k) \<and>
      seg10 ds' 0 (min j 64) = (?y div v) mod 10 ^ 64 \<and> ?y div v < 10 ^ j"
    using st(2,3,5) ok Suc.prems(2) v0 by (intro Suc.IH) simp_all
  then obtain temp' ds' where IH: "div_loop temp1 ?ds os d01 lo2 nd2 j = Inr (temp', ds')" "small temp'"
    "length temp' = length temp" "\<forall>k < 3. temp' ! k = temp1 ! k" "num10 temp' 3 nd2 = ?y mod v" "digits_ok ds'"
    "\<forall>k. j \<le> k \<longrightarrow> ds' ! k = ?ds ! k" "seg10 ds' 0 (min j 64) = (?y div v) mod 10 ^ 64" "?y div v < 10 ^ j"
    using st(3) by auto
  have div: "x div v = ?y div v + ?r div v * 10 ^ j" and md: "x mod v = ?y mod v" using v0 by (simp_all add: xy)
  have "?r div v * 10 ^ j \<le> 9 * 10 ^ j" using st(6) by (intro mult_right_mono) simp_all
  moreover have "10 ^ Suc j = 10 ^ j + 9 * (10 ^ j :: nat)" by simp
  ultimately have small_q: "x div v < 10 ^ Suc j" using IH(9) div by linarith
  have "seg10 ds' 0 (min (Suc j) 64) = (x div v) mod 10 ^ 64"
  proof (cases "j < 64")
    case True
    then have m: "min (Suc j) 64 = Suc j" "min j 64 = j" by simp_all
    have p: "(10::nat) ^ Suc j \<le> 10 ^ 64" using True by (intro power_increasing) simp_all
    have x64: "x div v < 10 ^ 64" using small_q p by (rule less_le_trans)
    then have "?y div v < 10 ^ 64" "x div v < 10 ^ 64" using div by linarith+
    moreover have "ds' ! j = ?r div v" using IH(7) True Suc.prems(3) by (simp add: digits_ok_length)
    ultimately show ?thesis using IH(8) div unfolding m by (simp add: seg10_Suc)
  next
    case False
    then have "(10::nat) ^ 64 dvd ?r div v * 10 ^ j" by (intro dvd_mult le_imp_power_dvd) simp
    then have "(x div v) mod 10 ^ 64 = (?y div v) mod 10 ^ 64" unfolding div by (metis dvd_def mod_mult_self2)
    moreover have "min (Suc j) 64 = 64" "min j 64 = 64" using False by simp_all
    ultimately show ?thesis using IH(8) by simp
  qed
  moreover have "\<forall>k. Suc j \<le> k \<longrightarrow> ds' ! k = ds ! k" using IH(7) by auto
  moreover have "\<forall>k < 3. temp' ! k = temp ! k" using IH(4) st(4) by simp
  ultimately show ?case using st(1) IH(1,2,3,5,6) md small_q by simp
qed

section \<open>Rounding\<close>

lemma div_rounds_up_spec:
  assumes dv: "divisor os d01 lo2 nd2" and t: "small temp" "3 + nd2 \<le> length temp" "temp ! 2 = 0"
    and r: "num10 temp 3 nd2 < num10 os lo2 nd2"
  shows "div_rounds_up temp os d01 lo2 nd2 \<longleftrightarrow> num10 os lo2 nd2 \<le> 2 * num10 temp 3 nd2"
proof -
  let ?v = "num10 os lo2 nd2" and ?r = "num10 temp 2 (Suc nd2)" and ?m = "num10 temp 3 nd2"
  have v0: "0 < ?v" using divisor_bounds(3) [OF dv] .
  have r10: "?r = 10 * ?m" using t(3) by (simp add: num10_head eval_nat_numeral)
  have lt: "?r < 10 * ?v" using r r10 by simp
  define g where "g = div_guess temp 2 nd2 d01"
  have g: "?r div ?v \<le> g" "g \<le> ?r div ?v + 1"
    using div_guess_spec [OF dv t(1) _ _ lt] t(2) by (simp_all add: g_def)
  have iff: "5 \<le> ?r div ?v \<longleftrightarrow> ?v \<le> 2 * ?m"
    using v0 by (simp add: r10 less_eq_div_iff_mult_less_eq)
  have "div_rounds_up temp os d01 lo2 nd2 \<longleftrightarrow> 5 \<le> ?r div ?v"
  proof (cases "g = 5")
    case False
    then have "div_rounds_up temp os d01 lo2 nd2 \<longleftrightarrow> 5 \<le> g"
      by (simp add: div_rounds_up_def Let_def flip: g_def)
    then show ?thesis using False g by linarith
  next
    case True
    obtain temp' c' where sub: "div_sub temp os 2 lo2 0 nd2 5 0 = (temp', c')" by fastforce
    have "div_borrow temp os 2 lo2 0 nd2 5 0 = c'"
      using div_borrow_spec [of 0 nd2 temp 2 temp os lo2 5 0] sub by simp
    then have up: "div_rounds_up temp os d01 lo2 nd2 \<longleftrightarrow> (c' - int (temp ! (2 + nd2))) mod 2 ^ 32 = 0"
      using True by (simp add: div_rounds_up_def Let_def flip: g_def)
    have q: "5 = ?r div ?v \<or> 5 = ?r div ?v + 1" using g True by linarith
    have "2 + nd2 < length temp" using t(2) by simp
    from sub_decides(4) [OF dv t(1) this lt _ q sub] show ?thesis unfolding up by auto
  qed
  then show ?thesis using iff by simp
qed

lemma round_up_loop_spec:
  "digits_ok ds \<Longrightarrow> i \<le> n \<Longrightarrow> n \<le> 64 \<Longrightarrow>
   \<exists>ds'. round_up_loop ds i n = Inr ds' \<and> digits_ok ds' \<and> (\<forall>k. k < i \<or> n \<le> k \<longrightarrow> ds' ! k = ds ! k) \<and>
     (seg10 ds' i n = seg10 ds i n + 10 ^ i \<or> seg10 ds' i n = 0 \<and> seg10 ds i n + 10 ^ i = 10 ^ n)"
proof (induction "n - i" arbitrary: ds i)
  case 0
  then show ?case by (auto simp: round_up_loop.simps [of ds])
next
  case (Suc m)
  then have i: "i < n" "i < 64" by simp_all
  have r: "rd ds (int i) = Inr (ds ! i)" and w: "wr ds (int i) y = Inr (ds[i := y])" for y
    using i Suc.prems by (simp_all add: rd_def wr_def digits_ok_length)
  have le: "ds ! i \<le> 9" using i Suc.prems by (simp add: digits_ok_nth)
  have h: "seg10 ds i n = ds ! i * 10 ^ i + seg10 ds (Suc i) n" using i by (simp add: seg10_head)
  show ?case
  proof (cases "ds ! i = 9")
    case False
    let ?ds = "ds[i := ds ! i + 1]"
    have "round_up_loop ds i n = Inr ?ds" using i r w False by (simp add: round_up_loop.simps [of ds])
    moreover have "digits_ok ?ds" using Suc.prems le False by (intro digits_ok_update) simp_all
    moreover have "seg10 ?ds i n = seg10 ds i n + 10 ^ i"
      using seg10_update [of i i n ds "ds ! i + 1"] i Suc.prems by (simp add: digits_ok_length)
    ultimately show ?thesis using i by auto
  next
    case True
    let ?ds = "ds[i := 0]"
    have s: "round_up_loop ds i n = round_up_loop ?ds (Suc i) n"
      using i r w True by (simp add: round_up_loop.simps [of ds])
    obtain ds' where IH: "round_up_loop ?ds (Suc i) n = Inr ds'" "digits_ok ds'"
      "\<forall>k. k < Suc i \<or> n \<le> k \<longrightarrow> ds' ! k = ?ds ! k"
      "seg10 ds' (Suc i) n = seg10 ?ds (Suc i) n + 10 ^ Suc i \<or>
       seg10 ds' (Suc i) n = 0 \<and> seg10 ?ds (Suc i) n + 10 ^ Suc i = 10 ^ n"
      using Suc.hyps(1) [of "Suc i" ?ds, OF _ digits_ok_update] Suc.hyps(2) Suc.prems i by fastforce
    have "ds' ! i = 0" using IH(3) i Suc.prems by (simp add: digits_ok_length)
    then have "seg10 ds' i n = seg10 ds' (Suc i) n" using i by (simp add: seg10_head)
    then have "seg10 ds' i n = seg10 ds i n + 10 ^ i \<or> seg10 ds' i n = 0 \<and> seg10 ds i n + 10 ^ i = 10 ^ n"
      using IH(4) h True by auto
    moreover have "\<forall>k. k < i \<or> n \<le> k \<longrightarrow> ds' ! k = ds ! k" using IH(3) i by auto
    ultimately show ?thesis using s IH(1,2) by auto
  qed
qed

section \<open>The whole division\<close>

text \<open>
  The result in terms of the number \<open>x\<close> that was copied into the buffer: the quotient by the digits
  of the divisor, rounded half up, with a carry out of the leading quotient digit dropped.
\<close>

lemma divide_by_numerator:
  assumes wf: "dec_wf d" "dec_wf other" and c: "clip d = (lo1, hi1)" "clip other = (lo2, hi2)" "lo2 \<le> hi2"
    and hi: "hi = hi1 - hi2 + 32" "0 \<le> hi" "hi < 64" and nd2: "nd2 = nat (hi2 + 1 - lo2)"
    and num: "div_numerator d lo1 hi1 (hi + 1 + int nd2) = Inr temp" "small temp"
      "length temp = nat (hi + 1) + nd2 + 3" "temp ! 2 = 0" "temp ! (length temp - 1) = 0"
  defines "x \<equiv> num10 temp 3 (nat (hi + 1) + nd2)" and "v \<equiv> num10 (digits other) (nat lo2) nd2"
  shows "\<exists>e. divide d other = Inr e \<and> dec_wf e \<and> lsb e = 0 \<and> msb e = nat hi \<and>
    negative e = (negative d \<noteq> negative other) \<and>
    dval e = ((2 * x + v) div (2 * v)) mod 10 ^ nat (hi + 1)"
proof -
  note c2 = clip_nonempty [OF c(2,3)]
  let ?n = "nat (hi + 1)" and ?os = "digits other"
  define d01 where "d01 = ?os ! nat hi2 * 10 + (if hi2 \<noteq> lo2 then ?os ! nat (hi2 - 1) else 0)"
  have os: "small ?os" "length ?os = 64" "digits_ok (digits d)"
    using wf by (auto simp: dec_wf_def small_def digits_ok_nth digits_ok_length)
  have pos: "nat lo2 + nd2 = Suc (nat hi2)" "0 < nd2" "nat hi2 < 64" "nd2 = 1 \<longleftrightarrow> hi2 = lo2"
    using c(3) c2(1,3) nd2 dec_wfD(2) [OF wf(2)] by auto
  have "nat (hi2 - 1) = nat lo2 + nd2 - 2" using c2(1) c(3) nd2 by auto
  then have dv: "divisor ?os d01 (nat lo2) nd2"
    using os c2(5) pos by (auto simp: divisor_def d01_def)
  note vb = divisor_bounds [OF dv, folded v_def]
  have top: "num10 temp (3 + ?n) nd2 < v"
  proof -
    obtain m where m: "nd2 = Suc m" using pos(2) by (cases nd2) auto
    have "3 + ?n + m = length temp - 1" using num(3) m by simp
    then have "temp ! (3 + ?n + m) = 0" using num(5) by (simp only:)
    then have "num10 temp (3 + ?n) nd2 = num10 temp (3 + ?n) m" by (simp add: m num10_Suc)
    also have "\<dots> < 10 ^ m" using num(2,3) m by (intro num10_less small_nth) simp_all
    also have "\<dots> \<le> v" using vb(1) m by simp
    finally show ?thesis .
  qed
  obtain temp' ds where L: "div_loop temp (digits d) ?os d01 (nat lo2) nd2 ?n = Inr (temp', ds)" "small temp'"
    "length temp' = length temp" "\<forall>k < 3. temp' ! k = temp ! k" "num10 temp' 3 nd2 = x mod v" "digits_ok ds"
    "seg10 ds 0 (min ?n 64) = (x div v) mod 10 ^ 64" "x div v < 10 ^ ?n"
    using div_loop_spec [OF dv num(2) _ os(3) top [unfolded v_def] refl] num(3)
    unfolding x_def v_def by auto
  have n64: "min ?n 64 = ?n" "(10::nat) ^ ?n \<le> 10 ^ 64"
    using hi(2,3) power_increasing [of ?n 64 "10::nat"] by auto
  have q: "seg10 ds 0 ?n = x div v" using L(7,8) n64 by simp
  have up: "div_rounds_up temp' ?os d01 (nat lo2) nd2 \<longleftrightarrow> v \<le> 2 * (x mod v)"
    using div_rounds_up_spec [OF dv L(2)] L(3,4,5) num(3,4) vb(3) unfolding v_def by simp
  let ?R = "(2 * x + v) div (2 * v)"
  have R: "?R = x div v + (if v \<le> 2 * (x mod v) then 1 else 0)" by (rule round_half_up [OF vb(3)])
  obtain ds' where D: "(if div_rounds_up temp' ?os d01 (nat lo2) nd2 then round_up_loop ds 0 ?n else Inr ds) = Inr ds'"
    "digits_ok ds'" "seg10 ds' 0 ?n = ?R mod 10 ^ ?n"
  proof (cases "v \<le> 2 * (x mod v)")
    case False
    then show ?thesis using that [of ds] up L(6,8) q R by simp
  next
    case True
    obtain ds' where U: "round_up_loop ds 0 ?n = Inr ds'" "digits_ok ds'"
      "seg10 ds' 0 ?n = seg10 ds 0 ?n + 1 \<or> seg10 ds' 0 ?n = 0 \<and> seg10 ds 0 ?n + 1 = 10 ^ ?n"
      using round_up_loop_spec [OF L(6), of 0 ?n] n64(1) by (auto simp: min_def split: if_splits)
    have "seg10 ds' 0 ?n < 10 ^ ?n" using U(2) hi by (intro seg10_less digits_ok_nth) auto
    then have "seg10 ds' 0 ?n = ?R mod 10 ^ ?n" using U(3) q R True by auto
    then show ?thesis using that [of ds'] up True U(1,2) by simp
  qed
  let ?e = "d\<lparr>digits := ds', lsb := 0, msb := nat hi, negative := (negative d \<noteq> negative other)\<rparr>"
  have "divide d other = Inr ?e"
  proof -
    have nn: "hi2 + 1 - lo2 = int nd2" using nd2 c(3) by simp
    have hh: "hi1 - hi2 + int 32 = hi" "\<not> hi < 0" "\<not> hi2 < lo2" "\<not> hi \<ge> int 64" using hi c(3) by auto
    show ?thesis
      unfolding divide_def c Let_def prod.case nn hh if_not_P [OF hh(2)] if_not_P [OF hh(3)] if_not_P [OF hh(4)]
        num(1) res_bind_simps d01_def [symmetric] nat_int L(1) D(1)
      using hi by simp
  qed
  moreover have "dec_wf ?e" using D(2) hi by (simp add: dec_wf_def nat_less_iff)
  moreover have "dval ?e = ?R mod 10 ^ ?n" using D(3) hi by (simp add: dval_def Suc_nat_eq_nat_zadd1 add.commute)
  ultimately show ?thesis by auto
qed

text \<open>
  The copy keeps all of the numerator when its last digit is not below the last place of the quotient's
  remainder, that is when \<open>lo2 \<le> lo1 + 32\<close>.
\<close>

lemma clip_lo_le: "clip d = (lo, hi) \<Longrightarrow> lsb d \<le> Suc (msb d) \<Longrightarrow> lo \<le> hi + 1"
  using clip_lo_spec [of "int (lsb d)" "digits d" "int (msb d)"] clip_hi_spec [of "digits d" lo "int (msb d)"]
  by (cases "lsb d = Suc (msb d)") (auto simp: clip_def Let_def)

lemma clip_dval:
  assumes c: "clip d = (lo, hi)" and r: "lsb d \<le> Suc (msb d)"
  shows "dval d = num10 (digits d) (nat lo) (nat (hi + 1 - lo)) * 10 ^ nat lo"
proof (cases "lo \<le> hi")
  case True
  note n = clip_nonempty [OF c True]
  have "Suc (nat hi) = nat lo + nat (hi + 1 - lo)" using True n(1) by auto
  then show ?thesis using n(6) by (simp add: seg10_num10)
next
  case False
  then show ?thesis using clip_empty [OF c] by simp
qed

lemma memcpy_nth:
  assumes "0 \<le> n" "0 \<le> dst" "dst + n \<le> int (length xs)" "0 \<le> src" "src + n \<le> int (length ys)"
  shows "\<exists>zs. memcpy xs dst ys src n = Inr zs \<and> length zs = length xs \<and>
    (\<forall>i < length xs. zs ! i = (if nat dst \<le> i \<and> i < nat (dst + n) then ys ! (nat src + i - nat dst) else xs ! i))"
proof -
  let ?zs = "take (nat dst) xs @ take (nat n) (drop (nat src) ys) @ drop (nat (dst + n)) xs"
  obtain a b c where n: "n = int a" "dst = int b" "src = int c" using assms(1,2,4) nonneg_int_cases by metis
  have l: "b + a \<le> length xs" "c + a \<le> length ys" using assms n by linarith+
  have "?zs ! i = (if nat dst \<le> i \<and> i < nat (dst + n) then ys ! (nat src + i - nat dst) else xs ! i)"
    if "i < length xs" for i
    using l that by (auto simp: n nth_append min_def nat_int_add not_le not_less add.commute
      intro!: arg_cong [of _ _ "(!) ys"] arg_cong [of _ _ "(!) xs"])
  moreover have "length ?zs = length xs" using l by (simp add: n nat_int_add)
  ultimately show ?thesis using assms by (simp add: memcpy_def)
qed

lemma div_numerator_spec:
  assumes wf: "dec_wf d" and c: "clip d = (lo1, hi1)" "lsb d \<le> Suc (msb d)"
    and s: "nD = hi1 + 1 - lo1 + int s + 1"
  shows "\<exists>temp. div_numerator d lo1 hi1 nD = Inr temp \<and> small temp \<and> length temp = nat nD + 3 \<and>
    temp ! 2 = 0 \<and> temp ! (length temp - 1) = 0 \<and>
    num10 temp 3 (nat nD) = num10 (digits d) (nat lo1) (nat (hi1 + 1 - lo1)) * 10 ^ s"
proof -
  note b = clip_range_bounds [OF c(1)] and w = dec_wfD [OF wf]
  obtain a where a: "hi1 + 1 - lo1 = int a" using clip_lo_le [OF c] by (metis nonneg_int_cases diff_ge_0_iff_ge)
  have lo: "0 \<le> lo1" "lo1 + int a \<le> 64" using a b w by linarith+
  have nD: "nD = int (a + s + 1)" "nat nD = a + s + 1" using s a by auto
  let ?t = "replicate (nat nD + 3) (0::nat)"
  have l: "length (digits d) = 64" using w by (simp add: digits_ok_length)
  have off: "int spare + nD - 1 - (hi1 + 1 - lo1) = int (3 + s)" using nD(1) a by simp
  obtain temp where t: "memcpy ?t (int (3 + s)) (digits d) lo1 (int a) = Inr temp" "length temp = nat nD + 3"
    "\<forall>i < nat nD + 3. temp ! i = (if nat (int (3 + s)) \<le> i \<and> i < nat (int (3 + s) + int a)
      then digits d ! (nat lo1 + i - nat (int (3 + s))) else ?t ! i)"
    using memcpy_nth [of "int a" "int (3 + s)" ?t lo1 "digits d"] lo l nD by auto
  have nth: "temp ! i = (if 3 + s \<le> i \<and> i < 3 + s + a then digits d ! (nat lo1 + i - (3 + s)) else 0)"
    if "i < nat nD + 3" for i
  proof -
    have "nat (int (3 + s) + int a) = 3 + s + a" "nat (int (3 + s)) = 3 + s" by linarith+
    then show ?thesis using t(3) that by (simp only: nth_replicate)
  qed
  have "a < 2 ^ 32" using lo by simp
  then have "nD > (hi1 + 1 - lo1) mod 2 ^ 32" unfolding a nD(1) by simp
  then have "div_numerator d lo1 hi1 nD = Inr temp"
    using t(1) unfolding div_numerator_def Let_def off by (simp add: a)
  moreover have "small temp"
    unfolding small_def using nth t(2) w(1) lo by (auto simp: digits_ok_nth)
  moreover have "temp ! 2 = 0" "temp ! (length temp - 1) = 0" using nth t(2) nD(2) by auto
  moreover have "num10 temp 3 (nat nD) = num10 (digits d) (nat lo1) a * 10 ^ s"
  proof -
    have "nat nD = s + (a + 1)" using nD(2) by simp
    then have "num10 temp 3 (nat nD) = num10 temp 3 s + num10 temp (3 + s) (a + 1) * 10 ^ s" by (simp only: num10_add)
    moreover have "num10 temp 3 s = 0" using nth nD(2) by (simp add: num10_def)
    moreover have "num10 temp (3 + s) (a + 1) = num10 temp (3 + s) a" using nth nD(2) by (simp add: num10_Suc)
    moreover have "num10 temp (3 + s) a = num10 (digits d) (nat lo1) a" using nth nD(2) by (intro num10_cong) simp
    ultimately show ?thesis by simp
  qed
  ultimately show ?thesis using t(2) a by auto
qed

lemma div_cancel_scale:
  assumes "0 < k"
  shows "(2 * (x * k) + v * k) div (2 * (v * k)) = (2 * x + v) div (2 * (v::nat))"
proof -
  have "2 * (x * k) + v * k = k * (2 * x + v)" "2 * (v * k) = k * (2 * v)" by (simp_all add: algebra_simps)
  then show ?thesis using assms by (simp only: div_mult_mult1)
qed

text \<open>
  \<^verbatim>\<open>divide\<close>: when the quotient's digits fit the array, and the divisor's last non-zero digit is not
  more than 32 places above the dividend's, the quotient is the exact quotient rounded half away
  from zero to 32 fractional digits, with the sign of the quotient. In particular the digit
  estimates never trip the two assertions of the long division, and no index leaves its array.
\<close>

lemma divide_spec:
  assumes wf: "dec_wf d" "dec_wf e" "lsb d \<le> Suc (msb d)" and nz: "dval e \<noteq> 0"
    and cov: "fst (clip e) \<le> fst (clip d) + 32"
    and hi: "hi = snd (clip d) - snd (clip e) + 32" "0 \<le> hi" "hi < 64"
    and fits: "(2 * (dval d * 10 ^ 32) + dval e) div (2 * dval e) < 10 ^ nat (hi + 1)"
  shows "\<exists>q. divide d e = Inr q \<and> dec_wf q \<and> lsb q = 0 \<and> msb q = nat hi \<and>
    sval q = flip (negative d \<noteq> negative e) (int ((2 * (dval d * 10 ^ 32) + dval e) div (2 * dval e)))"
proof -
  obtain lo1 hi1 lo2 hi2 where c: "clip d = (lo1, hi1)" "clip e = (lo2, hi2)" by (meson surj_pair)
  have lh: "lo2 \<le> hi2" using clip_iff_zero [OF c(2)] nz by simp
  note c2 = clip_nonempty [OF c(2) lh]
  define nd2 where "nd2 = nat (hi2 + 1 - lo2)"
  define s where "s = nat (32 + lo1 - lo2)"
  let ?a = "num10 (digits d) (nat lo1) (nat (hi1 + 1 - lo1))" and ?v = "num10 (digits e) (nat lo2) nd2"
  have nD: "hi + 1 + int nd2 = hi1 + 1 - lo1 + int s + 1" using hi(1) cov c lh by (simp add: nd2_def s_def)
  obtain temp where t: "div_numerator d lo1 hi1 (hi + 1 + int nd2) = Inr temp" "small temp"
    "length temp = nat (hi + 1 + int nd2) + 3" "temp ! 2 = 0" "temp ! (length temp - 1) = 0"
    "num10 temp 3 (nat (hi + 1 + int nd2)) = ?a * 10 ^ s"
    using div_numerator_spec [OF wf(1) c(1) wf(3) nD] by auto
  have n: "nat (hi + 1 + int nd2) = nat (hi + 1) + nd2" using hi(2) by simp
  have dd: "dval d * 10 ^ 32 = ?a * 10 ^ s * 10 ^ nat lo2"
  proof -
    have "nat lo1 + 32 = s + nat lo2" using cov c clip_range_bounds(1) [OF c(1)] c2(1) by (simp add: s_def)
    then have "(10::nat) ^ nat lo1 * 10 ^ 32 = 10 ^ s * 10 ^ nat lo2" by (simp only: flip: power_add)
    then show ?thesis using clip_dval [OF c(1) wf(3)] by (simp only: mult.assoc)
  qed
  have "lsb e \<le> Suc (msb e)" using c2 lh by linarith
  then have de: "dval e = ?v * 10 ^ nat lo2" using clip_dval [OF c(2)] by (simp add: nd2_def)
  have R: "(2 * (dval d * 10 ^ 32) + dval e) div (2 * dval e) = (2 * (?a * 10 ^ s) + ?v) div (2 * ?v)"
    unfolding dd de by (rule div_cancel_scale) simp
  obtain q where "divide d e = Inr q" "dec_wf q" "lsb q = 0" "msb q = nat hi" "negative q = (negative d \<noteq> negative e)"
    "dval q = ((2 * (?a * 10 ^ s) + ?v) div (2 * ?v)) mod 10 ^ nat (hi + 1)"
    using divide_by_numerator [OF wf(1,2) c lh _ hi(2,3) nd2_def t(1,2) _ t(4,5)] hi(1) t(3,6) c unfolding n by auto
  then show ?thesis using fits unfolding R by (auto simp: sval_flip)
qed

end
