(* ===== verification/Nbcd_Int.thy ===== *)
theory Nbcd_Int
  imports Nbcd_Round Nbcd_Div
begin

text \<open>
  The conversions between \<^verbatim>\<open>Decimal\<close> and machine integers, at their widths, and the operations the
  class builds on whole numbers: powers and modulus.
\<close>

section \<open>From machine integers\<close>

lemma unat_bound: "unat (v :: 'a::len word) < 2 ^ LENGTH('a)"
  by (rule unsigned_less)

text \<open>An unsigned word that needs at most \<open>n + 1\<close> digits is written in places \<open>idx\<close> to \<open>idx + n\<close>.\<close>

lemma set_uint_loop_spec:
  fixes v :: "'a::len word"
  assumes "digits_ok ds" "unat v < 10 ^ Suc n" "idx + n < 64"
  shows "\<exists>ds' m. set_uint_loop ds idx v = (ds', m) \<and> digits_ok ds' \<and> idx \<le> m \<and> m \<le> idx + n \<and>
    (\<forall>k < idx. ds' ! k = ds ! k) \<and> seg10 ds' idx (Suc m) = unat v * 10 ^ idx \<and> (ds' ! m = 0 \<longrightarrow> v = 0)"
  using assms
proof (induction n arbitrary: ds idx v)
  case 0
  then show ?case
    by (auto simp: set_uint_loop.simps [of ds] digits_ok_update digits_ok_length seg10_Suc unat_eq_0)
next
  case (Suc n)
  show ?case
  proof (cases "unat v > 9")
    case False
    then show ?thesis using Suc.prems
      by (auto simp: set_uint_loop.simps [of ds] digits_ok_update digits_ok_length seg10_Suc unat_eq_0)
  next
    case True
    let ?q = "unat v div 10"
    let ?ds = "ds[idx := unat v - ?q * 10]"
    have q: "unat (word_of_nat ?q :: 'a word) = ?q"
      using le_less_trans [OF div_le_dividend unat_bound [of v]] by (simp add: unat_of_nat)
    have step: "set_uint_loop ds idx v = set_uint_loop ?ds (Suc idx) (word_of_nat ?q :: 'a word)"
      using True by (simp add: set_uint_loop.simps [of ds] Let_def)
    have d: "unat v - ?q * 10 = unat v mod 10" by (simp add: minus_div_mult_eq_mod)
    have "digits_ok ?ds" unfolding d using Suc.prems(1) by (auto intro!: digits_ok_update simp: less_Suc_eq_le [symmetric])
    moreover have "?q < 10 ^ Suc n" using Suc.prems(2) by (simp add: less_mult_imp_div_less)
    ultimately obtain ds' m where IH: "set_uint_loop ?ds (Suc idx) (word_of_nat ?q :: 'a word) = (ds', m)" "digits_ok ds'"
      "Suc idx \<le> m" "m \<le> Suc idx + n" "\<forall>k < Suc idx. ds' ! k = ?ds ! k"
      "seg10 ds' (Suc idx) (Suc m) = ?q * 10 ^ Suc idx" "ds' ! m = 0 \<longrightarrow> ?q = 0"
      using Suc.IH [of ?ds "word_of_nat ?q" "Suc idx"] Suc.prems q by (metis add_Suc add_Suc_right unat_0)
    have "ds' ! idx = unat v mod 10"
      using IH(5) Suc.prems d by (simp add: digits_ok_length)
    then have "seg10 ds' idx (Suc m) = unat v * 10 ^ idx"
      using IH(3,6) seg10_head [of idx "Suc m" ds'] divmod10_scale [of "unat v" idx] by simp
    moreover have "ds' ! m \<noteq> 0" using IH(7) True by (auto simp: div_eq_0_iff)
    moreover have "\<forall>k < idx. ds' ! k = ds ! k" using IH(5) by auto
    ultimately show ?thesis using step IH by auto
  qed
qed

lemma setUInt64_spec:
  assumes "digits_ok (digits d)"
  shows "dec_wf (setUInt64 d v) \<and> dval (setUInt64 d v) = unat v * 10 ^ 32 \<and> negative (setUInt64 d v) = False \<and>
    lsb (setUInt64 d v) = 32 \<and> 32 \<le> msb (setUInt64 d v) \<and> msb (setUInt64 d v) \<le> 51"
proof -
  have "unat v < 10 ^ Suc 19" using unat_bound [of v] by simp
  then obtain ds m where "set_uint_loop (digits d) 32 v = (ds, m)" "digits_ok ds" "32 \<le> m" "m \<le> 32 + 19"
    "seg10 ds 32 (Suc m) = unat v * 10 ^ 32"
    using set_uint_loop_spec [OF assms, of v 19 32] by auto
  then show ?thesis by (simp add: setUInt64_def dec_wf_def dval_def)
qed

lemma setUInt_spec:
  assumes "digits_ok (digits d)"
  shows "dec_wf (setUInt d v) \<and> dval (setUInt d v) = unat v * 10 ^ 32 \<and> negative (setUInt d v) = False \<and>
    lsb (setUInt d v) = 32 \<and> 32 \<le> msb (setUInt d v) \<and> msb (setUInt d v) \<le> 41"
proof -
  have "unat v < 10 ^ Suc 9" using unat_bound [of v] by simp
  then obtain ds m where "set_uint_loop (digits d) 32 v = (ds, m)" "digits_ok ds" "32 \<le> m" "m \<le> 32 + 9"
    "seg10 ds 32 (Suc m) = unat v * 10 ^ 32"
    using set_uint_loop_spec [OF assms, of v 9 32] by auto
  then show ?thesis by (simp add: setUInt_def dec_wf_def dval_def)
qed

section \<open>To machine integers\<close>

lemma get_uint_loop_spec:
  fixes v :: "'a::len word"
  assumes "a \<le> Suc i"
  shows "get_uint_loop ds (int i) (int a) v =
    (v * 10 ^ (Suc i - a) + of_nat (num10 ds a (Suc i - a)), int a - 1)"
  using assms
proof (induction "Suc i - a" arbitrary: i v)
  case 0
  then show ?case by (simp add: get_uint_loop.simps)
next
  case (Suc n)
  then have a: "a \<le> i" "n = i - a" by auto
  have s: "get_uint_loop ds (int i) (int a) v = get_uint_loop ds (int i - 1) (int a) (v * 10 + of_nat (ds ! i))"
    using a by (simp add: get_uint_loop.simps [of ds "int i"])
  show ?case
  proof (cases i)
    case 0
    then show ?thesis using a s by (simp add: get_uint_loop.simps num10_Suc)
  next
    case (Suc j)
    have "get_uint_loop ds (int j) (int a) (v * 10 + of_nat (ds ! i)) =
      ((v * 10 + of_nat (ds ! i)) * 10 ^ (Suc j - a) + of_nat (num10 ds a (Suc j - a)), int a - 1)"
      using Suc a by (intro Suc.hyps(1)) auto
    moreover have "Suc i - a = Suc (Suc j - a)" "a + (Suc j - a) = i" using a Suc by auto
    ultimately show ?thesis using s Suc by (simp add: num10_Suc algebra_simps)
  qed
qed

lemma scale_loop_spec:
  fixes v :: "'a::len word"
  shows "scale_loop (int (32 + n) - 1) v = v * 10 ^ n"
proof (induction n arbitrary: v)
  case (Suc n)
  have "int (32 + Suc n) - 1 - 1 = int (32 + n) - 1" "int 32 \<le> int (32 + Suc n) - 1" by auto
  then show ?case using Suc [of "v * 10"] by (subst scale_loop.simps) (simp only: if_True power_Suc mult.assoc)
qed (simp add: scale_loop.simps)

text \<open>The value both conversions compute, at the width of the result.\<close>

lemma get_uint_value:
  fixes v :: "'a::len word"
  assumes wf: "dec_wf d" and m: "lsb d \<le> msb d" "32 \<le> msb d" and v: "v = of_nat (digits d ! msb d)"
  shows "(if lsb d < 32 then fst (get_uint_loop (digits d) (int (msb d) - 1) (int 32) v)
    else (let (value, idx) = get_uint_loop (digits d) (int (msb d) - 1) (int (lsb d)) v in scale_loop idx value))
    = of_nat (dval d div 10 ^ 32)"
proof -
  let ?a = "max (lsb d) 32"
  define n where "n = Suc (msb d) - ?a"
  have n: "Suc (msb d) = ?a + n" "0 < n" using m by (auto simp: n_def)
  obtain i where i: "msb d = Suc i" "n = Suc (Suc i - ?a)" "?a \<le> Suc i" using m n by (cases "msb d") auto
  have "dval d div 10 ^ 32 * 10 ^ 32 = num10 (digits d) ?a n * 10 ^ ?a"
    using seg10_div [of "lsb d" "Suc (msb d)" "digits d" 32] wf n(1) seg10_num10 [of "digits d" ?a n]
    by (simp add: dval_def dec_wf_def digits_ok_nth)
  moreover have "(10::nat) ^ ?a = 10 ^ (?a - 32) * 10 ^ 32" by (simp only: power_add [symmetric] le_add_diff_inverse2 max.cobounded2)
  ultimately have "dval d div 10 ^ 32 * 10 ^ 32 = num10 (digits d) ?a n * 10 ^ (?a - 32) * 10 ^ 32"
    by (simp only: mult.assoc)
  then have dv: "dval d div 10 ^ 32 = num10 (digits d) ?a n * 10 ^ (?a - 32)" by simp
  have "v * 10 ^ (Suc i - ?a) + of_nat (num10 (digits d) ?a (Suc i - ?a)) = (of_nat (num10 (digits d) ?a n) :: 'a word)"
    using i v by (simp add: num10_Suc)
  then have l: "get_uint_loop (digits d) (int (msb d) - 1) (int ?a) v = (of_nat (num10 (digits d) ?a n), int ?a - 1)"
    using get_uint_loop_spec [OF i(3), of "digits d" v] i(1) by simp
  show ?thesis
  proof (cases "lsb d < 32")
    case True
    then show ?thesis using l dv by (simp add: max_def)
  next
    case False
    then have "scale_loop (int (lsb d) - 1) w = w * 10 ^ (lsb d - 32)" for w :: "'a word"
      using scale_loop_spec [of "lsb d - 32" w] by simp
    then show ?thesis using False l dv by (simp add: max_def split: if_splits)
  qed
qed

lemma getUInt64_spec:
  assumes "dec_wf d" "lsb d \<le> msb d"
  shows "getUInt64 d = of_nat (dval d div 10 ^ 32)"
  using get_uint_value [OF assms] dval_above [OF assms(1), of 32] by (auto simp: getUInt64_def Let_def)

lemma getUInt_spec:
  assumes "dec_wf d" "lsb d \<le> msb d"
  shows "getUInt d = of_nat (dval d div 10 ^ 32)"
  using get_uint_value [OF assms] dval_above [OF assms(1), of 32] by (auto simp: getUInt_def Let_def)

lemma of_int_flip: "of_int (flip b (int n)) = (if b then - of_nat n else (of_nat n :: 'a::ring_1))"
  by (simp add: flip_def)

lemma getInt64_spec:
  assumes "dec_wf d" "lsb d \<le> msb d"
  shows "getInt64 d = (if negative d \<and> sint (of_nat (dval d div 10 ^ 32) :: 64 word) = - (2 ^ 63) then Inl Undefined
    else Inr (of_int (flip (negative d) (int (dval d div 10 ^ 32)))))"
  unfolding of_int_flip by (simp add: getInt64_def sneg_def getUInt64_spec [OF assms])

lemma getInt_spec:
  assumes "dec_wf d" "lsb d \<le> msb d"
  shows "getInt d = (if negative d \<and> sint (of_nat (dval d div 10 ^ 32) :: 32 word) = - (2 ^ 31) then Inl Undefined
    else Inr (of_int (flip (negative d) (int (dval d div 10 ^ 32)))))"
  unfolding of_int_flip by (simp add: getInt_def sneg_def getUInt_spec [OF assms])

section \<open>Signed integers\<close>

lemma unat_uminus_neg:
  fixes v :: "'a::len word"
  assumes "sint v < 0"
  shows "int (unat (- v)) = - sint v"
proof -
  have "- v = word_of_int (- sint v)" by simp
  then have "int (unat (- v)) = (- sint v) mod 2 ^ LENGTH('a)"
    by (metis uint_nat uint_word_of_int)
  moreover have "- sint v < 2 ^ LENGTH('a)"
  proof -
    have "- sint v \<le> 2 ^ (LENGTH('a) - 1)" using sint_ge [of v] by simp
    also have "\<dots> < 2 ^ LENGTH('a)" by (intro power_strict_increasing) auto
    finally show ?thesis .
  qed
  ultimately show ?thesis using assms by simp
qed

lemma unat_nonneg:
  fixes v :: "'a::len word"
  assumes "0 \<le> sint v"
  shows "int (unat v) = sint v"
proof -
  have "v = word_of_int (sint v)" by simp
  then have "int (unat v) = sint v mod 2 ^ LENGTH('a)" by (metis uint_nat uint_word_of_int)
  moreover have "sint v < 2 ^ LENGTH('a)"
    using sint_lt [of v] by (rule less_le_trans) (auto intro: power_increasing)
  ultimately show ?thesis using assms by simp
qed

lemma setInt64_spec:
  assumes "digits_ok (digits d)" "sint v \<noteq> - (2 ^ 63)"
  shows "\<exists>e. setInt64 d v = Inr e \<and> dec_wf e \<and> sval e = sint v * 10 ^ 32 \<and> lsb e = 32 \<and> 32 \<le> msb e \<and> msb e \<le> 51"
  using setUInt64_spec [OF assms(1), of v] setUInt64_spec [OF assms(1), of "- v"] unat_nonneg [of v] unat_uminus_neg [of v] assms(2)
  by (auto simp: setInt64_def sneg_def sval_def dec_wf_def dval_def)

lemma setInt_spec:
  assumes "digits_ok (digits d)" "sint v \<noteq> - (2 ^ 31)"
  shows "\<exists>e. setInt d v = Inr e \<and> dec_wf e \<and> sval e = sint v * 10 ^ 32 \<and> lsb e = 32 \<and> 32 \<le> msb e \<and> msb e \<le> 41"
  using setUInt_spec [OF assms(1), of v] setUInt_spec [OF assms(1), of "- v"] unat_nonneg [of v] unat_uminus_neg [of v] assms(2)
  by (auto simp: setInt_def sneg_def sval_def dec_wf_def dval_def)

lemma setInt_least: "sint v = - (2 ^ 31) \<Longrightarrow> setInt d v = Inl Undefined" "sint w = - (2 ^ 63) \<Longrightarrow> setInt64 d w = Inl Undefined"
  by (simp_all add: setInt_def setInt64_def sneg_def)

text \<open>Reading back: every signed word survives, except the least one, which cannot be stored.\<close>

lemma flip_div_whole:
  assumes "sval d = z * 10 ^ 32"
  shows "flip (negative d) (int (dval d div 10 ^ 32)) = z"
proof -
  have "dval d = nat \<bar>z\<bar> * 10 ^ 32" using assms abs_sval [of d] by (simp add: abs_mult nat_mult_distrib [symmetric])
  then show ?thesis using assms by (auto simp: sval_def flip_def split: if_splits)
qed

lemma sint_least_flip:
  fixes v :: "'a::len word"
  assumes "flip b (int n) = sint v" "b" "sint (of_nat n :: 'a word) = - (2 ^ (LENGTH('a) - 1))"
  shows "sint v = - (2 ^ (LENGTH('a) - 1))"
proof -
  have n: "int n = - sint v" using assms(1,2) by (simp add: flip_def)
  have "int n = 2 ^ (LENGTH('a) - 1)"
  proof (rule ccontr)
    assume "int n \<noteq> 2 ^ (LENGTH('a) - 1)"
    then have "int n < 2 ^ (LENGTH('a) - 1)" using n sint_ge [of v] by simp
    then have "signed_take_bit (LENGTH('a) - 1) (int n) = int n" by (intro signed_take_bit_int_eq_self order_trans [OF _ of_nat_0_le_iff]) simp_all
    then have "sint (of_nat n :: 'a word) = int n" by (simp add: signed_of_nat)
    moreover have "0 < (2 :: int) ^ (LENGTH('a) - 1)" by simp
    ultimately show False using assms(3) by linarith
  qed
  with n show ?thesis by simp
qed

lemma getInt64_setInt64_spec:
  assumes "digits_ok (digits d)" "sint v \<noteq> - (2 ^ 63)"
  shows "\<exists>e. setInt64 d v = Inr e \<and> getInt64 e = Inr v"
proof -
  obtain e where e: "setInt64 d v = Inr e" "dec_wf e" "sval e = sint v * 10 ^ 32" "lsb e \<le> msb e" using setInt64_spec [OF assms] by auto
  then show ?thesis using getInt64_spec [of e] flip_div_whole [OF e(3)] sint_least_flip [of _ "dval e div 10 ^ 32" v] assms(2) by auto
qed

lemma getInt_setInt_spec:
  assumes "digits_ok (digits d)" "sint v \<noteq> - (2 ^ 31)"
  shows "\<exists>e. setInt d v = Inr e \<and> getInt e = Inr v"
proof -
  obtain e where e: "setInt d v = Inr e" "dec_wf e" "sval e = sint v * 10 ^ 32" "lsb e \<le> msb e" using setInt_spec [OF assms] by auto
  then show ?thesis using getInt_spec [of e] flip_div_whole [OF e(3)] sint_least_flip [of _ "dval e div 10 ^ 32" v] assms(2) by auto
qed

section \<open>Whole numbers\<close>

lemma sval_nonzero: "sval d \<noteq> 0 \<longleftrightarrow> dval d \<noteq> 0"
  by (auto simp: sval_def)

lemma whole_dval: "sval d = z * 10 ^ 32 \<Longrightarrow> dval d = nat \<bar>z\<bar> * 10 ^ 32"
  using abs_sval [of d] by (simp add: abs_mult nat_mult_distrib [symmetric])

lemma flip_whole:
  assumes "sval d = y * 10 ^ 32" "sval e = z * 10 ^ 32" "y \<noteq> 0" "z \<noteq> 0"
  shows "flip (negative d \<noteq> negative e) (int (nat \<bar>y\<bar> * nat \<bar>z\<bar>)) = y * z"
proof -
  have "negative d \<longleftrightarrow> y < 0" "negative e \<longleftrightarrow> z < 0"
    using assms flip_div_whole [OF assms(1)] flip_div_whole [OF assms(2)] by (auto simp: flip_def split: if_splits)
  then show ?thesis by (auto simp: flip_def abs_mult [symmetric] abs_if mult_less_0_iff)
qed

text \<open>The significant digits of a whole number other than zero lie at the position of the point or above.\<close>

lemma whole_clip:
  assumes wf: "dec_wf d" and v: "dval d = n * 10 ^ 32" "n \<noteq> 0" and c: "clip d = (lo, hi)"
  shows "32 \<le> lo" "lo \<le> hi" "hi \<le> 63" "10 ^ nat hi \<le> dval d" "dval d < 10 ^ Suc (nat hi)"
proof -
  show lh: "lo \<le> hi" using clip_iff_zero [OF c] v by (simp add: not_less [symmetric])
  note k = clip_nonempty [OF c lh]
  show hi: "hi \<le> 63" using k(3) dec_wfD(2) [OF wf] by simp
  have ok: "digits d ! i \<le> 9" if "i < Suc (nat hi)" for i
    using dec_wfD(1) [OF wf] hi that by (intro digits_ok_nth) auto
  show "10 ^ nat hi \<le> dval d" unfolding k(6) using lh k(1,5) by (intro seg10_lead) auto
  show "dval d < 10 ^ Suc (nat hi)" unfolding k(6) using ok by (intro seg10_less) auto
  show "32 \<le> lo"
  proof (rule ccontr)
    assume "\<not> 32 \<le> lo"
    then have lt: "Suc (nat lo) \<le> 32" by simp
    have "10 ^ Suc (nat lo) dvd dval d" unfolding v using lt by (intro dvd_mult le_imp_power_dvd)
    then have "seg10 (digits d) (nat lo) (min (Suc (nat hi)) (Suc (nat lo))) = 0"
      using seg10_mod [of "nat lo" "Suc (nat hi)" "digits d" "Suc (nat lo)"] ok k(6) by (simp add: dvd_eq_mod_eq_0)
    moreover have "min (Suc (nat hi)) (Suc (nat lo)) = Suc (nat lo)" using lh by simp
    ultimately show False using k(4) by (simp add: seg10_Suc)
  qed
qed

lemma multiply_whole:
  assumes wf: "dec_wf d" "dec_wf e" and v: "sval d = y * 10 ^ 32" "sval e = z * 10 ^ 32" "y \<noteq> 0" "z \<noteq> 0"
    and lt: "\<bar>y * z\<bar> < 10 ^ 32"
  shows "dec_wf (multiply d e) \<and> sval (multiply d e) = y * z * 10 ^ 32"
proof -
  let ?m = "nat \<bar>y\<bar>" and ?n = "nat \<bar>z\<bar>"
  note dd = whole_dval [OF v(1)] and de = whole_dval [OF v(2)]
  have mn: "?m \<noteq> 0" "?n \<noteq> 0" using v by auto
  obtain lo1 hi1 lo2 hi2 where c: "clip d = (lo1, hi1)" "clip e = (lo2, hi2)" by fastforce
  note c1 = whole_clip [OF wf(1) dd mn(1) c(1)] and c2 = whole_clip [OF wf(2) de mn(2) c(2)]
  have lt': "?m * ?n < 10 ^ 32" using lt by (simp add: abs_mult nat_mult_distrib [symmetric] nat_less_iff)
  have p: "dval d * dval e = ?m * ?n * 10 ^ 32 * 10 ^ 32" unfolding dd de by (simp only: ac_simps)
  have "(10::nat) ^ (nat hi1 + nat hi2) \<le> ?m * ?n * 10 ^ 32 * 10 ^ 32"
    using mult_le_mono [OF c1(4) c2(4)] unfolding p by (simp only: power_add)
  also have "\<dots> < 10 ^ 32 * 10 ^ 32 * 10 ^ 32" using lt' by simp
  also have "\<dots> = 10 ^ 96" by simp
  finally have "nat hi1 + nat hi2 < 96" by (rule power_less_imp_less_exp [rotated]) simp
  then have "dec_wf (multiply d e)"
    using multiply_wf_spec [OF wf] c c1 c2 by simp
  moreover have "sval (multiply d e) = y * z * 10 ^ 32"
  proof -
    have "round32 (dval d * dval e) = ?m * ?n * 10 ^ 32" unfolding p round32_def by simp
    moreover have "10 ^ 32 \<le> dval d * dval e" unfolding p using mn by (simp add: Suc_le_eq)
    ultimately have "sval (multiply d e) = keep64 (flip (negative d \<noteq> negative e) (int (?m * ?n * 10 ^ 32)))"
      using multiply_spec [OF wf] by simp
    also have "flip (negative d \<noteq> negative e) (int (?m * ?n * 10 ^ 32)) = flip (negative d \<noteq> negative e) (int (?m * ?n)) * 10 ^ 32"
      by (simp add: flip_def)
    also have "\<dots> = y * z * 10 ^ 32" using flip_whole [OF v] by simp
    also have "keep64 (y * z * 10 ^ 32) = y * z * 10 ^ 32" using lt by (intro keep64_id) (simp add: abs_mult)
    finally show ?thesis .
  qed
  ultimately show ?thesis by simp
qed

text \<open>Repeated squaring on whole numbers, as long as the power has at most 32 integer digits.\<close>

lemma abs_power_less:
  fixes z :: int
  assumes "\<bar>z ^ n\<bar> < k" "z \<noteq> 0" "m \<le> n"
  shows "\<bar>z ^ m\<bar> < k"
proof -
  have "\<bar>z\<bar> ^ m \<le> \<bar>z\<bar> ^ n" using assms(2,3) by (intro power_increasing) auto
  then show ?thesis using assms(1) by (simp add: power_abs)
qed

lemma doPower_whole:
  assumes "dec_wf d" "sval d = z * 10 ^ 32" "z \<noteq> 0" "0 < n" "\<bar>z ^ n\<bar> < 10 ^ 32"
  shows "\<exists>e. doPower d n = Inr e \<and> dec_wf e \<and> sval e = z ^ n * 10 ^ 32"
  using assms
proof (induction d n rule: doPower.induct)
  case (1 d n)
  show ?case
  proof (cases "n = 1")
    case True
    then show ?thesis using 1 by (simp add: doPower.simps)
  next
    case False
    let ?h = "n div 2"
    have h: "0 < ?h" "?h \<le> n" using False 1(6) by auto
    obtain p where p: "doPower d ?h = Inr p" "dec_wf p" "sval p = z ^ ?h * 10 ^ 32"
      using 1(1,2) 1(3-7) False h abs_power_less [OF 1(7) 1(5) h(2)] by blast
    have "\<bar>z ^ ?h * z ^ ?h\<bar> < 10 ^ 32"
      using abs_power_less [OF 1(7) 1(5), of "?h + ?h"] by (simp add: power_add)
    then have q: "dec_wf (multiply p p)" "sval (multiply p p) = z ^ (?h + ?h) * 10 ^ 32"
      using multiply_whole [OF p(2,2,3,3)] 1(5) by (simp_all add: power_add)
    show ?thesis
    proof (cases "odd n")
      case True
      then have n: "z ^ n = z ^ (?h + ?h) * z" by (metis odd_two_times_div_two_succ mult_2 power_add power_one_right)
      then show ?thesis
        using multiply_whole [OF q(1) 1(3) q(2) 1(4)] 1(5,6,7) p(1) True False by (simp add: doPower.simps [of d n])
    next
      case even: False
      then have "?h + ?h = n" by presburger
      then show ?thesis using q p(1) even False 1(6) by (simp add: doPower.simps [of d n])
    qed
  qed
qed

lemma power_unsigned_spec:
  assumes "dec_wf d" "sval d = z * 10 ^ 32" "z \<noteq> 0" "\<bar>z ^ n\<bar> < 10 ^ 32"
  shows "\<exists>e. power_unsigned d n = Inr e \<and> dec_wf e \<and> sval e = z ^ n * 10 ^ 32"
  using doPower_whole [OF assms(1-3) _ assms(4)] setInt_spec [OF dec_wfD(1) [OF assms(1)], of 1, simplified]
  by (cases "n = 0") (auto simp: power_unsigned_def)

section \<open>Modulus\<close>

text \<open>The rounded quotient of whole numbers, cut at the point, is the whole quotient.\<close>

lemma quotient_cut:
  fixes x w p :: nat
  assumes "0 < w" "w < p"
  shows "(2 * (x * p) + w) div (2 * w) div p = x div w"
proof -
  obtain k where k: "w = x mod w + 1 + k" using mod_less_divisor [OF assms(1), of x] less_imp_Suc_add by fastforce
  have "2 * ((x div w * w + x mod w) * p) + w = (2 * (x mod w * p) + w) + x div w * (2 * w * p)"
    by (simp only: algebra_simps)
  then have e: "2 * (x * p) + w = (2 * (x mod w * p) + w) + x div w * (2 * w * p)" by simp
  have "2 * w * p = 2 * (x mod w * p) + 2 * p + 2 * (k * p)"
    by (subst k) (simp add: algebra_simps)
  then have "2 * (x mod w * p) + w < 2 * w * p" using assms(2) by linarith
  then have "(2 * (x * p) + w) div (2 * w * p) = x div w" unfolding e using assms by simp
  then show ?thesis by (simp add: div_mult2_eq)
qed

lemma quotient_fits:
  fixes x w a b c :: nat
  assumes "a \<le> w" "a < 2 * c" "x + c \<le> a * b" "0 < b"
  shows "(2 * x + w) div (2 * w) < b"
proof -
  obtain k where k: "w = a + k" using assms(1) le_Suc_ex by blast
  have "k \<le> k * b" using assms(4) by simp
  then have "2 * x + w < 2 * (a * b) + 2 * (k * b)" using assms k by linarith
  also have "\<dots> = b * (2 * w)" by (simp add: k algebra_simps)
  finally show ?thesis by (simp add: less_mult_imp_div_less)
qed

lemma divide_whole:
  assumes wf: "dec_wf d" "dec_wf e" and v: "dval d = x * 10 ^ 32" "dval e = w * 10 ^ 32" "x \<noteq> 0" "w \<noteq> 0"
  shows "\<exists>q r. divide d e = Inr q \<and> dec_wf q \<and> lsb q = 0 \<and> (x < w \<longrightarrow> msb q \<le> 32) \<and>
    sval q = flip (negative d \<noteq> negative e) (int r) \<and> r div 10 ^ 32 = x div w"
proof -
  obtain lo1 hi1 lo2 hi2 where c: "clip d = (lo1, hi1)" "clip e = (lo2, hi2)" by fastforce
  note c1 = whole_clip [OF wf(1) v(1,3) c(1)] and c2 = whole_clip [OF wf(2) v(2,4) c(2)]
  let ?hi = "hi1 - hi2 + 32"
  let ?r = "(2 * (dval d * 10 ^ 32) + dval e) div (2 * dval e)"
  have r: "?r = (2 * (x * 10 ^ 32) + w) div (2 * w)"
    unfolding v by (rule div_cancel_scale) simp
  have "w * 10 ^ 32 < 10 ^ 32 * 10 ^ 32" using dval_less_max [OF wf(2)] unfolding v by simp
  then have w: "w < 10 ^ 32" by simp
  have "x * 10 ^ 32 + 10 ^ 32 \<le> 10 ^ Suc (nat hi1)"
  proof -
    have e: "Suc (nat hi1) = nat (hi1 - 31) + 32" using c1 by simp
    have "x * 10 ^ 32 < 10 ^ nat (hi1 - 31) * 10 ^ 32" using c1(5) unfolding e v(1) by (simp only: power_add)
    then have "Suc x \<le> 10 ^ nat (hi1 - 31)" by simp
    then have "Suc x * 10 ^ 32 \<le> 10 ^ nat (hi1 - 31) * 10 ^ 32" by (rule mult_le_mono1)
    then show ?thesis unfolding e power_add by simp
  qed
  then have "x * 10 ^ 32 * 10 ^ 32 + 10 ^ 32 * 10 ^ 32 \<le> 10 ^ Suc (nat hi1) * 10 ^ 32"
    by (metis add_mult_distrib mult_le_mono1)
  also have "\<dots> = 10 ^ nat hi2 * 10 ^ nat (?hi + 1)"
  proof -
    have "Suc (nat hi1) + 32 = nat hi2 + nat (?hi + 1)" using c1 c2 by simp
    then show ?thesis by (simp only: power_add [symmetric])
  qed
  finally have "?r < 10 ^ nat (?hi + 1)"
  proof (intro quotient_fits [of "10 ^ nat hi2" _ "10 ^ 32 * 10 ^ 32"])
    have "nat hi2 \<le> 63" using c2(3) by simp
    then have "(10::nat) ^ nat hi2 \<le> 10 ^ 63" by (intro power_increasing) auto
    then show "10 ^ nat hi2 < 2 * (10 ^ 32 * 10 ^ 32 :: nat)" by simp
  qed (use c2(4) v in auto)
  moreover have "lsb d \<le> Suc (msb d)" using clip_range_bounds [OF c(1)] c1 by linarith
  ultimately obtain q where q: "divide d e = Inr q" "dec_wf q" "lsb q = 0" "msb q = nat ?hi"
    "sval q = flip (negative d \<noteq> negative e) (int ?r)"
    using divide_spec [OF wf _ _ _ refl] c c1 c2 v by auto
  have "hi1 \<le> hi2" if "x < w"
  proof -
    have "10 ^ nat hi1 < (10::nat) ^ Suc (nat hi2)" using c1(4) c2(5) that unfolding v by (meson le_less_trans less_trans mult_less_mono1 zero_less_power zero_less_numeral)
    then have "nat hi1 < Suc (nat hi2)" by (rule power_less_imp_less_exp [rotated]) simp
    then show ?thesis using c1 c2 by simp
  qed
  then have "x < w \<longrightarrow> msb q \<le> 32" using q(4) by auto
  moreover have "?r div 10 ^ 32 = x div w" unfolding r using v w by (intro quotient_cut) auto
  ultimately show ?thesis using q by blast
qed

lemma flip_cut:
  assumes "sval q = flip s (int r)"
  shows "flip (negative q) (int (dval q div k * k)) = flip s (int (r div k * k))"
proof -
  have "dval q = r" using assms abs_sval [of q] by (auto simp: flip_def split: if_splits)
  then show ?thesis using assms by (cases "r = 0") (auto simp: sval_flip flip_def split: if_splits)
qed

lemma multiply_zero:
  assumes "dec_wf t" "dec_wf e" "dval t = 0" "lsb t = 32" "msb t = 32"
  shows "dec_wf (multiply t e) \<and> sval (multiply t e) = 0"
proof -
  obtain lo hi where c: "clip e = (lo, hi)" by fastforce
  have "digits t ! 32 = 0" using assms(3-5) seg10_Suc [of 32 32 "digits t"] by (simp add: dval_def)
  then have t: "clip t = (32, 31)" using assms(4,5) by (simp add: clip_def clip_lo.simps clip_hi.simps)
  have "dval (multiply t e) = 0" using multiply_dval [OF assms(1,2)] assms(3) by (auto simp: round32_def)
  moreover have "dec_wf (multiply t e)"
  proof (cases "31 \<le> 31 + hi")
    case True
    have "lo \<le> 64" using clip_range_bounds [OF c] dec_wfD [OF assms(2)] by linarith
    then show ?thesis using multiply_wf_spec [OF assms(1,2)] t c True by simp
  next
    case False
    then show ?thesis using t c assms(1) by (simp add: multiply_def)
  qed
  ultimately show ?thesis by (simp add: sval_def)
qed

lemma modulus_spec:
  assumes wf: "dec_wf d" "dec_wf e" and v: "sval d = y * 10 ^ 32" "sval e = z * 10 ^ 32" "y \<noteq> 0" "z \<noteq> 0"
  shows "\<exists>r. modulus d e = Inr r \<and> dec_wf r \<and> sval r = sgn y * (\<bar>y\<bar> mod \<bar>z\<bar>) * 10 ^ 32"
proof -
  let ?x = "nat \<bar>y\<bar>" and ?w = "nat \<bar>z\<bar>" and ?s = "negative d \<noteq> negative e"
  note dd = whole_dval [OF v(1)] and de = whole_dval [OF v(2)]
  have nz: "?x \<noteq> 0" "?w \<noteq> 0" using v by auto
  have y32: "\<bar>y\<bar> < 10 ^ 32" using abs_sval_less [OF wf(1)] v(1) by (simp add: abs_mult)
  obtain q r where q: "divide d e = Inr q" "dec_wf q" "lsb q = 0" "?x < ?w \<longrightarrow> msb q \<le> 32"
    "sval q = flip ?s (int r)" "r div 10 ^ 32 = ?x div ?w"
    using divide_whole [OF wf dd de nz] by blast
  define t where "t = truncate_dec q 0"
  define u where "u = flip ?s (int (?x div ?w))"
  have t: "dec_wf t" "sval t = u * 10 ^ 32"
    using truncate_dec_spec [OF q(2), of 0] flip_cut [OF q(5), of "10 ^ 32"] q(6) by (simp_all add: t_def u_def flip_def)
  have uz: "u * z = sgn y * (\<bar>y\<bar> - \<bar>y\<bar> mod \<bar>z\<bar>)"
  proof -
    have "negative d \<longleftrightarrow> y < 0" "negative e \<longleftrightarrow> z < 0"
      using v flip_div_whole [OF v(1)] flip_div_whole [OF v(2)] by (auto simp: flip_def split: if_splits)
    then have "u * z = sgn y * (\<bar>y\<bar> div \<bar>z\<bar> * \<bar>z\<bar>)"
      by (simp add: u_def flip_def sgn_if abs_if nat_div_distrib zdiv_int)
    then show ?thesis by (simp add: minus_mod_eq_div_mult)
  qed
  have bounds: "0 \<le> \<bar>y\<bar> mod \<bar>z\<bar>" "\<bar>y\<bar> mod \<bar>z\<bar> \<le> \<bar>y\<bar>" using v by (auto intro: zmod_le_nonneg_dividend)
  have m: "dec_wf (multiply t e) \<and> sval (multiply t e) = u * z * 10 ^ 32"
  proof (cases "u = 0")
    case True
    then have "?x < ?w" using nz by (auto simp: u_def flip_def div_eq_0_iff split: if_splits)
    then have "lsb t = 32" "msb t = 32" using q(3,4) by (simp_all add: t_def truncate_dec_def Let_def)
    moreover have "dval t = 0" using t(2) True sval_nonzero [of t] by simp
    ultimately show ?thesis using multiply_zero [OF t(1) wf(2)] True by simp
  next
    case False
    have "\<bar>u * z\<bar> < 10 ^ 32" unfolding uz abs_mult using bounds y32 v(3) by (simp add: abs_sgn_eq)
    then show ?thesis using multiply_whole [OF t(1) wf(2) t(2) v(2) False v(4)] by simp
  qed
  have "sval d - sval (multiply t e) = sgn y * (\<bar>y\<bar> mod \<bar>z\<bar>) * 10 ^ 32"
  proof -
    have "y - u * z = sgn y * (\<bar>y\<bar> mod \<bar>z\<bar>)" unfolding uz by (simp add: right_diff_distrib sgn_mult_abs)
    then show ?thesis using m v(1) by (simp add: left_diff_distrib [symmetric])
  qed
  moreover have "\<bar>sgn y * (\<bar>y\<bar> mod \<bar>z\<bar>) * 10 ^ 32\<bar> < 10 ^ 64"
    unfolding abs_mult using bounds y32 v(3) by (simp add: abs_sgn_eq)
  ultimately show ?thesis
    using subtract_dec_spec [OF wf(1) conjunct1 [OF m]] q(1) by (auto simp: modulus_def t_def [symmetric])
qed

end
