(* ===== verification/Nbcd_Text.thy ===== *)
theory Nbcd_Text
  imports Nbcd_Int
begin

text \<open>
  The conversions between \<^verbatim>\<open>Decimal\<close> and text (rtl/nbcd/nbcd.cpp): the model, and the proofs that the
  text has the computed length and reads back to the same value.

  A text is a list of characters, and the pointer \<^verbatim>\<open>cur\<close> of a scanning loop is the rest of the
  text; at the end of a C string it reads the terminating zero. What is written through \<^verbatim>\<open>*cur++\<close>
  is the list of the characters written.
\<close>

section \<open>Writing\<close>

definition digit_char :: "nat \<Rightarrow> char" where
  "digit_char d = char_of (48 + d)"

text \<open>The loops \<^verbatim>\<open>for (; idx >= lo; idx--) *cur++ = '0' + digits[idx]\<close> and the one that writes zeros.\<close>

function put_digits :: "nat list \<Rightarrow> int \<Rightarrow> int \<Rightarrow> string" where
  "put_digits ds idx lo = (if idx \<ge> lo then digit_char (ds ! nat idx) # put_digits ds (idx - 1) lo else [])"
  by pat_completeness auto
termination
  by (relation "measure (\<lambda>(ds, idx, lo). nat (idx - lo + 1))") auto

function put_zeros :: "int \<Rightarrow> int \<Rightarrow> string" where
  "put_zeros idx lo = (if idx \<ge> lo then CHR ''0'' # put_zeros (idx - 1) lo else [])"
  by pat_completeness auto
termination
  by (relation "measure (\<lambda>(idx, lo). nat (idx - lo + 1))") auto

definition doGetString :: "decimal \<Rightarrow> string" where
  "doGetString d =
     (let (lo, hi) = clip d
      in if lo > hi then ''0''
         else
           (if negative d then ''-'' else []) @
           (if hi < int zeroDigit
            then ''0.'' @ put_zeros (int zeroDigit - 1) (hi + 1) @ put_digits (digits d) hi lo
            else if lo < int zeroDigit
            then put_digits (digits d) hi (int zeroDigit) @ ''.'' @ put_digits (digits d) (int zeroDigit - 1) lo
            else put_digits (digits d) hi lo @ put_zeros (lo - 1) (int zeroDigit)))"

definition getStringLength :: "decimal \<Rightarrow> nat" where
  "getStringLength d =
     (let (lo, hi) = clip d
      in if lo > hi then 1
         else
           let top = byte (if hi < int zeroDigit then int zeroDigit - 1 else hi);
               bottom = byte (if lo > int zeroDigit then int zeroDigit else lo);
               outLen = top + 1 - bottom;
               outLen = (if negative d then outLen + 1 else outLen);
               outLen = (if lo < int zeroDigit then outLen + 1 else outLen);
               outLen = (if hi < int zeroDigit then outLen + 1 else outLen)
           in outLen)"

text \<open>
  The three ways to return the text. The \<^verbatim>\<open>buffer\<close> argument is the memory before the call, as long as the
  \<^verbatim>\<open>length\<close> argument says.
\<close>

definition getCString_buffer :: "decimal \<Rightarrow> string \<Rightarrow> string res" where
  "getCString_buffer d buffer =
     (let len = getStringLength d
      in if len \<ge> length buffer
         then if buffer = [] then Inl OutOfRange
              else Inr (replicate (length buffer - 1) CHR ''*'' @ [CHR 0x00])
         else let text = doGetString d
              in if len \<noteq> length text then Inl AssertFailed
                 else Inr (text @ [CHR 0x00] @ drop (len + 1) buffer))"

definition getCString :: "decimal \<Rightarrow> string res" where
  "getCString d =
     (let text = doGetString d
      in if getStringLength d \<noteq> length text then Inl AssertFailed else Inr (text @ [CHR 0x00]))"

definition getString :: "decimal \<Rightarrow> nat \<Rightarrow> string res" where
  "getString d len_buffer =
     (let len = getStringLength d
      in if len > len_buffer then Inr (replicate len_buffer CHR ''*'')
         else let text = doGetString d
              in if len \<noteq> length text then Inl AssertFailed
                 else Inr (text @ replicate (len_buffer - len) CHR '' ''))"

definition getStringX :: "decimal \<Rightarrow> (nat \<times> string) res" where
  "getStringX d =
     (let text = doGetString d
      in if getStringLength d \<noteq> length text then Inl AssertFailed else Inr (getStringLength d, text))"

section \<open>Reading\<close>

definition isdigit :: "char \<Rightarrow> bool" where
  "isdigit c \<longleftrightarrow> 48 \<le> (of_char c :: nat) \<and> (of_char c :: nat) \<le> 57"

definition char_digit :: "char \<Rightarrow> nat" where
  "char_digit c = byte (of_char c - 48)"

fun skip_spaces :: "string \<Rightarrow> string" where
  "skip_spaces [] = []"
| "skip_spaces (c # cs) = (if c = CHR '' '' then skip_spaces cs else c # cs)"

text \<open>\<open>scan_digits\<close> splits the text at the end of its leading digits.\<close>

fun scan_digits :: "string \<Rightarrow> string \<times> string" where
  "scan_digits [] = ([], [])"
| "scan_digits (c # cs) =
     (if isdigit c then let (ds, rest) = scan_digits cs in (c # ds, rest) else ([], c # cs))"

text \<open>\<^verbatim>\<open>digits[zeroDigit+idx] = cur[-(idx+1)] - '0'\<close>: the digits before \<^verbatim>\<open>cur\<close>, from the right.\<close>

fun set_int_digits :: "nat list \<Rightarrow> string \<Rightarrow> nat \<Rightarrow> nat \<Rightarrow> nat list" where
  "set_int_digits ds text idx 0 = ds"
| "set_int_digits ds text idx (Suc n) =
     set_int_digits (ds[zeroDigit + idx := char_digit (text ! (length text - (idx + 1)))]) text (Suc idx) n"

text \<open>The fraction: at most \<open>n\<close> digits, from the position below \<open>pos\<close> down.\<close>

fun set_frac_digits :: "nat list \<Rightarrow> nat \<Rightarrow> string \<Rightarrow> nat \<Rightarrow> nat list \<times> nat" where
  "set_frac_digits ds pos cur 0 = (ds, pos)"
| "set_frac_digits ds pos [] n = (ds, pos)"
| "set_frac_digits ds pos (c # cs) (Suc n) =
     (if isdigit c then set_frac_digits (ds[pos - 1 := char_digit c]) (pos - 1) cs n else (ds, pos))"

definition setCString :: "decimal \<Rightarrow> string \<Rightarrow> decimal" where
  "setCString d buffer =
     (let cur = skip_spaces buffer;
          neg = (cur \<noteq> [] \<and> hd cur = CHR ''-'');
          cur = (if neg then tl cur else cur);
          (int_text, cur) = scan_digits cur;
          numDigits = min (length int_text) maxIntegerDigits;
          ds = set_int_digits (digits d) int_text 0 numDigits;
          d = d\<lparr>negative := neg, digits := ds, msb := byte (int zeroDigit + (int numDigits - 1))\<rparr>
      in if cur \<noteq> [] \<and> hd cur = CHR ''.''
         then let (ds, pos) = set_frac_digits ds zeroDigit (tl cur) maxPrecision
              in d\<lparr>digits := ds, lsb := pos\<rparr>
         else d\<lparr>lsb := zeroDigit\<rparr>)"

text \<open>
  \<^verbatim>\<open>setString\<close> stops at \<^verbatim>\<open>limit\<close> instead of at a terminator, and moves \<^verbatim>\<open>limit\<close> down when the fraction
  is longer than \<^verbatim>\<open>maxPrecision\<close>.
\<close>

definition setString :: "decimal \<Rightarrow> nat \<Rightarrow> string \<Rightarrow> decimal" where
  "setString d len buffer =
     (let cur = skip_spaces (take len buffer);
          neg = (cur \<noteq> [] \<and> hd cur = CHR ''-'');
          cur = (if neg then tl cur else cur);
          (int_text, cur) = scan_digits cur;
          numDigits = min (length int_text) maxIntegerDigits;
          ds = set_int_digits (digits d) int_text 0 numDigits;
          d = d\<lparr>negative := neg, digits := ds, msb := byte (int zeroDigit + (int numDigits - 1))\<rparr>
      in if cur \<noteq> [] \<and> hd cur = CHR ''.''
         then let cur = tl cur;
                  cur = (if length cur > maxPrecision then take maxPrecision cur else cur);
                  (ds, pos) = set_frac_digits ds zeroDigit cur (length cur)
              in d\<lparr>digits := ds, lsb := pos\<rparr>
         else d\<lparr>lsb := zeroDigit\<rparr>)"

declare put_digits.simps [simp del] and put_zeros.simps [simp del]

section \<open>The digits of a text\<close>

lemma char_nat_int: "(of_char c :: int) = int (of_char c)"
  by (simp add: of_char_of [symmetric] of_nat_of_char)

lemma isdigit_value: "isdigit c \<Longrightarrow> char_digit c \<le> 9"
  by (auto simp: isdigit_def char_digit_def char_nat_int nat_le_iff)

lemma digit_char_simps [simp]:
  assumes "d \<le> 9"
  shows "isdigit (digit_char d)" "char_digit (digit_char d) = d"
  using assms by (simp_all add: isdigit_def char_digit_def digit_char_def char_nat_int of_char_of)

lemma not_isdigit [simp]:
  "\<not> isdigit (CHR ''.'')" "\<not> isdigit (CHR '' '')" "\<not> isdigit (CHR ''-'')"
  by (simp_all add: isdigit_def)

lemma digit_zero [simp]: "isdigit (CHR ''0'')" "char_digit (CHR ''0'') = 0"
  by (simp_all add: isdigit_def char_digit_def)

text \<open>The number a text of digits denotes.\<close>

definition txt_num :: "string \<Rightarrow> nat" where
  "txt_num cs = foldl (\<lambda>a c. 10 * a + char_digit c) 0 cs"

lemma txt_num_Nil [simp]: "txt_num [] = 0"
  by (simp add: txt_num_def)

lemma txt_num_snoc [simp]: "txt_num (cs @ [c]) = 10 * txt_num cs + char_digit c"
  by (simp add: txt_num_def)

lemma txt_num_append: "txt_num (as @ bs) = txt_num as * 10 ^ length bs + txt_num bs"
proof (induction bs rule: rev_induct)
  case (snoc b bs)
  then show ?case by (simp only: append_assoc [symmetric] txt_num_snoc) (simp add: algebra_simps)
qed simp

lemma txt_num_Cons: "txt_num (c # cs) = char_digit c * 10 ^ length cs + txt_num cs"
  using txt_num_append [of "[c]" cs] txt_num_snoc [of "[]" c] by simp

lemma txt_num_zeros [simp]: "txt_num (replicate n (CHR ''0'')) = 0"
  by (induction n) (simp_all add: txt_num_Cons)

lemma txt_num_rev: "txt_num cs = num10 (map char_digit (rev cs)) 0 (length cs)"
proof (induction cs rule: rev_induct)
  case (snoc c cs)
  have "num10 (map char_digit (rev (cs @ [c]))) (Suc 0) (length cs) = num10 (map char_digit (rev cs)) 0 (length cs)"
    by (rule num10_cong) simp
  then show ?case using snoc by (simp add: num10_head)
qed simp

lemma txt_num_low:
  assumes "list_all isdigit cs" "n \<le> length cs"
  shows "num10 (map char_digit (rev cs)) 0 n = txt_num cs mod 10 ^ n"
proof -
  let ?r = "map char_digit (rev cs)"
  obtain k where k: "length cs = n + k" using assms(2) le_Suc_ex by blast
  have "?r ! i \<le> 9" if "i < length cs" for i
    using assms(1) that by (simp add: rev_nth list_all_length isdigit_value)
  then have "num10 ?r 0 n < 10 ^ n" using assms(2) by (intro num10_less) simp
  then show ?thesis by (simp add: txt_num_rev k num10_add)
qed

section \<open>The written text\<close>

lemma put_digits_eq: "put_digits ds (int (lo + n) - 1) (int lo) = rev (map (\<lambda>i. digit_char (ds ! i)) [lo..<lo + n])"
proof (induction n)
  case (Suc n)
  have "int (lo + Suc n) - 1 = int (lo + n)" "int lo \<le> int (lo + n)" by simp_all
  then show ?case using Suc by (subst put_digits.simps) (simp add: nat_int_add)
qed (simp add: put_digits.simps)

lemma put_zeros_eq: "put_zeros (int (lo + n) - 1) (int lo) = replicate n (CHR ''0'')"
proof (induction n)
  case (Suc n)
  have "int (lo + Suc n) - 1 = int (lo + n)" "int lo \<le> int (lo + n)" by simp_all
  then show ?case using Suc by (subst put_zeros.simps) simp
qed (simp add: put_zeros.simps)

lemma put_digits_spec:
  assumes "\<And>i. i < lo + n \<Longrightarrow> ds ! i \<le> 9"
  defines "t \<equiv> put_digits ds (int (lo + n) - 1) (int lo)"
  shows "length t = n" "list_all isdigit t" "txt_num t = num10 ds lo n"
proof -
  have t: "t = rev (map (\<lambda>i. digit_char (ds ! i)) [lo..<lo + n])" unfolding t_def by (rule put_digits_eq)
  show l: "length t = n" by (simp add: t)
  show "list_all isdigit t" using assms(1) by (simp add: t list_all_iff)
  have "num10 (map char_digit (rev t)) 0 n = num10 ds lo n" using assms(1) by (intro num10_cong) (simp add: t)
  then show "txt_num t = num10 ds lo n" by (simp add: txt_num_rev l)
qed

text \<open>
  \<open>dec_text d is fs\<close>: the text has the whole digits \<open>is\<close>, and the fraction \<open>fs\<close> behind a point unless it
  is empty.
\<close>

definition dec_text :: "bool \<Rightarrow> string \<Rightarrow> string \<Rightarrow> string" where
  "dec_text neg is fs = (if neg then ''-'' else []) @ is @ (if fs = [] then [] else CHR ''.'' # fs)"

lemma doGetString_text:
  assumes wf: "dec_wf d" and nz: "dval d \<noteq> 0"
  shows "\<exists>is fs. doGetString d = dec_text (negative d) is fs \<and> list_all isdigit is \<and> list_all isdigit fs \<and>
    is \<noteq> [] \<and> length is \<le> 32 \<and> length fs \<le> 32 \<and> getStringLength d = length (doGetString d) \<and>
    dval d = txt_num is * 10 ^ 32 + txt_num fs * 10 ^ (32 - length fs)"
proof -
  obtain lo' hi' where c: "clip d = (lo', hi')" by fastforce
  have lh: "lo' \<le> hi'" using clip_iff_zero [OF c] nz by simp
  note k = clip_nonempty [OF c lh]
  obtain lo hi where n: "lo' = int lo" "hi' = int hi" using lh k(1) nonneg_int_cases by (metis order_trans)
  have h: "lo \<le> hi" "hi < 64" using lh n k(3) dec_wfD(2) [OF wf] by auto
  let ?ds = "digits d"
  have ok: "?ds ! i \<le> 9" if "i \<le> hi" for i using dec_wfD(1) [OF wf] h that by (intro digits_ok_nth) auto
  have dv: "dval d = seg10 ?ds lo (Suc hi)" using k(6) n by simp
  consider "hi < 32" | "lo < 32" "32 \<le> hi" | "32 \<le> lo" by linarith
  then show ?thesis
  proof cases
    case 1
    let ?z = "replicate (31 - hi) (CHR ''0'')" and ?p = "put_digits ?ds (int hi) (int lo)"
    have p: "length ?p = Suc hi - lo" "list_all isdigit ?p" "txt_num ?p = num10 ?ds lo (Suc hi - lo)"
      using put_digits_spec [of lo "Suc hi - lo" ?ds] ok h(1) by simp_all
    have z: "put_zeros 31 (int hi + 1) = ?z" using put_zeros_eq [of "Suc hi" "31 - hi"] 1 by (simp add: add.commute)
    have "doGetString d = dec_text (negative d) ''0'' (?z @ ?p)"
      using c n h 1 z p(1) by (auto simp: doGetString_def dec_text_def)
    moreover have "getStringLength d = length (dec_text (negative d) ''0'' (?z @ ?p))"
      using c n h 1 p(1) by (auto simp: getStringLength_def dec_text_def Let_def)
    moreover have "dval d = txt_num (?z @ ?p) * 10 ^ (32 - length (?z @ ?p))"
      using dv p h 1 seg10_num10 [of ?ds lo "Suc hi - lo"] by (simp add: txt_num_append)
    ultimately show ?thesis using p h 1
      by - (rule exI [of _ "''0''"], rule exI [of _ "?z @ ?p"], auto simp: txt_num_Cons list_all_iff)
  next
    case 2
    let ?p = "put_digits ?ds (int hi) 32" and ?q = "put_digits ?ds 31 (int lo)"
    have p: "length ?p = hi - 31" "list_all isdigit ?p" "txt_num ?p = num10 ?ds 32 (hi - 31)"
      using put_digits_spec [of 32 "hi - 31" ?ds] ok 2 by simp_all
    have q: "length ?q = 32 - lo" "list_all isdigit ?q" "txt_num ?q = num10 ?ds lo (32 - lo)"
      using put_digits_spec [of lo "32 - lo" ?ds] ok 2 by simp_all
    have "doGetString d = dec_text (negative d) ?p ?q"
      using c n h 2 q(1) by (auto simp: doGetString_def dec_text_def)
    moreover have "getStringLength d = length (dec_text (negative d) ?p ?q)"
      using c n h 2 p(1) q(1) by (auto simp: getStringLength_def dec_text_def Let_def)
    moreover have "dval d = num10 ?ds 32 (hi - 31) * 10 ^ 32 + num10 ?ds lo (32 - lo) * 10 ^ lo"
      using dv seg10_split [of lo 32 "Suc hi" ?ds] seg10_num10 [of ?ds lo "32 - lo"] seg10_num10 [of ?ds 32 "hi - 31"] 2 by simp
    ultimately show ?thesis using p q h 2 by - (rule exI [of _ ?p], rule exI [of _ ?q], auto)
  next
    case 3
    let ?p = "put_digits ?ds (int hi) (int lo)" and ?z = "replicate (lo - 32) (CHR ''0'')"
    have p: "length ?p = Suc hi - lo" "list_all isdigit ?p" "txt_num ?p = num10 ?ds lo (Suc hi - lo)"
      using put_digits_spec [of lo "Suc hi - lo" ?ds] ok h(1) by simp_all
    have z: "put_zeros (int lo - 1) 32 = ?z" using put_zeros_eq [of 32 "lo - 32"] 3 by simp
    have "doGetString d = dec_text (negative d) (?p @ ?z) []"
      using c n h 3 z by (auto simp: doGetString_def dec_text_def)
    moreover have "getStringLength d = length (dec_text (negative d) (?p @ ?z) [])"
      using c n h 3 p(1) by (auto simp: getStringLength_def dec_text_def Let_def)
    moreover have "dval d = txt_num (?p @ ?z) * 10 ^ 32"
    proof -
      have "(10::nat) ^ lo = 10 ^ (lo - 32) * 10 ^ 32" using 3 by (simp only: power_add [symmetric] le_add_diff_inverse2)
      then show ?thesis
        using dv p h seg10_num10 [of ?ds lo "Suc hi - lo"] by (simp only: txt_num_append txt_num_zeros length_replicate) (simp add: mult.assoc)
    qed
    ultimately show ?thesis using p h 3
      by - (rule exI [of _ "?p @ ?z"], rule exI [of _ "[]"], auto simp: list_all_iff)
  qed
qed

lemma doGetString_zero: "dval d = 0 \<Longrightarrow> doGetString d = ''0'' \<and> getStringLength d = 1"
  using clip_iff_zero [of d "fst (clip d)" "snd (clip d)"]
  by (auto simp: doGetString_def getStringLength_def split: prod.splits)

lemma getStringLength_spec: "dec_wf d \<Longrightarrow> getStringLength d = length (doGetString d)"
  using doGetString_text [of d] doGetString_zero [of d] by (cases "dval d = 0") auto

section \<open>The text read\<close>

lemma scan_digits_append:
  "list_all isdigit cs \<Longrightarrow> rest = [] \<or> \<not> isdigit (hd rest) \<Longrightarrow> scan_digits (cs @ rest) = (cs, rest)"
proof (induction cs)
  case Nil
  then show ?case by (cases rest) auto
qed auto

lemma skip_spaces_append: "cs = [] \<or> hd cs \<noteq> CHR '' '' \<Longrightarrow> skip_spaces (replicate n (CHR '' '') @ cs) = cs"
  by (induction n) (cases cs; simp)+

lemma set_int_digits_spec:
  assumes "digits_ok ds" "list_all isdigit t" "idx + n \<le> length t" "idx + n \<le> 32"
  shows "digits_ok (set_int_digits ds t idx n) \<and>
    (\<forall>k. set_int_digits ds t idx n ! k =
      (if 32 + idx \<le> k \<and> k < 32 + idx + n then char_digit (t ! (length t - (k - 32 + 1))) else ds ! k))"
  using assms
proof (induction ds t idx n rule: set_int_digits.induct)
  case (2 ds t idx n)
  let ?v = "char_digit (t ! (length t - (idx + 1)))"
  have v: "?v \<le> 9" using 2(3,4) by (intro isdigit_value) (auto simp: list_all_length)
  have l: "length ds = 64" using 2(2) by (simp add: digits_ok_length)
  note IH = 2(1) [OF digits_ok_update [OF 2(2) v] 2(3)]
  have "digits_ok (set_int_digits ds t idx (Suc n))" using IH 2(4,5) by simp
  moreover have "set_int_digits ds t idx (Suc n) ! k =
      (if 32 + idx \<le> k \<and> k < 32 + idx + Suc n then char_digit (t ! (length t - (k - 32 + 1))) else ds ! k)" for k
  proof (cases "k = 32 + idx")
    case True
    then show ?thesis using IH 2(4,5) l by simp
  next
    case False
    then have "(32 + Suc idx \<le> k \<and> k < 32 + Suc idx + n) \<longleftrightarrow> (32 + idx \<le> k \<and> k < 32 + idx + Suc n)" by auto
    then show ?thesis using IH 2(4,5) False by simp
  qed
  ultimately show ?case by blast
qed simp

lemma set_int_digits_value:
  assumes "digits_ok ds" "list_all isdigit t" "n = min (length t) 32"
  defines "ds' \<equiv> set_int_digits ds t 0 n"
  shows "digits_ok ds'" "seg10 ds' 32 (32 + n) = (txt_num t mod 10 ^ 32) * 10 ^ 32"
proof -
  note s = set_int_digits_spec [OF assms(1,2), of 0 n]
  show "digits_ok ds'" using s assms(3) by (simp add: ds'_def)
  have "num10 ds' 32 n = num10 (map char_digit (rev t)) 0 n"
    using s assms(3) by (intro num10_cong) (simp add: ds'_def rev_nth)
  also have "\<dots> = txt_num t mod 10 ^ n" using assms(2,3) by (intro txt_num_low) auto
  also have "\<dots> = txt_num t mod 10 ^ 32"
  proof (cases "length t \<le> 32")
    case True
    then have n: "n = length t" using assms(3) by simp
    have "txt_num t = txt_num t mod 10 ^ n" using txt_num_low [OF assms(2), of n] n by (simp add: txt_num_rev [symmetric])
    then have lt: "txt_num t < 10 ^ n" by (metis mod_less_divisor zero_less_numeral zero_less_power)
    also have "\<dots> \<le> 10 ^ 32" using True n by (intro power_increasing) auto
    finally show ?thesis using lt by simp
  qed (simp add: assms(3))
  finally show "seg10 ds' 32 (32 + n) = (txt_num t mod 10 ^ 32) * 10 ^ 32" by (simp add: seg10_num10)
qed

lemma set_frac_digits_spec:
  assumes "digits_ok ds" "n \<le> pos" "pos \<le> 64"
  shows "\<exists>ds' fs. fs = take n (takeWhile isdigit cur) \<and> set_frac_digits ds pos cur n = (ds', pos - length fs) \<and> digits_ok ds' \<and>
    (\<forall>k. k < pos - length fs \<or> pos \<le> k \<longrightarrow> ds' ! k = ds ! k) \<and>
    seg10 ds' (pos - length fs) pos = txt_num fs * 10 ^ (pos - length fs)"
  using assms
proof (induction ds pos cur n rule: set_frac_digits.induct)
  case (3 ds pos c cs n)
  show ?case
  proof (cases "isdigit c")
    case False
    then show ?thesis using 3 by simp
  next
    case True
    let ?fs = "take n (takeWhile isdigit cs)" and ?ds = "ds[pos - 1 := char_digit c]"
    have p: "pos - 1 < pos" "n \<le> pos - 1" "pos - 1 \<le> 64" "pos - 1 < 64" using 3(3,4) by auto
    obtain ds' where IH: "set_frac_digits ?ds (pos - 1) cs n = (ds', pos - 1 - length ?fs)" "digits_ok ds'"
      "\<forall>k. k < pos - 1 - length ?fs \<or> pos - 1 \<le> k \<longrightarrow> ds' ! k = ?ds ! k"
      "seg10 ds' (pos - 1 - length ?fs) (pos - 1) = txt_num ?fs * 10 ^ (pos - 1 - length ?fs)"
      using 3(1) [OF True digits_ok_update [OF 3(2) isdigit_value [OF True]] p(2,3)] by blast
    have fs: "length ?fs \<le> pos - 1" using p by simp
    have nth: "ds' ! (pos - 1) = char_digit c" using IH(3) 3(2) p by (simp add: digits_ok_length)
    have e: "pos - Suc (length ?fs) = pos - 1 - length ?fs" "Suc (pos - 1) = pos" using p by auto
    have "seg10 ds' (pos - 1 - length ?fs) pos = txt_num ?fs * 10 ^ (pos - 1 - length ?fs) + char_digit c * 10 ^ (pos - 1)"
      using seg10_Suc [OF diff_le_self, of ds' "pos - 1" "length ?fs"] IH(4) nth e(2) by simp
    moreover have "(10::nat) ^ (pos - 1) = 10 ^ length ?fs * 10 ^ (pos - 1 - length ?fs)"
      using fs by (simp only: power_add [symmetric] le_add_diff_inverse)
    ultimately have "seg10 ds' (pos - 1 - length ?fs) pos = txt_num (c # ?fs) * 10 ^ (pos - 1 - length ?fs)"
      by (simp only: txt_num_Cons add_mult_distrib mult.assoc add.commute)
    moreover have "\<forall>k. k < pos - 1 - length ?fs \<or> pos \<le> k \<longrightarrow> ds' ! k = ds ! k"
    proof (intro allI impI)
      fix k assume a: "k < pos - 1 - length ?fs \<or> pos \<le> k"
      then have "ds' ! k = ?ds ! k" using IH(3) by (metis diff_le_self le_trans)
      moreover have "k \<noteq> pos - 1" using a p by auto
      ultimately show "ds' ! k = ds ! k" by simp
    qed
    ultimately show ?thesis using True IH(1,2) e(1) by simp
  qed
qed auto

text \<open>
  What \<^verbatim>\<open>setCString\<close> makes of a text that starts with blanks, an optional minus, digits and possibly a
  point with digits: the low 32 whole digits and the first 32 digits of the fraction.
\<close>

definition text_value :: "string \<Rightarrow> string \<Rightarrow> nat" where
  "text_value is fs = (txt_num is mod 10 ^ 32) * 10 ^ 32 + txt_num (take 32 fs) * 10 ^ (32 - length (take 32 fs))"

lemma setCString_spec:
  fixes n :: nat
  assumes ok: "digits_ok (digits d)" and ii: "list_all isdigit is" and fs: "list_all isdigit fs"
    and rest: "rest = [] \<or> \<not> isdigit (hd rest) \<and> (fs = [] \<longrightarrow> hd rest \<noteq> CHR ''.'' \<and> (is = [] \<longrightarrow> \<not> neg \<longrightarrow> hd rest \<noteq> CHR '' '' \<and> hd rest \<noteq> CHR ''-''))"
  defines "text \<equiv> replicate n (CHR '' '') @ dec_text neg is fs @ rest"
  shows "dec_wf (setCString d text) \<and> negative (setCString d text) = neg \<and> dval (setCString d text) = text_value is fs"
proof -
  let ?tail = "(if fs = [] then [] else CHR ''.'' # fs) @ rest"
  let ?n = "min (length is) 32"
  define ds where "ds = set_int_digits (digits d) is 0 ?n"
  note v = set_int_digits_value [OF ok ii refl, folded ds_def]
  have nosp: "skip_spaces text = (if neg then ''-'' else []) @ is @ ?tail"
  proof -
    have "is @ ?tail = [] \<or> hd (is @ ?tail) \<noteq> CHR '' ''" if "\<not> neg"
      using that ii rest by (cases "is"; cases "fs") auto
    then have "(if neg then ''-'' else []) @ is @ ?tail = [] \<or> hd ((if neg then ''-'' else []) @ is @ ?tail) \<noteq> CHR '' ''"
      by (cases neg) simp_all
    then show ?thesis unfolding text_def dec_text_def append_assoc by (rule skip_spaces_append)
  qed
  have nominus: "is @ ?tail = [] \<or> hd (is @ ?tail) \<noteq> CHR ''-''" if "\<not> neg"
    using that ii rest by (cases "is"; cases "fs") auto
  have scan: "scan_digits (is @ ?tail) = (is, ?tail)"
    using ii rest by (intro scan_digits_append) auto
  let ?neg = "skip_spaces text \<noteq> [] \<and> hd (skip_spaces text) = CHR ''-''"
  have neg: "?neg = neg" "(if neg then tl (skip_spaces text) else skip_spaces text) = is @ ?tail"
    using nominus by (auto simp: nosp)
  have b: "byte (32 + (int ?n - 1)) = 31 + ?n" by (simp add: nat_add_distrib nat_diff_distrib' of_nat_min)
  show ?thesis
  proof (cases "fs = []")
    case True
    have e: "setCString d text = d\<lparr>negative := neg, digits := ds, msb := 31 + ?n, lsb := 32\<rparr>"
      unfolding setCString_def Let_def neg scan prod.case ds_def [symmetric] b using True rest by auto
    have "dec_wf (setCString d text)" using e v(1) by (simp add: dec_wf_def)
    moreover have "dval (setCString d text) = text_value is fs"
      using v(2) True by (simp add: e dval_def text_value_def)
    ultimately show ?thesis using e by simp
  next
    case False
    let ?fs = "take 32 fs"
    have tw: "takeWhile isdigit (fs @ rest) = fs"
      using fs rest by (cases rest) (auto simp: takeWhile_append list_all_iff)
    obtain ds' where f: "set_frac_digits ds 32 (fs @ rest) 32 = (ds', 32 - length ?fs)" "digits_ok ds'"
      "\<forall>k. 32 \<le> k \<longrightarrow> ds' ! k = ds ! k" "seg10 ds' (32 - length ?fs) 32 = txt_num ?fs * 10 ^ (32 - length ?fs)"
      using set_frac_digits_spec [OF v(1), of 32 32 "fs @ rest"] tw by auto
    have e: "setCString d text = d\<lparr>negative := neg, digits := ds', msb := 31 + ?n, lsb := 32 - length ?fs\<rparr>"
      unfolding setCString_def Let_def neg scan prod.case ds_def [symmetric] b using False f(1) by auto
    have "?n < 33" "32 - length ?fs \<le> 64" by auto
    then have "dec_wf (setCString d text)" using e f(2) by (simp add: dec_wf_def del: length_take)
    moreover have "dval (setCString d text) = text_value is fs"
    proof -
      have "seg10 ds' 32 (32 + ?n) = seg10 ds 32 (32 + ?n)" using f(3) by (intro seg10_cong) simp
      moreover have "dval (setCString d text) = seg10 ds' (32 - length ?fs) 32 + seg10 ds' 32 (32 + ?n)"
        using seg10_split [of "32 - length ?fs" 32 "32 + ?n" ds'] by (simp add: e dval_def)
      ultimately show ?thesis using v(2) f(4) by (simp add: text_value_def)
    qed
    ultimately show ?thesis using e by simp
  qed
qed

lemma txt_num_less: "list_all isdigit cs \<Longrightarrow> length cs \<le> 32 \<Longrightarrow> txt_num cs < 10 ^ 32"
proof -
  assume a: "list_all isdigit cs" "length cs \<le> 32"
  have "txt_num cs = txt_num cs mod 10 ^ length cs" using txt_num_low [OF a(1) order_refl] by (simp add: txt_num_rev [symmetric])
  then have "txt_num cs < 10 ^ length cs" by (metis mod_less_divisor zero_less_numeral zero_less_power)
  also have "\<dots> \<le> 10 ^ 32" using a(2) by (intro power_increasing) auto
  finally show ?thesis .
qed

lemma setCString_doGetString:
  assumes "dec_wf d" "digits_ok (digits d0)"
  shows "dec_wf (setCString d0 (doGetString d)) \<and> sval (setCString d0 (doGetString d)) = sval d"
proof (cases "dval d = 0")
  case True
  have "doGetString d = replicate 0 (CHR '' '') @ dec_text False ''0'' [] @ []"
    using doGetString_zero [OF True] by (simp add: dec_text_def)
  moreover have "list_all isdigit ''0''" by simp
  ultimately show ?thesis
    using setCString_spec [OF assms(2), of "''0''" "[]" "[]" False 0] True
    by (simp add: sval_def text_value_def txt_num_Cons)
next
  case False
  obtain "is" fs where t: "doGetString d = dec_text (negative d) is fs" "list_all isdigit is" "list_all isdigit fs"
    "length is \<le> 32" "length fs \<le> 32" "dval d = txt_num is * 10 ^ 32 + txt_num fs * 10 ^ (32 - length fs)"
    using doGetString_text [OF assms(1) False] by blast
  have "text_value is fs = dval d" using t(2,4,5,6) txt_num_less [of "is"] by (simp add: text_value_def)
  then show ?thesis
    using setCString_spec [OF assms(2) t(2,3), of "[]" "negative d" 0] t(1) by (simp add: sval_flip)
qed

lemma set_frac_digits_take:
  "set_frac_digits ds pos (take n cur) (length (take n cur)) = set_frac_digits ds pos cur n"
  by (induction ds pos cur n rule: set_frac_digits.induct) auto

lemma setString_setCString: "setString d len buffer = setCString d (take len buffer)"
proof -
  have e: "(if length cur > 32 then take 32 cur else cur) = take 32 cur" for cur :: string by simp
  show ?thesis unfolding setString_def setCString_def Let_def e set_frac_digits_take ..
qed

end
