(* ===== verification/Nbcd_Bcd.thy ===== *)
theory Nbcd_Bcd
  imports Nbcd_Packed
begin

text \<open>
  Correctness of the packed decimal conversions: what is read and written is given by the nibbles of
  the bytes, most significant first, and by the number a list of digits denotes.
\<close>

unbundle bit_operations_syntax

declare skip_high.simps [simp del] and unpack_loop.simps [simp del] and pad_loop.simps [simp del]
  and pack_loop.simps [simp del] and trail_loop.simps [simp del]

section \<open>Nibbles and their number\<close>

definition nibbles :: "nat list \<Rightarrow> nat list" where
  "nibbles bs = concat (map (\<lambda>b. [b div 16, b mod 16]) bs)"

definition dnum :: "nat list \<Rightarrow> nat" where
  "dnum xs = num10 (rev xs) 0 (length xs)"

lemma nibbles_simps [simp]: "nibbles [] = []" "nibbles (b # bs) = b div 16 # b mod 16 # nibbles bs"
  "nibbles (xs @ ys) = nibbles xs @ nibbles ys" "length (nibbles bs) = 2 * length bs"
  by (simp_all add: nibbles_def length_concat sum_list_triv comp_def)

lemma nibbles_nth: "i < length bs \<Longrightarrow> nibbles bs ! (2 * i) = bs ! i div 16 \<and> nibbles bs ! Suc (2 * i) = bs ! i mod 16"
proof (induction bs arbitrary: i)
  case (Cons b bs)
  then show ?case by (cases i) auto
qed simp

lemma num10_rev: "num10 (rev xs) 0 n = num10 (rev xs @ ys) 0 n" if "n \<le> length xs"
  using that by (intro num10_cong) (simp add: nth_append)

lemma dnum_Nil [simp]: "dnum [] = 0"
  by (simp add: dnum_def)

lemma dnum_Cons: "dnum (x # xs) = x * 10 ^ length xs + dnum xs"
  by (simp add: dnum_def num10_Suc nth_append num10_rev [symmetric])

lemma dnum_append: "dnum (xs @ ys) = dnum xs * 10 ^ length ys + dnum ys"
  by (induction xs) (simp_all add: dnum_Cons power_add algebra_simps)

lemma dnum_zeros [simp]: "dnum (replicate n 0) = 0"
  by (induction n) (simp_all add: dnum_Cons)

lemma dnum_less: "list_all (\<lambda>x. x \<le> 9) xs \<Longrightarrow> dnum xs < 10 ^ length xs"
  unfolding dnum_def by (intro num10_less) (simp add: rev_nth list_all_length)

text \<open>The low digits of a number, found in an array: least significant first from offset \<open>a\<close>.\<close>

lemma dnum_low:
  assumes "list_all (\<lambda>x. x \<le> 9) xs" "n \<le> length xs" "\<And>i. i < n \<Longrightarrow> ds ! (a + i) = xs ! (length xs - 1 - i)"
  shows "num10 ds a n = dnum xs mod 10 ^ n"
proof -
  obtain k where k: "length xs = n + k" using assms(2) le_Suc_ex by blast
  have "num10 ds a n = num10 (rev xs) 0 n" using assms(2,3) by (intro num10_cong) (simp add: rev_nth)
  moreover have "num10 (rev xs) 0 n < 10 ^ n"
    using assms(1,2) by (intro num10_less) (simp add: rev_nth list_all_length)
  ultimately show ?thesis by (simp add: dnum_def k num10_add)
qed

text \<open>Masks of the low and of the high nibble.\<close>

lemma and_15: "(b::nat) AND 15 = b mod 16"
proof -
  have "b AND mask 4 = b mod 2 ^ 4" by (simp flip: take_bit_eq_mask add: take_bit_eq_mod)
  then show ?thesis by (simp add: mask_eq_exp_minus_1)
qed

lemma and_240_table: "list_all (\<lambda>b. b AND 240 = b div 16 * 16) [0..<256]"
  by code_simp

lemma and_240: "b < 256 \<Longrightarrow> (b::nat) AND 240 = b div 16 * 16"
  using and_240_table by (simp add: list_all_iff)

section \<open>Reading\<close>

lemma unpack_loop_spec:
  assumes "idx \<le> L" "L \<le> length buffer" "2 * (L - idx) \<le> c" "c \<le> length ds"
  shows "\<exists>ds'. unpack_loop ds buffer (int c - 1) idx (int L) = Inr (ds', int (c - 2 * (L - idx)) - 1, L) \<and>
    length ds' = length ds \<and>
    (\<forall>k. ds' ! k = (if c - 2 * (L - idx) \<le> k \<and> k < c then nibbles buffer ! (2 * idx + (c - 1 - k)) else ds ! k))"
  using assms
proof (induction "L - idx" arbitrary: idx c ds)
  case 0
  then show ?case by (simp add: unpack_loop.simps)
next
  case (Suc n)
  then have i: "idx < L" "idx < length buffer" "2 \<le> c" by auto
  let ?b = "buffer ! idx"
  let ?ds = "ds[c - 1 := ?b div 16, c - 2 := ?b mod 16]"
  have s: "unpack_loop ds buffer (int c - 1) idx (int L) = unpack_loop ?ds buffer (int (c - 2) - 1) (Suc idx) (int L)"
  proof -
    have "nat (int c - 1) = c - 1" "nat (int c - 2) = c - 2" by auto
    then show ?thesis using i Suc.prems unfolding unpack_loop.simps [of ds] by (simp add: rd_in wr_in)
  qed
  have e: "c - 2 - 2 * (L - Suc idx) = c - 2 * (L - idx)" using i by auto
  obtain ds' where IH: "unpack_loop ?ds buffer (int (c - 2) - 1) (Suc idx) (int L) = Inr (ds', int (c - 2 * (L - idx)) - 1, L)"
    "length ds' = length ds"
    "\<forall>k. ds' ! k = (if c - 2 * (L - idx) \<le> k \<and> k < c - 2 then nibbles buffer ! (2 * Suc idx + (c - 2 - 1 - k)) else ?ds ! k)"
  proof -
    have h: "n = L - Suc idx" "Suc idx \<le> L" "2 * (L - Suc idx) \<le> c - 2" "c - 2 \<le> length ?ds"
      using Suc.hyps(2) Suc.prems i by auto
    show thesis using Suc.hyps(1) [OF h(1,2) Suc.prems(2) h(3,4), unfolded e length_list_update] that by blast
  qed
  have "ds' ! k = (if c - 2 * (L - idx) \<le> k \<and> k < c then nibbles buffer ! (2 * idx + (c - 1 - k)) else ds ! k)" for k
  proof -
    have nb: "nibbles buffer ! (2 * idx) = ?b div 16" "nibbles buffer ! Suc (2 * idx) = ?b mod 16"
      using nibbles_nth [OF i(2)] by auto
    have l: "c - 1 < length ds" "c - 2 < length ds" "c - 2 * (L - idx) \<le> c - 2" using Suc.prems i by auto
    obtain c' where c: "c = c' + 2" using i(3) le_Suc_ex by (metis add.commute)
    consider "k = c' + 1" | "k = c'" | "k < c'" | "c \<le> k" unfolding c by linarith
    then show ?thesis
    proof cases
      case 1
      then show ?thesis using IH(3) nb l by (simp add: c)
    next
      case 2
      then show ?thesis using IH(3) nb l by (simp add: c)
    next
      case 3
      then have "2 * Suc idx + (c' - 1 - k) = 2 * idx + (c' + 1 - k)" by auto
      then show ?thesis using IH(3) 3 by (simp add: c)
    next
      case 4
      then show ?thesis using IH(3) by (simp add: c)
    qed
  qed
  then show ?case using s IH by auto
qed

lemma digits_ok_unpacked:
  assumes "digits_ok ds" "length ds' = 64" "list_all (\<lambda>x. x \<le> 9) ns"
    "\<And>k. k < 64 \<Longrightarrow> ds' ! k = ds ! k \<or> (\<exists>j < length ns. ds' ! k = ns ! j)"
  shows "digits_ok ds'"
proof (rule digits_okI [OF assms(2)])
  fix k :: nat
  assume "k < 64"
  then show "ds' ! k \<le> 9"
    using assms(4) [of k] digits_ok_nth [OF assms(1), of k] assms(3) by (auto simp: list_all_length)
qed

lemma setUDecimal_spec:
  assumes wf: "digits_ok (digits d)" and p: "precision \<le> 32" "0 < len" "2 * len \<le> 32 + precision"
    and b: "length buffer = len" "list_all (\<lambda>x. x \<le> 9) (nibbles buffer)"
  shows "\<exists>e. setUDecimal d len precision buffer = Inr e \<and> dec_wf e \<and> lsb e = 32 - precision \<and>
    sval e = int (dnum (nibbles buffer) * 10 ^ (32 - precision))"
proof -
  define l where "l = 32 - precision"
  have l: "l \<le> 32" "l + 2 * len \<le> 64" using p by (auto simp: l_def)
  have y: "byte (int 32 - int precision) = l" "byte (int l + int len * 2 - 1) = l + 2 * len - 1"
    "int (l + 2 * len - 1) = int (l + 2 * len) - 1"
    using p l by (auto simp: byte_def nat_mod_as_int of_nat_diff l_def)
  have "length (digits d) = 64" using wf by (simp add: digits_ok_length)
  then obtain ds where u: "unpack_loop (digits d) buffer (int (l + 2 * len) - 1) 0 (int len) = Inr (ds, int l - 1, len)"
    "length ds = 64" "\<forall>k. ds ! k = (if l \<le> k \<and> k < l + 2 * len then nibbles buffer ! (l + 2 * len - 1 - k) else digits d ! k)"
    using unpack_loop_spec [of 0 len buffer "l + 2 * len" "digits d"] l b(1) by auto
  let ?e = "d\<lparr>lsb := l, msb := l + 2 * len - 1, digits := ds, negative := False\<rparr>"
  have "setUDecimal d len precision buffer = Inr ?e"
    unfolding setUDecimal_def Let_def y u(1) by simp
  moreover have "digits_ok ds"
  proof (rule digits_ok_unpacked [OF wf u(2) b(2)])
    fix k
    have "l + 2 * len - 1 - k < length (nibbles buffer)" if "l \<le> k" using that p(2) b(1) by auto
    then show "ds ! k = digits d ! k \<or> (\<exists>j < length (nibbles buffer). ds ! k = nibbles buffer ! j)"
      using u(3) by auto
  qed
  then have "dec_wf ?e" using l p(2) by (auto simp: dec_wf_def)
  moreover have "dval ?e = dnum (nibbles buffer) * 10 ^ l"
  proof -
    have "num10 ds l (2 * len) = dnum (nibbles buffer) mod 10 ^ (2 * len)"
      using b u(3) by (intro dnum_low) auto
    also have "\<dots> = dnum (nibbles buffer)" using dnum_less [OF b(2)] b(1) by simp
    finally show ?thesis using seg10_num10 [of ds l "2 * len"] p(2) by (simp add: dval_def)
  qed
  ultimately show ?thesis unfolding l_def [symmetric] by (intro exI [of _ ?e]) (simp add: sval_def)
qed

lemma skip_high_spec:
  "\<exists>m' i. skip_high m idx = (m', idx + i) \<and> m = m' + 2 * i \<and> m' \<le> 64 \<and> (i = 0 \<or> 63 \<le> m')"
proof (induction m idx rule: skip_high.induct)
  case (1 m idx)
  show ?case
  proof (cases "m > 64")
    case True
    then obtain m' i where IH: "skip_high (m - 2) (Suc idx) = (m', Suc idx + i)" "m - 2 = m' + 2 * i" "m' \<le> 64" "i = 0 \<or> 63 \<le> m'"
      using 1 by blast
    then show ?thesis using True by (intro exI [of _ m'] exI [of _ "Suc i"]) (auto simp: skip_high.simps [of m])
  qed (simp add: skip_high.simps)
qed

text \<open>
  The place of a digit in the packed form: position \<open>k\<close> is the nibble \<open>2 * len - 2 + lsb - k\<close>. The
  start of \<^verbatim>\<open>setDecimal\<close> leaves the digits from position \<open>c\<close> up written, and the next byte to read is
  the one that has position \<open>c - 1\<close> in its high nibble.
\<close>

lemma setDecimal_start:
  assumes "length buffer = len" "0 < len" "l \<le> 32" "length ds = 64" "skip_high (l + 2 * len - 2) 0 = (m, idx)"
  shows "\<exists>ds' c idx'. (if m = 64
        then res_bind (rd buffer (int idx)) (\<lambda>b.
             res_bind (wr ds (int m - 1) (b mod 16)) (\<lambda>ds. Inr (ds, m - 1, int m - 2, Suc idx)))
        else Inr (ds, m, int m, idx)) = Inr (ds', min (l + 2 * len - 2) 63, int c - 1, idx') \<and>
    length ds' = 64 \<and> l < c \<and> c \<le> 64 \<and> 2 * idx' + c = l + 2 * len - 1 \<and>
    (\<forall>k < 64. ds' ! k = (if c \<le> k \<and> k \<le> min (l + 2 * len - 2) 63 then nibbles buffer ! (2 * len - 2 + l - k) else ds ! k))"
proof -
  have m: "l + 2 * len - 2 = m + 2 * idx" "m \<le> 64" "idx = 0 \<or> 63 \<le> m"
    using skip_high_spec [of "l + 2 * len - 2" 0] assms(5) by auto
  show ?thesis
  proof (cases "m = 64")
    case True
    then have i: "idx < length buffer" using m(1) assms(1-3) by auto
    have "2 * len - 2 + l - 63 = Suc (2 * idx)" using m(1) True assms(2) by auto
    then have n63: "nibbles buffer ! (2 * len - 2 + l - 63) = buffer ! idx mod 16" using nibbles_nth [OF i] by simp
    let ?ds = "ds[63 := buffer ! idx mod 16]"
    have mn: "min (l + 2 * len - 2) 63 = 63" using m(1) True by simp
    have "(if m = 64
        then res_bind (rd buffer (int idx)) (\<lambda>b.
             res_bind (wr ds (int m - 1) (b mod 16)) (\<lambda>ds. Inr (ds, m - 1, int m - 2, Suc idx)))
        else Inr (ds, m, int m, idx)) = Inr (?ds, 63, int 63 - 1, Suc idx)"
      using True i assms(4) by (simp add: rd_in wr_in)
    moreover have "?ds ! k = (if 63 \<le> k \<and> k \<le> 63 then nibbles buffer ! (2 * len - 2 + l - k) else ds ! k)" if "k < 64" for k
      using n63 assms(4) by (cases "k = 63") auto
    moreover have "2 * Suc idx + 63 = l + 2 * len - 1" using m(1) True assms(2) by presburger
    ultimately show ?thesis unfolding mn using assms(3,4)
      by - (rule exI [of _ ?ds], rule exI [of _ 63], rule exI [of _ "Suc idx"], simp)
  next
    case False
    then have "min (l + 2 * len - 2) 63 = m" "l \<le> m" using m assms(2,3) by auto
    moreover have "2 * idx + Suc m = l + 2 * len - 1" using m(1) assms(2) by presburger
    ultimately show ?thesis using m(2) False assms(4)
      by - (rule exI [of _ ds], rule exI [of _ "Suc m"], rule exI [of _ idx], simp)
  qed
qed

lemma setDecimal_spec:
  assumes wf: "digits_ok (digits d)" and p: "precision \<le> 32" "0 < len" "len < 112"
    and b: "length buffer = len" "list_all (\<lambda>x. x \<le> 9) (butlast (nibbles buffer))"
  shows "\<exists>e. setDecimal d len precision buffer = Inr e \<and> dec_wf e \<and> lsb e = 32 - precision \<and>
    sval e = flip (signMap ! (last buffer mod 16) = -1)
      (int (dnum (butlast (nibbles buffer)) mod 10 ^ (32 + precision) * 10 ^ (32 - precision)))"
proof -
  define l where "l = 32 - precision"
  define M where "M = min (l + 2 * len - 2) 63"
  let ?ns = "nibbles buffer"
  have l: "l \<le> 32" "32 + precision = 64 - l" using p by (auto simp: l_def)
  have y: "byte (int 32 - int precision) = l" "byte (int l + int len * 2 - 2) = l + 2 * len - 2"
    using p l by (auto simp: byte_def nat_mod_as_int of_nat_diff l_def)
  have l64: "length (digits d) = 64" using wf by (simp add: digits_ok_length)
  obtain m idx where s: "skip_high (l + 2 * len - 2) 0 = (m, idx)" by fastforce
  obtain ds1 c idx1 where st: "(if m = 64
        then res_bind (rd buffer (int idx)) (\<lambda>b.
             res_bind (wr (digits d) (int m - 1) (b mod 16)) (\<lambda>ds. Inr (ds, m - 1, int m - 2, Suc idx)))
        else Inr (digits d, m, int m, idx)) = Inr (ds1, M, int c - 1, idx1)"
    "length ds1 = 64" "l < c" "c \<le> 64" "2 * idx1 + c = l + 2 * len - 1"
    "\<forall>k < 64. ds1 ! k = (if c \<le> k \<and> k \<le> M then ?ns ! (2 * len - 2 + l - k) else digits d ! k)"
    using setDecimal_start [OF b(1) p(2) l(1) l64 s] unfolding M_def by blast
  have i1: "idx1 \<le> len - 1" "c - 2 * (len - 1 - idx1) = Suc l" "2 * (len - 1 - idx1) \<le> c" using st(3,5) p(2) by auto
  obtain ds2 where u: "unpack_loop ds1 buffer (int c - 1) idx1 (int (len - 1)) = Inr (ds2, int (Suc l) - 1, len - 1)"
    "length ds2 = 64"
    "\<forall>k. ds2 ! k = (if Suc l \<le> k \<and> k < c then ?ns ! (2 * idx1 + (c - 1 - k)) else ds1 ! k)"
    using unpack_loop_spec [OF i1(1) _ i1(3), of buffer ds1] b(1) st(2,4) i1(2) by auto
  have bl: "rd buffer (int (len - 1)) = Inr (last buffer)" "last buffer div 16 = ?ns ! (2 * len - 2)"
  proof -
    have e: "last buffer = buffer ! (len - 1)" "len - 1 < length buffer" using b(1) p(2) by (auto simp: last_conv_nth)
    then show "rd buffer (int (len - 1)) = Inr (last buffer)" by (simp add: rd_in)
    have "2 * (len - 1) = 2 * len - 2" by simp
    then show "last buffer div 16 = ?ns ! (2 * len - 2)" using nibbles_nth [OF e(2)] e(1) by simp
  qed
  let ?ds = "ds2[l := last buffer div 16]"
  let ?e = "d\<lparr>lsb := l, msb := M, digits := ?ds, negative := (signMap ! (last buffer mod 16) = -1)\<rparr>"
  have len1: "int len - 1 = int (len - 1)" using p(2) by simp
  have w: "wr ds2 (int (Suc l) - 1) (last buffer div 16) = Inr ?ds" using u(2) l by (simp add: wr_in)
  have "setDecimal d len precision buffer = Inr ?e"
    unfolding setDecimal_def Let_def y s prod.case st(1) res_bind_simps len1 u(1) bl(1) w ..
  moreover have nth: "?ds ! k = (if l \<le> k \<and> k \<le> M then ?ns ! (2 * len - 2 + l - k) else digits d ! k)" if "k < 64" for k
  proof -
    consider "k = l" | "k < l" | "l < k" "k < c" | "c \<le> k" "l < k" by linarith
    then show ?thesis
    proof cases
      case 1
      moreover have "l \<le> M" using l p(2) by (auto simp: M_def)
      ultimately show ?thesis using bl(2) u(2) l by simp
    next
      case 2
      then show ?thesis using u(3) st(3,6) that by simp
    next
      case 3
      then have "2 * idx1 + (c - 1 - k) = 2 * len - 2 + l - k" "k \<le> M" using st(4,5) p(2) by (auto simp: M_def)
      then show ?thesis using u(3) 3 by simp
    next
      case 4
      then show ?thesis using u(3) st(6) that by simp
    qed
  qed
  moreover have ok: "digits_ok ?ds"
  proof (rule digits_ok_unpacked [OF wf _ b(2)])
    show "length ?ds = 64" using u(2) by simp
    fix k :: nat
    assume k: "k < 64"
    have "2 * len - 2 + l - k < length (butlast ?ns)" if "l \<le> k" using that p(2) b(1) by auto
    then show "?ds ! k = digits d ! k \<or> (\<exists>j < length (butlast ?ns). ?ds ! k = butlast ?ns ! j)"
      using nth [OF k] by (auto simp: nth_butlast)
  qed
  have M: "M < 64" "l \<le> M" "Suc M - l = min (2 * len - 1) (64 - l)" using l p(2) by (auto simp: M_def)
  moreover have "dec_wf ?e" using ok M l by (simp add: dec_wf_def)
  moreover have "dval ?e = dnum (butlast ?ns) mod 10 ^ (64 - l) * 10 ^ l"
  proof -
    let ?n = "Suc M - l"
    have "num10 ?ds l ?n = dnum (butlast ?ns) mod 10 ^ ?n"
    proof (rule dnum_low [OF b(2)])
      show "?n \<le> length (butlast ?ns)" using M(3) b(1) by simp
      fix i assume i: "i < ?n"
      then have "l + i \<le> M" "l + i < 64" using M by auto
      moreover have "2 * len - 2 + l - (l + i) = length (butlast ?ns) - 1 - i" "length (butlast ?ns) - 1 - i < length (butlast ?ns)"
        using b(1) p(2) by auto
      ultimately show "?ds ! (l + i) = butlast ?ns ! (length (butlast ?ns) - 1 - i)"
        using nth [of "l + i"] by (simp add: nth_butlast)
    qed
    also have "\<dots> = dnum (butlast ?ns) mod 10 ^ (64 - l)"
    proof (cases "2 * len - 1 \<le> 64 - l")
      case True
      have lt: "dnum (butlast ?ns) < 10 ^ (2 * len - 1)" using dnum_less [OF b(2)] b(1) by simp
      also have "\<dots> \<le> 10 ^ (64 - l)" using True by (intro power_increasing) auto
      finally show ?thesis using lt True M(3) by simp
    qed (use M(3) in simp)
    finally show ?thesis using seg10_num10 [of ?ds l ?n] M(2) by (simp add: dval_def)
  qed
  ultimately show ?thesis unfolding l(2) l_def [symmetric] by (intro exI [of _ ?e]) (simp add: sval_flip)
qed

end
