(* ===== verification/Nbcd_Pack.thy ===== *)
theory Nbcd_Pack
  imports Nbcd_Bcd
begin

text \<open>
  Correctness of writing packed decimals: the nibbles that \<^verbatim>\<open>doGetDecimal\<close> writes are the digits of the
  value in the window of the target format, and reading them back gives the value cut to that format.
\<close>

unbundle bit_operations_syntax

section \<open>The digit at a position\<close>

definition dig :: "decimal \<Rightarrow> nat \<Rightarrow> nat" where
  "dig d p = (if lsb d \<le> p \<and> p \<le> msb d then digits d ! p else 0)"

lemma dig_le: "dec_wf d \<Longrightarrow> dig d p \<le> 9"
  by (auto simp: dig_def dec_wf_def digits_ok_nth)

lemma dval_dig:
  assumes "dec_wf d" "64 \<le> n"
  shows "dval d = seg10 (map (dig d) [0..<n]) 0 n"
proof -
  have m: "Suc (msb d) \<le> n" using assms by (simp add: dec_wf_def)
  have "seg10 (map (dig d) [0..<n]) 0 n = (\<Sum>i = 0..<n. dig d i * 10 ^ i)" by (simp add: seg10_def)
  also have "\<dots> = (\<Sum>i = lsb d..<Suc (msb d). digits d ! i * 10 ^ i)"
    using m by (intro sum.mono_neutral_cong_right) (auto simp: dig_def)
  finally show ?thesis by (simp add: dval_def seg10_def)
qed

lemma clip_dig:
  assumes "clip d = (lo, hi)"
  shows "(if lo \<le> int p \<and> int p \<le> hi then digits d ! p else 0) = dig d p"
proof -
  let ?lo = "clip_lo (digits d) (int (lsb d)) (int (msb d))"
  have lo: "lo = ?lo" and hi: "hi = clip_hi (digits d) lo (int (msb d))"
    using assms by (auto simp: clip_def Let_def)
  note l = clip_lo_spec [of "int (lsb d)" "digits d" "int (msb d)", folded lo]
  note h = clip_hi_spec [of "digits d" lo "int (msb d)", folded hi]
  have "digits d ! p = 0" if "int (lsb d) \<le> int p" "int p < lo" using l that by (metis nat_int)
  moreover have "digits d ! p = 0" if "hi < int p" "int p \<le> int (msb d)" using h that by (metis nat_int)
  moreover have "int (lsb d) \<le> lo" "hi \<le> int (msb d)" using l h by blast+
  ultimately show ?thesis by (auto simp: dig_def)
qed

lemma clip_range_eq:
  assumes "clip d = (lo, hi)"
  shows "clip_range d a b = (max lo a, if min hi b < max lo a then max lo a - 1 else min hi b)"
proof -
  have "(if lo < a then a else lo) = max lo a" "(if hi > b then b else hi) = min hi b" by auto
  then show ?thesis unfolding clip_range_def assms prod.case Let_def by simp
qed

section \<open>The loops\<close>

text \<open>\<open>window w h n\<close>: the digits that \<open>w\<close> gives at the \<open>n\<close> positions from \<open>h\<close> down.\<close>

definition window :: "(int \<Rightarrow> nat) \<Rightarrow> int \<Rightarrow> nat \<Rightarrow> nat list" where
  "window w h n = map (\<lambda>j. w (h - int j)) [0..<n]"

lemma window_0 [simp]: "window w h 0 = []"
  by (simp add: window_def)

lemma window_Suc: "window w h (Suc n) = w h # window w (h - 1) n"
  by (simp add: window_def upt_conv_Cons map_Suc_upt [symmetric] comp_def algebra_simps del: upt_Suc)

lemma window_add: "window w h (m + n) = window w h m @ window w (h - int m) n"
  by (induction m arbitrary: h) (simp_all add: window_Suc algebra_simps)

lemma window_zero: "(\<And>p. h - int n < p \<Longrightarrow> p \<le> h \<Longrightarrow> w p = 0) \<Longrightarrow> window w h n = replicate n 0"
  by (auto simp: window_def intro!: nth_equalityI)

lemma nibbles_zeros: "nibbles (replicate n 0) = replicate (2 * n) 0"
  by (induction n) simp_all

lemma pad_loop_spec: "pad_loop z = (replicate (z div 2) 0, z mod 2)"
proof (induction z rule: pad_loop.induct)
  case (1 z)
  show ?case
  proof (cases "z \<ge> 2")
    case True
    then obtain k where "z = k + 2" using le_Suc_ex by (metis add.commute)
    then have "z div 2 = Suc ((z - 2) div 2)" "z mod 2 = (z - 2) mod 2" by simp_all
    then show ?thesis using 1 True by (simp add: pad_loop.simps [of z])
  qed (simp add: pad_loop.simps)
qed

lemma trail_loop_spec: "trail_loop a t = replicate (nat ((a - t + 1) div 2)) 0"
proof (induction a t rule: trail_loop.induct)
  case (1 a t)
  show ?case
  proof (cases "a > t")
    case True
    have "(a - t + 1) div 2 = (a - 2 - t + 1) div 2 + 1" by presburger
    moreover have "0 \<le> (a - 2 - t + 1) div 2" using True by presburger
    ultimately have "nat ((a - t + 1) div 2) = Suc (nat ((a - 2 - t + 1) div 2))" by simp
    then show ?thesis using 1 True by (simp add: trail_loop.simps [of a])
  next
    case False
    then have "(a - t + 1) div 2 \<le> 0" by presburger
    then show ?thesis using False by (simp add: trail_loop.simps)
  qed
qed

text \<open>Combining two digits into a byte, checked for all of them.\<close>

lemma pack_table: "list_all (\<lambda>x. list_all (\<lambda>y. byte (int x * 16) OR y = x * 16 + y) [0..<16]) [0..<16]"
  by code_simp

lemma pack_byte: "x < 16 \<Longrightarrow> y < 16 \<Longrightarrow> byte (int x * 16) OR y = x * 16 + y"
  using pack_table by (simp add: list_all_iff)

lemma or_low: "(b::nat) mod 16 = 0 \<Longrightarrow> b < 256 \<Longrightarrow> s < 16 \<Longrightarrow> b OR s = b + s"
proof -
  assume a: "b mod 16 = 0" "b < 256" "s < 16"
  then have b: "b div 16 * 16 = b" "b div 16 < 16" by auto
  have "int (b div 16) * 16 = int b" by (metis b(1) of_nat_mult of_nat_numeral)
  then have "byte (int (b div 16) * 16) = b" using a(2) by simp
  then show ?thesis using pack_byte [OF b(2) a(3)] b(1) by simp
qed

lemma pack_loop_spec:
  assumes "\<And>p. l \<le> p \<Longrightarrow> p \<le> h \<Longrightarrow> w p = ds ! nat p \<and> w p \<le> 9" "l - 1 \<le> h"
  shows "\<exists>bs h'. pack_loop ds l h = (bs, h') \<and> (h' = l \<or> h' = l - 1) \<and> h' \<le> h \<and>
    2 * int (length bs) = h - h' \<and> nibbles bs = window w h (2 * length bs)"
  using assms
proof (induction ds l h rule: pack_loop.induct)
  case (1 ds l h)
  show ?case
  proof (cases "l < h")
    case True
    obtain bs h' where IH: "pack_loop ds l (h - 2) = (bs, h')" "h' = l \<or> h' = l - 1" "h' \<le> h - 2"
      "2 * int (length bs) = h - 2 - h'" "nibbles bs = window w (h - 2) (2 * length bs)"
      using 1(1) [OF True] 1(2) True by fastforce
    let ?b = "byte (int (ds ! nat h) * 16) OR ds ! nat (h - 1)"
    have d: "w h = ds ! nat h" "w h \<le> 9" "w (h - 1) = ds ! nat (h - 1)" "w (h - 1) \<le> 9"
      using 1(2) [of h] 1(2) [of "h - 1"] True by auto
    then have "?b = w h * 16 + w (h - 1)" using pack_byte [of "w h" "w (h - 1)"] by simp
    then have "nibbles (?b # bs) = window w h (2 * length (?b # bs))"
      using IH(5) d by (simp add: window_Suc numeral_2_eq_2 [symmetric] algebra_simps)
    moreover have "pack_loop ds l h = (?b # bs, h')" using True IH(1) by (simp add: pack_loop.simps [of ds l h] Let_def)
    ultimately show ?thesis using IH(2-4) True by auto
  next
    case False
    then show ?thesis using 1(3) by (auto simp: pack_loop.simps)
  qed
qed

section \<open>The whole operation\<close>

text \<open>The bytes in the range that is not empty.\<close>

lemma doGetDecimal_window:
  assumes c: "clip_range d (32 - int prec) tH = (l, h)" "tH = 31 + int maxDig - int prec" "tL = tH - 2 * int len + 1"
    and l: "l \<le> h" "h \<le> tH" "tL \<le> l"
    and w: "\<And>p. l \<le> p \<Longrightarrow> p \<le> h \<Longrightarrow> w p = digits d ! nat p \<and> w p \<le> 9" "\<And>p. p < l \<or> h < p \<Longrightarrow> w p = 0"
  shows "nibbles (doGetDecimal d len maxDig prec) = window w tH (2 * len)"
proof -
  let ?ds = "digits d"
  define k r where "k = nat (tH - h) div 2" and "r = nat (tH - h) mod 2"
  have kr: "tH - h = 2 * int k + int r" "r = 0 \<or> r = 1"
  proof -
    have "int (2 * k + r) = tH - h" using l by (simp add: k_def r_def)
    then show "tH - h = 2 * int k + int r" by simp
    show "r = 0 \<or> r = 1" by (auto simp: r_def)
  qed
  define h1 where "h1 = h - int r"
  define out1 where "out1 = replicate k 0 @ (if r = 0 then [] else [?ds ! nat h])"
  have len1: "2 * int (length out1) = tH - h1" using kr by (auto simp: out1_def h1_def)
  have n1: "nibbles out1 = window w tH (2 * length out1)"
  proof -
    have z: "window w tH (2 * k) = replicate (2 * k) 0" using kr(1) w(2) by (intro window_zero) auto
    show ?thesis
    proof (cases "r = 0")
      case True
      then show ?thesis using z by (simp add: out1_def nibbles_zeros)
    next
      case False
      then have "tH - int (2 * k) = h + 1" using kr by auto
      moreover have "window w (h + 1) 2 = [0, ?ds ! nat h]"
        using w(1) [of h] w(2) [of "h + 1"] l by (simp add: window_Suc numeral_2_eq_2)
      ultimately have "window w tH (2 * k + 2) = replicate (2 * k) 0 @ [0, ?ds ! nat h]"
        using window_add [of w tH "2 * k" 2] z by simp
      then show ?thesis using False w(1) [of h] l by (simp add: out1_def nibbles_zeros)
    qed
  qed
  have h1: "l - 1 \<le> h1" "h1 \<le> h" using l kr(2) by (auto simp: h1_def)
  obtain out2 h2 where p: "pack_loop ?ds l h1 = (out2, h2)" "h2 = l \<or> h2 = l - 1" "2 * int (length out2) = h1 - h2"
    "nibbles out2 = window w h1 (2 * length out2)"
    using pack_loop_spec [of l h1 w ?ds] w(1) h1 by fastforce
  let ?out3 = "(if l = h2 then [byte (int (?ds ! nat l) * 16)] else [])" and ?l' = "(if l = h2 then l - 2 else l)"
  obtain n where n: "int (2 * n) = h2 - tL + 1" "2 * len = 2 * length out1 + (2 * length out2 + 2 * n)"
  proof
    define n where "n = len - length out1 - length out2"
    have "2 * int (length out1 + length out2) = tH - h2" using len1 p(3) by simp
    then have "2 * int (length out1 + length out2) \<le> 2 * int len" using c(3) l p(2) by linarith
    then show "2 * len = 2 * length out1 + (2 * length out2 + 2 * n)" by (simp add: n_def)
    then show "int (2 * n) = h2 - tL + 1" using len1 p(3) c(3) by linarith
  qed
  have n3: "nibbles (?out3 @ trail_loop ?l' tL) = window w h2 (2 * n)"
  proof (cases "l = h2")
    case True
    have "n \<noteq> 0" using n(1) True l by auto
    then obtain j where j: "n = Suc j" by (cases n) auto
    have "l - 2 - tL + 1 = 2 * int j" using n(1) True j by simp
    then have t: "trail_loop (l - 2) tL = replicate j 0" by (simp add: trail_loop_spec)
    have "window w (l - 2) (2 * j) = replicate (2 * j) 0" using w(2) by (intro window_zero) auto
    then have "window w l (2 + 2 * j) = [w l, 0] @ replicate (2 * j) 0"
      using window_add [of w l 2 "2 * j"] w(2) [of "l - 1"] by (simp add: window_Suc numeral_2_eq_2)
    moreover have "w l = ?ds ! nat l" "w l \<le> 9" using w(1) [of l] l by auto
    moreover have "byte (int (w l) * 16) = w l * 16" using pack_byte [of "w l" 0] calculation(3) by simp
    ultimately show ?thesis using True t by (simp add: nibbles_zeros j)
  next
    case False
    then have "l - tL = 2 * int n" using n(1) p(2) by simp
    then have t: "trail_loop l tL = replicate n 0" by (simp add: trail_loop_spec)
    have "window w h2 (2 * n) = replicate (2 * n) 0" using w(2) False p(2) by (intro window_zero) auto
    then show ?thesis using False t by (simp add: nibbles_zeros)
  qed
  have "doGetDecimal d len maxDig prec = out1 @ out2 @ ?out3 @ trail_loop ?l' tL"
  proof -
    have e: "int 32 + int maxDig - int prec - 1 = tH" "tH - int len * 2 + 1 = tL" "int 32 - int prec = 32 - int prec"
      using c(2,3) by auto
    have o: "(if tH > h then case pad_loop (nat (tH - h)) of (bs, zeros) \<Rightarrow>
        if zeros \<noteq> 0 then (bs @ [?ds ! nat h], h - 1) else (bs, h) else ([], h)) = (out1, h1)"
    proof -
      have "pad_loop (nat (tH - h)) = (replicate k 0, r)" by (simp add: pad_loop_spec k_def r_def)
      then show ?thesis using kr l by (auto simp: out1_def h1_def)
    qed
    have f: "(l > h \<or> h > tH) = False" "(if tL > h then tL else if tH < h then tH else h) = h"
      "(if tL > l then tL else l) = l"
      using l by auto
    show ?thesis
      unfolding doGetDecimal_def Let_def e c(1) prod.case f if_False o p(1) by (cases "l = h2") simp_all
  qed
  moreover have "window w tH (2 * len) = window w tH (2 * length out1) @ window w h1 (2 * length out2) @ window w h2 (2 * n)"
  proof -
    have "tH - int (2 * length out1) = h1" "h1 - int (2 * length out2) = h2" using len1 p(3) by simp_all
    then show ?thesis unfolding n(2) window_add by (simp only:)
  qed
  ultimately show ?thesis using n1 p(4) n3 by simp
qed

text \<open>The digits written, in terms of the digits of the value.\<close>

lemma doGetDecimal_digits:
  assumes wf: "dec_wf d" and p: "prec \<le> 32" "maxDig \<le> 2 * len" "0 < maxDig"
  shows "nibbles (doGetDecimal d len maxDig prec) =
    map (\<lambda>j. dig d (31 + maxDig - prec - j)) [0..<maxDig] @ replicate (2 * len - maxDig) 0"
proof -
  define b where "b = 32 - prec"
  define tH where "tH = 31 + int maxDig - int prec"
  have tH: "tH = int (b + maxDig - 1)" "int b = 32 - int prec" using p by (auto simp: tH_def b_def)
  obtain lo hi where c: "clip d = (lo, hi)" by fastforce
  define l where "l = max lo (int b)"
  define h where "h = min hi tH"
  define w where "w p = (if l \<le> p \<and> p \<le> h then digits d ! nat p else 0)" for p :: int
  have dw: "w (int q) = dig d q" if "b \<le> q" "int q \<le> tH" for q
    using clip_dig [OF c, of q] that by (auto simp: w_def l_def h_def split: if_splits)
  have w0: "w q = 0" if "q < int b" for q using that by (simp add: w_def l_def)
  have "window w tH (2 * len) = map (\<lambda>j. dig d (31 + maxDig - prec - j)) [0..<maxDig] @ replicate (2 * len - maxDig) 0"
  proof -
    have e: "2 * len = maxDig + (2 * len - maxDig)" using p by simp
    have "window w tH maxDig = map (\<lambda>j. dig d (31 + maxDig - prec - j)) [0..<maxDig]"
      unfolding window_def
    proof (rule map_cong [OF refl])
      fix j assume "j \<in> set [0..<maxDig]"
      then have j: "j < maxDig" by simp
      then have "tH - int j = int (31 + maxDig - prec - j)" using p by (simp add: tH_def of_nat_diff)
      moreover have "b \<le> 31 + maxDig - prec - j" using j p by (simp add: b_def)
      ultimately show "w (tH - int j) = dig d (31 + maxDig - prec - j)" using dw [of "31 + maxDig - prec - j"] by simp
    qed
    moreover have "window w (tH - int maxDig) (2 * len - maxDig) = replicate (2 * len - maxDig) 0"
      using w0 tH p by (intro window_zero) auto
    ultimately show ?thesis by (subst e) (simp only: window_add)
  qed
  moreover have "nibbles (doGetDecimal d len maxDig prec) = window w tH (2 * len)"
  proof (cases "l \<le> h")
    case True
    then have cr: "clip_range d (32 - int prec) tH = (l, h)"
    proof -
      have "\<not> min hi tH < max lo (int b)" using True unfolding l_def h_def by linarith
      then show ?thesis unfolding clip_range_eq [OF c] tH(2) [symmetric] l_def h_def by (simp only: if_False)
    qed
    have w9: "w p \<le> 9" for p
      using dec_wfD [OF wf] clip_range_bounds(3) [OF c] by (auto simp: w_def h_def l_def intro!: digits_ok_nth)
    have wa: "w p = digits d ! nat p \<and> w p \<le> 9" if "l \<le> p" "p \<le> h" for p using w9 [of p] that by (simp add: w_def)
    have wb: "w p = 0" if "p < l \<or> h < p" for p using that by (auto simp: w_def)
    have "h \<le> tH" "tH - 2 * int len + 1 \<le> l" using p tH by (auto simp: h_def l_def)
    then show ?thesis using doGetDecimal_window [OF cr tH_def refl True _ _ wa wb] by simp
  next
    case False
    then have "doGetDecimal d len maxDig prec = replicate len 0"
    proof -
      have e: "int 32 + int maxDig - int prec - 1 = tH" "int 32 - int prec = int b" using tH by (auto simp: tH_def)
      have "min hi tH < max lo (int b)" using False unfolding l_def h_def by linarith
      then show ?thesis unfolding doGetDecimal_def Let_def e clip_range_eq [OF c] by simp
    qed
    moreover have "window w tH (2 * len) = replicate (2 * len) 0" using False by (intro window_zero) (simp add: w_def)
    ultimately show ?thesis by (simp add: nibbles_zeros)
  qed
  ultimately show ?thesis by simp
qed

text \<open>The number in the digits written.\<close>

lemma dnum_window:
  assumes wf: "dec_wf d"
  shows "dnum (map (\<lambda>j. dig d (b + n - 1 - j)) [0..<n]) = dval d mod 10 ^ (b + n) div 10 ^ b"
proof -
  let ?N = "max 64 (b + n)"
  let ?ds = "map (dig d) [0..<?N]" and ?xs = "map (\<lambda>j. dig d (b + n - 1 - j)) [0..<n]"
  have ok: "?ds ! i \<le> 9" if "i < ?N" for i using dig_le [OF wf] that by simp
  have "dval d mod 10 ^ (b + n) = seg10 ?ds 0 (b + n)"
    using dval_dig [OF wf, of ?N] seg10_mod [of 0 ?N ?ds "b + n"] ok by (simp add: min_def)
  then have "dval d mod 10 ^ (b + n) div 10 ^ b * 10 ^ b = seg10 ?ds b (b + n)"
    using seg10_div [of 0 "b + n" ?ds b] ok by simp
  also have "\<dots> = num10 ?ds b n * 10 ^ b" by (rule seg10_num10)
  also have "num10 ?ds b n = num10 (rev ?xs) 0 n"
  proof (rule num10_cong)
    fix i assume "i < n"
    then have "b + n - 1 - (n - Suc i) = b + i" by simp
    then show "?ds ! (b + i) = rev ?xs ! (0 + i)" using \<open>i < n\<close> by (simp add: rev_nth)
  qed
  finally show ?thesis by (simp add: dnum_def)
qed

lemma getUDecimal_spec:
  assumes wf: "dec_wf d" and p: "prec \<le> 32" "0 < len" "len < 128"
  shows "length (getUDecimal d len prec) = len \<and> list_all (\<lambda>x. x \<le> 9) (nibbles (getUDecimal d len prec)) \<and>
    dnum (nibbles (getUDecimal d len prec)) = dval d mod 10 ^ (32 - prec + 2 * len) div 10 ^ (32 - prec)"
proof -
  have b: "byte (2 * int len) = 2 * len" using p by simp
  have e: "31 + 2 * len - prec = (32 - prec) + 2 * len - 1" using p by simp
  have n: "nibbles (getUDecimal d len prec) = map (\<lambda>j. dig d ((32 - prec) + 2 * len - 1 - j)) [0..<2 * len]"
    using doGetDecimal_digits [OF wf p(1), of "2 * len" len] p unfolding e by (simp add: getUDecimal_def b)
  moreover have "2 * length (getUDecimal d len prec) = 2 * len"
    using arg_cong [OF n, of length] by simp
  ultimately show ?thesis using dnum_window [OF wf, of "32 - prec" "2 * len"] dig_le [OF wf] by (simp add: list_all_iff)
qed

lemma nibbles_last:
  assumes "length bs = len" "0 < len"
  shows "nibbles bs = nibbles (butlast bs) @ [last bs div 16, last bs mod 16]"
proof -
  have "bs = butlast bs @ [last bs]" using assms by (cases bs rule: rev_cases) auto
  then show ?thesis by (metis nibbles_simps(1,2,3))
qed

lemma getDecimal_spec:
  assumes wf: "dec_wf d" and p: "prec \<le> 32" "0 < len" "len < 128" "signs < 256"
  shows "\<exists>buffer. getDecimal d len prec signs = Inr buffer \<and> length buffer = len \<and>
    list_all (\<lambda>x. x \<le> 9) (butlast (nibbles buffer)) \<and>
    last buffer mod 16 = (if negative d then signs mod 16 else signs div 16) \<and>
    dnum (butlast (nibbles buffer)) = dval d mod 10 ^ (32 - prec + (2 * len - 1)) div 10 ^ (32 - prec)"
proof -
  let ?n = "2 * len - 1" and ?s = "if negative d then signs mod 16 else signs div 16"
  define bs where "bs = doGetDecimal d len ?n prec"
  define xs where "xs = map (\<lambda>j. dig d ((32 - prec) + ?n - 1 - j)) [0..<?n]"
  have b: "byte (2 * int len - 1) = ?n" using p by (simp add: nat_diff_distrib' nat_mult_distrib)
  have e: "31 + ?n - prec = (32 - prec) + ?n - 1" "2 * len - ?n = 1" using p by auto
  have n: "nibbles bs = xs @ [0]"
    using doGetDecimal_digits [OF wf p(1), of ?n len] p e unfolding bs_def xs_def by simp
  have "2 * length bs = 2 * len" using arg_cong [OF n, of length] p by (simp add: xs_def)
  then have len: "length bs = len" by simp
  note nl = nibbles_last [OF len p(2)]
  have l: "last bs mod 16 = 0" "xs = nibbles (butlast bs) @ [last bs div 16]" using n nl by auto
  have x9: "list_all (\<lambda>x. x \<le> 9) xs" using dig_le [OF wf] by (simp add: xs_def list_all_iff)
  then have "last bs div 16 \<le> 9" using l(2) by simp
  then have lt: "last bs < 256" by simp
  have s16: "?s < 16" using p(4) by (auto simp: less_mult_imp_div_less)
  have sgn: "(if negative d then signs AND 15 else signs div 16) = ?s"
    by (simp add: and_15)
  let ?buf = "butlast bs @ [last bs + ?s]"
  have bl: "bs = butlast bs @ [last bs]" using len p(2) by (cases bs rule: rev_cases) auto
  have r: "rd bs (int len - 1) = Inr (last bs)"
  proof -
    have "nat (int len - 1) = len - 1" "last bs = bs ! (len - 1)" using len p(2) by (auto simp: last_conv_nth)
    then show ?thesis using len p(2) by (simp add: rd_in)
  qed
  have wq: "wr bs (int len - 1) v = Inr (butlast bs @ [v])" for v
  proof -
    have "nat (int len - 1) = len - 1" by auto
    moreover have "bs[len - 1 := v] = butlast bs @ [v]" using len bl by (metis length_butlast list_update_length)
    ultimately show ?thesis using len p(2) by (simp add: wr_in)
  qed
  have "getDecimal d len prec signs = Inr ?buf"
    unfolding getDecimal_def Let_def b bs_def [symmetric] r sgn res_bind_simps wq using or_low [OF l(1) lt s16] by simp
  moreover have "butlast (nibbles ?buf) = xs" "last ?buf mod 16 = ?s"
  proof -
    have "(last bs + ?s) div 16 = last bs div 16" "(last bs + ?s) mod 16 = ?s" using l(1) s16 by auto
    then show "butlast (nibbles ?buf) = xs" "last ?buf mod 16 = ?s"
      using l(2) by (simp_all add: butlast_append)
  qed
  moreover have "length ?buf = len" using len p(2) by simp
  moreover have "dnum xs = dval d mod 10 ^ (32 - prec + ?n) div 10 ^ (32 - prec)"
    unfolding xs_def by (rule dnum_window [OF wf])
  ultimately show ?thesis using x9 by (intro exI [of _ ?buf]) (simp only: HOL.simp_thms)
qed

text \<open>Writing in a format and reading back cuts the value to that format.\<close>

lemma packed_roundtrip_spec:
  assumes wf: "dec_wf d" "digits_ok (digits d0)" and p: "prec \<le> 32" "0 < len" "2 * len \<le> 33 + prec"
  shows "\<exists>buffer e. getDecimal d len prec 0xFD = Inr buffer \<and> setDecimal d0 len prec buffer = Inr e \<and> dec_wf e \<and>
    sval e = flip (negative d)
      (int (dval d mod 10 ^ (32 - prec + (2 * len - 1)) div 10 ^ (32 - prec) * 10 ^ (32 - prec)))"
proof -
  let ?n = "2 * len - 1"
  obtain buffer where b: "getDecimal d len prec 0xFD = Inr buffer" "length buffer = len"
    "list_all (\<lambda>x. x \<le> 9) (butlast (nibbles buffer))" "last buffer mod 16 = (if negative d then 13 else 15)"
    "dnum (butlast (nibbles buffer)) = dval d mod 10 ^ (32 - prec + ?n) div 10 ^ (32 - prec)"
    using getDecimal_spec [OF wf(1) p(1,2), of "0xFD"] p by auto
  obtain e where e: "setDecimal d0 len prec buffer = Inr e" "dec_wf e"
    "sval e = flip (signMap ! (last buffer mod 16) = -1)
      (int (dnum (butlast (nibbles buffer)) mod 10 ^ (32 + prec) * 10 ^ (32 - prec)))"
    using setDecimal_spec [OF wf(2) p(1,2) _ b(2,3)] p by auto
  have "dnum (butlast (nibbles buffer)) < 10 ^ ?n" using dnum_less [OF b(3)] b(2) by simp
  also have "\<dots> \<le> 10 ^ (32 + prec)" using p by (intro power_increasing) auto
  finally have "dnum (butlast (nibbles buffer)) mod 10 ^ (32 + prec) = dnum (butlast (nibbles buffer))" by simp
  moreover have "(signMap ! (last buffer mod 16) = -1) = negative d" using b(4) by (simp add: signMap_def)
  ultimately show ?thesis using b(1,5) e by (intro exI [of _ buffer] exI [of _ e]) (simp only: HOL.simp_thms)
qed

end
