(* ===== verification/Nbcd_Valid.thy ===== *)
theory Nbcd_Valid
  imports Nbcd_Bcd
begin

text \<open>
  Correctness of the helper functions on packed decimals: the validity check, whose loop over 32 bit
  words tests eight nibbles at a time through the carries of one addition, and the comparisons.
\<close>

unbundle bit_operations_syntax

section \<open>The carries of an addition\<close>

lemma bit_unat: "bit w n = bit (unat (w :: 'a::len word)) n"
  by (simp add: bit_unsigned_iff)

lemma bit_unat_plus:
  fixes v w :: "32 word"
  assumes "n < 32"
  shows "bit (v + w) n = bit (unat v + unat w) n"
proof -
  have "unat (v + w) = take_bit 32 (unat v + unat w)" by (simp add: unat_word_ariths take_bit_eq_mod)
  then show ?thesis using assms by (simp add: bit_unat [of "v + w"] bit_take_bit_iff)
qed

lemma div_sum_less: "a < p \<Longrightarrow> b < p \<Longrightarrow> (a + b) div p = (if a + b < p then 0 else (1::nat))"
  by (auto intro: div_nat_eqI)

text \<open>Where the second summand has a zero bit, the sum differs from the first exactly by the carry.\<close>

lemma bit_add_carry:
  fixes x c :: nat
  assumes "\<not> bit c n"
  shows "bit (x + c) n = bit x n \<longleftrightarrow> x mod 2 ^ n + c mod 2 ^ n < 2 ^ n"
proof -
  let ?p = "(2::nat) ^ n"
  have "x + c = (x mod ?p + c mod ?p) + (x div ?p + c div ?p) * ?p"
    by (simp add: algebra_simps)
  then have s: "(x + c) div ?p = (x mod ?p + c mod ?p) div ?p + (x div ?p + c div ?p)" by simp
  have "(x mod ?p + c mod ?p) div ?p = (if x mod ?p + c mod ?p < ?p then 0 else 1)"
    by (rule div_sum_less) simp_all
  moreover have "even (c div ?p)" using assms by (simp add: bit_nat_def)
  ultimately show ?thesis by (simp add: bit_nat_def s)
qed

definition carry_places :: "nat list" where
  "carry_places = [4, 8, 12, 16, 20, 24, 28]"

lemma mask_places: "list_all (\<lambda>n. bit (0x11111110 :: nat) n = (n \<in> set carry_places)) [0..<32]"
  by code_simp

lemma sixes_places: "list_all (\<lambda>n. \<not> bit (0x66666666 :: nat) n) carry_places"
  by code_simp

lemma no_carry_iff:
  fixes w :: "32 word"
  shows "((w + 0x66666666) XOR w) AND 0x11111110 = 0 \<longleftrightarrow>
    (\<forall>n \<in> set carry_places. unat w mod 2 ^ n + 0x66666666 mod 2 ^ n < 2 ^ n)"
proof -
  have "((w + 0x66666666) XOR w) AND 0x11111110 = 0 \<longleftrightarrow>
      (\<forall>n < 32. \<not> (bit (w + 0x66666666) n \<noteq> bit w n \<and> bit (0x11111110 :: 32 word) n))"
    by (subst bit_eq_iff) (auto simp: bit_simps dest: bit_imp_le_length)
  also have "\<dots> \<longleftrightarrow> (\<forall>n < 32. n \<in> set carry_places \<longrightarrow> bit (w + 0x66666666) n = bit w n)"
  proof -
    have "bit (0x11111110 :: 32 word) n = (n \<in> set carry_places)" if "n < 32" for n
      using mask_places that by (simp add: bit_unat list_all_iff)
    then show ?thesis by blast
  qed
  also have "\<dots> \<longleftrightarrow> (\<forall>n \<in> set carry_places. bit (w + 0x66666666) n = bit w n)"
  proof -
    have "\<forall>n \<in> set carry_places. n < 32" by (simp add: carry_places_def)
    then show ?thesis by blast
  qed
  also have "\<dots> \<longleftrightarrow> (\<forall>n \<in> set carry_places. unat w mod 2 ^ n + 0x66666666 mod 2 ^ n < 2 ^ n)"
  proof (rule ball_cong [OF refl])
    fix n assume n: "n \<in> set carry_places"
    then have "n < 32" "\<not> bit (0x66666666 :: nat) n" using sixes_places by (auto simp: carry_places_def)
    then show "(bit (w + 0x66666666) n = bit w n) = (unat w mod 2 ^ n + 0x66666666 mod 2 ^ n < 2 ^ n)"
      using bit_add_carry [of "0x66666666" n "unat w"] bit_unat_plus [of n w "0x66666666"] by (simp add: bit_unat [of w])
  qed
  finally show ?thesis .
qed

lemma top_nibble:
  fixes w :: "32 word"
  shows "w AND 0xF0000000 > 0x90000000 \<longleftrightarrow> unat w div 2 ^ 28 > 9"
proof -
  let ?m = "0xF0000000 :: nat"
  have d: "drop_bit 28 (unat w AND ?m) = unat w div 2 ^ 28"
  proof -
    have "unat w div 2 ^ 28 < 2 ^ 4" using unat_bound [of w] by (simp add: less_mult_imp_div_less)
    then have "(unat w div 2 ^ 28) AND mask 4 = unat w div 2 ^ 28"
      by (simp flip: take_bit_eq_mask add: take_bit_nat_eq_self)
    moreover have "drop_bit 28 ?m = mask 4" by (simp add: drop_bit_eq_div mask_eq_exp_minus_1)
    ultimately show ?thesis unfolding drop_bit_and by (simp only: drop_bit_eq_div)
  qed
  have t: "take_bit 28 (unat w AND ?m) = 0" unfolding take_bit_and by (simp add: take_bit_eq_mod [of 28 ?m])
  have "unat (w AND 0xF0000000) = unat w AND ?m" by (simp add: unsigned_and_eq)
  also have "\<dots> = unat w div 2 ^ 28 * 2 ^ 28"
    using d t by (metis add.right_neutral div_mult_mod_eq drop_bit_eq_div take_bit_eq_mod)
  finally show ?thesis by (simp add: word_less_nat_alt)
qed

text \<open>A word of eight nibbles passes the test exactly when they all are decimal digits.\<close>

lemma mod_nibble: "z = x + 2 ^ k * y \<Longrightarrow> x < 2 ^ k \<Longrightarrow> z mod 2 ^ k = (x::nat)"
  by simp

lemma div_nibble: "z = x + 2 ^ k * y \<Longrightarrow> x < 2 ^ k \<Longrightarrow> z div 2 ^ k = (y::nat)"
  by simp

lemma word_test:
  fixes n0 n1 n2 n3 n4 n5 n6 n7 :: nat
  assumes lt: "n0 < 16" "n1 < 16" "n2 < 16" "n3 < 16" "n4 < 16" "n5 < 16" "n6 < 16" "n7 < 16"
    and w: "unat (w :: 32 word) = n0 + 16 * n1 + 256 * n2 + 4096 * n3 + 65536 * n4 + 1048576 * n5 + 16777216 * n6 + 268435456 * n7"
  shows "\<not> w AND 0xF0000000 > 0x90000000 \<and> ((w + 0x66666666) XOR w) AND 0x11111110 = 0 \<longleftrightarrow>
    n0 \<le> 9 \<and> n1 \<le> 9 \<and> n2 \<le> 9 \<and> n3 \<le> 9 \<and> n4 \<le> 9 \<and> n5 \<le> 9 \<and> n6 \<le> 9 \<and> n7 \<le> 9"
proof -
  let ?L = "unat w"
  have m: "?L mod 2 ^ 4 = n0" "?L mod 2 ^ 8 = n0 + 16 * n1" "?L mod 2 ^ 12 = n0 + 16 * n1 + 256 * n2"
    "?L mod 2 ^ 16 = n0 + 16 * n1 + 256 * n2 + 4096 * n3" "?L mod 2 ^ 20 = n0 + 16 * n1 + 256 * n2 + 4096 * n3 + 65536 * n4"
    "?L mod 2 ^ 24 = n0 + 16 * n1 + 256 * n2 + 4096 * n3 + 65536 * n4 + 1048576 * n5"
    "?L mod 2 ^ 28 = n0 + 16 * n1 + 256 * n2 + 4096 * n3 + 65536 * n4 + 1048576 * n5 + 16777216 * n6"
    "?L div 2 ^ 28 = n7"
    by (rule mod_nibble [where y = "n1 + 16 * n2 + 256 * n3 + 4096 * n4 + 65536 * n5 + 1048576 * n6 + 16777216 * n7"]
        mod_nibble [where y = "n2 + 16 * n3 + 256 * n4 + 4096 * n5 + 65536 * n6 + 1048576 * n7"]
        mod_nibble [where y = "n3 + 16 * n4 + 256 * n5 + 4096 * n6 + 65536 * n7"]
        mod_nibble [where y = "n4 + 16 * n5 + 256 * n6 + 4096 * n7"] mod_nibble [where y = "n5 + 16 * n6 + 256 * n7"]
        mod_nibble [where y = "n6 + 16 * n7"] mod_nibble [where y = n7]
        div_nibble [where x = "n0 + 16 * n1 + 256 * n2 + 4096 * n3 + 65536 * n4 + 1048576 * n5 + 16777216 * n6"],
        use w lt in simp, use lt in simp)+
  have c: "(\<forall>n \<in> set carry_places. ?L mod 2 ^ n + 0x66666666 mod 2 ^ n < 2 ^ n) \<longleftrightarrow>
    n0 + 6 < 16 \<and> n0 + 16 * n1 + 102 < 256 \<and> n0 + 16 * n1 + 256 * n2 + 1638 < 4096 \<and>
    n0 + 16 * n1 + 256 * n2 + 4096 * n3 + 26214 < 65536 \<and>
    n0 + 16 * n1 + 256 * n2 + 4096 * n3 + 65536 * n4 + 419430 < 1048576 \<and>
    n0 + 16 * n1 + 256 * n2 + 4096 * n3 + 65536 * n4 + 1048576 * n5 + 6710886 < 16777216 \<and>
    n0 + 16 * n1 + 256 * n2 + 4096 * n3 + 65536 * n4 + 1048576 * n5 + 16777216 * n6 + 107374182 < 268435456"
    using m by (simp add: carry_places_def)
  show ?thesis unfolding no_carry_iff top_nibble m c using lt by linarith
qed

section \<open>Validity\<close>

definition byte_digits :: "nat \<Rightarrow> bool" where
  "byte_digits b \<longleftrightarrow> b div 16 \<le> 9 \<and> b mod 16 \<le> 9"

lemma valid_bytes_spec:
  assumes "\<And>i. i < base + n \<Longrightarrow> dp ! i < 256"
  shows "valid_bytes dp base n \<longleftrightarrow> (\<forall>i < n. byte_digits (dp ! (base + i)))"
  using assms
proof (induction n)
  case (Suc n)
  have "dp ! (base + n) < 256" using Suc.prems by simp
  then have "dp ! (base + n) AND 240 > 144 \<longleftrightarrow> dp ! (base + n) div 16 > 9" by (auto simp: and_240)
  then have "(dp ! (base + n) AND 240 > 144 \<or> dp ! (base + n) AND 15 > 9) \<longleftrightarrow> \<not> byte_digits (dp ! (base + n))"
    by (auto simp: byte_digits_def and_15)
  then show ?case using Suc by (auto simp: Let_def less_Suc_eq)
qed simp

lemma valid_dword:
  assumes "\<And>i. i < 4 * k + 4 \<Longrightarrow> dp ! i < 256"
  shows "\<not> read_dword dp k AND 0xF0000000 > 0x90000000 \<and> ((read_dword dp k + 0x66666666) XOR read_dword dp k) AND 0x11111110 = 0 \<longleftrightarrow>
    byte_digits (dp ! (4 * k)) \<and> byte_digits (dp ! (4 * k + 1)) \<and> byte_digits (dp ! (4 * k + 2)) \<and> byte_digits (dp ! (4 * k + 3))"
proof -
  let ?b0 = "dp ! (4 * k)" and ?b1 = "dp ! (4 * k + 1)" and ?b2 = "dp ! (4 * k + 2)" and ?b3 = "dp ! (4 * k + 3)"
  have b: "?b0 < 256" "?b1 < 256" "?b2 < 256" "?b3 < 256" using assms by auto
  have "unat (read_dword dp k) = ?b0 + ?b1 * 256 + ?b2 * 65536 + ?b3 * 16777216"
    unfolding read_dword_def using b by (subst unat_of_nat) simp
  moreover have e: "b = b mod 16 + 16 * (b div 16)" for b :: nat by simp
  ultimately have u: "unat (read_dword dp k) = ?b0 mod 16 + 16 * (?b0 div 16) + 256 * (?b1 mod 16) + 4096 * (?b1 div 16) +
      65536 * (?b2 mod 16) + 1048576 * (?b2 div 16) + 16777216 * (?b3 mod 16) + 268435456 * (?b3 div 16)"
    using e [of ?b0] e [of ?b1] e [of ?b2] e [of ?b3] by linarith
  have "?b0 div 16 < 16" "?b1 div 16 < 16" "?b2 div 16 < 16" "?b3 div 16 < 16" using b by auto
  then show ?thesis using word_test [OF _ _ _ _ _ _ _ _ u] by (auto simp: byte_digits_def)
qed

lemma valid_dwords_spec:
  assumes "\<And>i. i < 4 * n \<Longrightarrow> dp ! i < 256"
  shows "valid_dwords dp n \<longleftrightarrow> (\<forall>i < 4 * n. byte_digits (dp ! i))"
  using assms
proof (induction n)
  case (Suc n)
  have IH: "valid_dwords dp n \<longleftrightarrow> (\<forall>i < 4 * n. byte_digits (dp ! i))" using Suc by simp
  have "valid_dwords dp (Suc n) \<longleftrightarrow> (\<not> read_dword dp n AND 0xF0000000 > 0x90000000 \<and>
      ((read_dword dp n + 0x66666666) XOR read_dword dp n) AND 0x11111110 = 0) \<and> valid_dwords dp n"
    by (simp add: Let_def)
  also have "\<dots> \<longleftrightarrow> (byte_digits (dp ! (4 * n)) \<and> byte_digits (dp ! (4 * n + 1)) \<and> byte_digits (dp ! (4 * n + 2)) \<and>
      byte_digits (dp ! (4 * n + 3))) \<and> (\<forall>i < 4 * n. byte_digits (dp ! i))"
    using valid_dword [of n dp] Suc.prems IH by simp
  also have "\<dots> \<longleftrightarrow> (\<forall>i < 4 * Suc n. byte_digits (dp ! i))"
  proof -
    have "i < 4 * Suc n \<longleftrightarrow> i < 4 * n \<or> i = 4 * n \<or> i = 4 * n + 1 \<or> i = 4 * n + 2 \<or> i = 4 * n + 3" for i by auto
    then show ?thesis by auto
  qed
  finally show ?case .
qed simp

text \<open>
  What a valid packed decimal is: only decimal digits in front of the sign, one of the signs C, D
  and F, and a zero in the nibble that the number of digits leaves over.
\<close>

definition packed_bytes :: "bool \<Rightarrow> nat \<Rightarrow> nat" where
  "packed_bytes isSigned n = (if isSigned then n div 2 + 1 else (n + 1) div 2)"

definition packed_valid :: "bool \<Rightarrow> nat \<Rightarrow> nat list \<Rightarrow> bool" where
  "packed_valid isSigned n bs \<longleftrightarrow>
     (let ns = nibbles bs in
      (if isSigned then last ns \<in> {12, 13, 15} \<and> list_all (\<lambda>x. x \<le> 9) (butlast ns) else list_all (\<lambda>x. x \<le> 9) ns) \<and>
      (odd n = isSigned \<or> hd ns = 0))"

lemma nibbles_digits: "list_all (\<lambda>x. x \<le> 9) (nibbles bs) \<longleftrightarrow> (\<forall>i < length bs. byte_digits (bs ! i))"
  by (induction bs) (auto simp: byte_digits_def nth_Cons All_less_Suc2)

lemma valid_loops:
  assumes "\<And>i. i < n \<Longrightarrow> dp ! i < 256" "n \<le> length dp"
  shows "valid_bytes dp (n div 4 * 4) (n mod 4) \<and> valid_dwords dp (n div 4) \<longleftrightarrow>
    list_all (\<lambda>x. x \<le> 9) (nibbles (take n dp))"
proof -
  have "i < n \<longleftrightarrow> i < 4 * (n div 4) \<or> (\<exists>j < n mod 4. i = n div 4 * 4 + j)" for i
  proof
    assume i: "i < n"
    then have "i - n div 4 * 4 < n mod 4" if "\<not> i < 4 * (n div 4)"
      using that div_mult_mod_eq [of n 4] by linarith
    with i show "i < 4 * (n div 4) \<or> (\<exists>j < n mod 4. i = n div 4 * 4 + j)"
      by (cases "i < 4 * (n div 4)") (auto intro!: exI [of _ "i - n div 4 * 4"])
  next
    assume "i < 4 * (n div 4) \<or> (\<exists>j < n mod 4. i = n div 4 * 4 + j)"
    then show "i < n" using div_mult_mod_eq [of n 4] by linarith
  qed
  moreover have "valid_bytes dp (n div 4 * 4) (n mod 4) \<longleftrightarrow> (\<forall>i < n mod 4. byte_digits (dp ! (n div 4 * 4 + i)))"
    using assms(1) by (intro valid_bytes_spec) simp
  moreover have "valid_dwords dp (n div 4) \<longleftrightarrow> (\<forall>i < 4 * (n div 4). byte_digits (dp ! i))"
    using assms(1) by (intro valid_dwords_spec) auto
  ultimately show ?thesis using assms(2) by (auto simp: nibbles_digits)
qed

lemma decValid_spec:
  assumes "0 < n" "length dp = packed_bytes isSigned n" "list_all (\<lambda>b. b < 256) dp"
  shows "decValid isSigned n (Some dp) \<longleftrightarrow> packed_valid isSigned n dp"
proof -
  define k where "k = packed_bytes isSigned n"
  have k: "length dp = k" "0 < k" using assms by (auto simp: k_def packed_bytes_def)
  have b: "dp ! i < 256" if "i < k" for i using assms(3) that k by (simp add: list_all_length)
  have hd: "hd (nibbles dp) = 0 \<longleftrightarrow> dp ! 0 AND 240 = 0"
    using k b [of 0] by (cases dp) (auto simp: and_240)
  show ?thesis
  proof (cases isSigned)
    case True
    have kk: "(if n mod 2 = 0 then n + 1 else n) div 2 + 1 = k" using True by (auto simp: k_def packed_bytes_def)
    have nl: "nibbles dp = nibbles (take (k - 1) dp) @ [dp ! (k - 1) div 16, dp ! (k - 1) mod 16]"
    proof -
      have "dp = take (k - 1) dp @ [dp ! (k - 1)]" using k by (metis Suc_diff_1 diff_less take_Suc_conv_app_nth take_all order_refl zero_less_one)
      then show ?thesis by (metis nibbles_simps(1,2,3))
    qed
    have sg: "dp ! (k - 1) AND 15 = dp ! (k - 1) mod 16" "dp ! (k - 1) AND 240 > 144 \<longleftrightarrow> dp ! (k - 1) div 16 > 9"
      using b [of "k - 1"] k by (auto simp: and_15 and_240)
    have "packed_valid True n dp \<longleftrightarrow> dp ! (k - 1) mod 16 \<in> {12, 13, 15} \<and> dp ! (k - 1) div 16 \<le> 9 \<and>
        list_all (\<lambda>x. x \<le> 9) (nibbles (take (k - 1) dp)) \<and> (odd n \<or> hd (nibbles dp) = 0)"
      using nl by (auto simp: packed_valid_def butlast_append)
    moreover have "valid_bytes dp ((k - 1) div 4 * 4) ((k - 1) mod 4) \<and> valid_dwords dp ((k - 1) div 4) \<longleftrightarrow>
        list_all (\<lambda>x. x \<le> 9) (nibbles (take (k - 1) dp))"
      using b k by (intro valid_loops) auto
    moreover have "decValid True n (Some dp) \<longleftrightarrow> (odd n \<or> dp ! 0 AND 240 = 0) \<and>
        (dp ! (k - 1) AND 15 = 15 \<or> dp ! (k - 1) AND 15 = 13 \<or> dp ! (k - 1) AND 15 = 12) \<and>
        \<not> dp ! (k - 1) AND 240 > 144 \<and> valid_bytes dp ((k - 1) div 4 * 4) ((k - 1) mod 4) \<and> valid_dwords dp ((k - 1) div 4)"
      unfolding decValid_def option.case Let_def if_True
      using assms(1) by (simp only: simp_thms if_bool_eq_conj neq0_conv [symmetric] kk even_iff_mod_2_eq_zero) argo
    ultimately have "decValid True n (Some dp) = packed_valid True n dp"
      unfolding hd sg not_less insert_iff empty_iff by argo
    then show ?thesis using True by simp
  next
    case False
    have kk: "((if n mod 2 \<noteq> 0 then n + 1 else n) + 1) div 2 = k"
      using False unfolding k_def packed_bytes_def by presburger
    have "valid_bytes dp (k div 4 * 4) (k mod 4) \<and> valid_dwords dp (k div 4) \<longleftrightarrow> list_all (\<lambda>x. x \<le> 9) (nibbles dp)"
      using b k valid_loops [of k dp] by simp
    moreover have "decValid False n (Some dp) \<longleftrightarrow> (even n \<or> dp ! 0 AND 240 = 0) \<and>
        valid_bytes dp (k div 4 * 4) (k mod 4) \<and> valid_dwords dp (k div 4)"
      unfolding decValid_def option.case Let_def if_False
      using assms(1) by (simp only: simp_thms if_bool_eq_conj neq0_conv [symmetric] kk even_iff_mod_2_eq_zero) argo
    ultimately show ?thesis using False by (simp add: packed_valid_def hd) argo
  qed
qed

section \<open>Comparison\<close>

lemma lex_less:
  fixes a b x y m :: nat
  assumes "a < b" "x < m"
  shows "a * m + x < b * m + y"
proof -
  have "a * m + x < Suc a * m" using assms(2) by simp
  also have "\<dots> \<le> b * m" using assms(1) by (intro mult_le_mono1) simp
  finally show ?thesis by simp
qed

text \<open>Digits in a byte keep the order of the bytes.\<close>

lemma nibble_less:
  fixes h k x y :: nat
  assumes "x \<le> 9" "y \<le> 9"
  shows "h * 16 + x < k * 16 + y \<longleftrightarrow> h * 10 + x < k * 10 + y"
  using assms by (cases h k rule: linorder_cases) auto

lemma byte_digits_less:
  assumes "byte_digits a" "byte_digits b"
  shows "a < b \<longleftrightarrow> a div 16 * 10 + a mod 16 < b div 16 * 10 + b mod 16"
  using nibble_less [of "a mod 16" "b mod 16" "a div 16" "b div 16"] assms by (simp add: byte_digits_def)

lemma dnum_byte: "dnum (nibbles (b # bs)) = (b div 16 * 10 + b mod 16) * 10 ^ (2 * length bs) + dnum (nibbles bs)"
  by (simp add: dnum_Cons algebra_simps)

lemma nibbles_all: "list_all byte_digits bs \<Longrightarrow> list_all (\<lambda>x. x \<le> 9) (nibbles bs)"
  by (induction bs) (auto simp: byte_digits_def)

lemma compare_bytes_spec:
  assumes "length ls = length rs" "list_all byte_digits ls" "list_all byte_digits rs"
  shows "sgn (compare_bytes ls rs) = sgn (int (dnum (nibbles ls)) - int (dnum (nibbles rs))) \<and>
    (compare_bytes ls rs = 0 \<longleftrightarrow> ls = rs)"
  using assms
proof (induction ls rs rule: compare_bytes.induct)
  case (1 l ls r rs)
  have d: "byte_digits l" "byte_digits r" and len: "length ls = length rs" using "1.prems" by auto
  have lt: "dnum (nibbles ls) < 10 ^ (2 * length rs)" "dnum (nibbles rs) < 10 ^ (2 * length rs)"
    using "1.prems" dnum_less [OF nibbles_all, of ls] dnum_less [OF nibbles_all, of rs] by auto
  consider "l = r" | "l < r" | "r < l" by linarith
  then show ?case
  proof cases
    case 1
    then show ?thesis using "1.IH" "1.prems" by (simp add: dnum_byte del: nibbles_simps(2))
  next
    case 2
    then have "dnum (nibbles (l # ls)) < dnum (nibbles (r # rs))"
      unfolding dnum_byte len using lex_less [OF _ lt(1)] byte_digits_less [OF d] by blast
    then show ?thesis using 2 by (simp del: nibbles_simps(2))
  next
    case 3
    then have "dnum (nibbles (r # rs)) < dnum (nibbles (l # ls))"
      unfolding dnum_byte len using lex_less [OF _ lt(2)] byte_digits_less [OF d(2,1)] by blast
    then show ?thesis using 3 by (simp del: nibbles_simps(2))
  qed
qed auto

lemma decCompareUDecimal_spec:
  assumes "length left = length right" "list_all byte_digits left" "list_all byte_digits right"
  shows "sgn (decCompareUDecimal left right) = sgn (int (dnum (nibbles left)) - int (dnum (nibbles right)))"
  unfolding decCompareUDecimal_def using compare_bytes_spec [OF assms] by simp

text \<open>The value of a signed packed decimal.\<close>

definition packed_value :: "nat list \<Rightarrow> int" where
  "packed_value bs = flip (signMap ! (last bs mod 16) = -1) (int (dnum (butlast (nibbles bs))))"

definition packed_ok :: "nat list \<Rightarrow> bool" where
  "packed_ok bs \<longleftrightarrow> bs \<noteq> [] \<and> list_all byte_digits (butlast bs) \<and> last bs < 256 \<and> last bs div 16 \<le> 9 \<and> 10 \<le> last bs mod 16"

lemma packed_ok_snoc:
  assumes "packed_ok bs"
  obtains xs b where "bs = xs @ [b]" "list_all byte_digits xs" "b < 256" "b div 16 \<le> 9" "10 \<le> b mod 16"
  using assms by (cases bs rule: rev_cases) (auto simp: packed_ok_def)

lemma dnum_butlast: "dnum (butlast (nibbles (xs @ [b]))) = dnum (nibbles xs) * 10 + b div 16"
  by (simp add: butlast_append dnum_append dnum_Cons)

lemma sign_cases: "10 \<le> n \<Longrightarrow> n < 16 \<Longrightarrow> signMap ! n = 1 \<or> signMap ! n = -1"
proof -
  assume "10 \<le> n" "n < 16"
  then have "n \<in> {10, 11, 12, 13, 14, 15}" by auto
  then show ?thesis by (auto simp: signMap_def)
qed

lemma any_nonzero2_spec: "any_nonzero2 ls rs n \<longleftrightarrow> (\<exists>i < n. ls ! i \<noteq> 0 \<or> rs ! i \<noteq> 0)"
  by (induction n) (auto simp: less_Suc_eq)

lemma dnum_zero_iff: "dnum (nibbles bs) = 0 \<longleftrightarrow> (\<forall>i < length bs. bs ! i = 0)"
proof (induction bs)
  case (Cons b bs)
  have "b div 16 * 10 + b mod 16 = 0 \<longleftrightarrow> b = 0" by (metis add_eq_0_iff_both_eq_0 div_0 div_mult_mod_eq mod_0 mult_0 mult_eq_0_iff zero_neq_numeral)
  then have "dnum (nibbles (b # bs)) = 0 \<longleftrightarrow> b = 0 \<and> dnum (nibbles bs) = 0" unfolding dnum_byte by simp
  then show ?case using Cons by (simp add: All_less_Suc2 del: nibbles_simps(2))
qed simp

lemma compare_same_sign:
  fixes x y c d :: int
  assumes "sgn c = sgn (x - y)" "c = 0 \<longrightarrow> x = y" "0 \<le> h" "h \<le> 9" "0 \<le> k" "k \<le> 9" "d = 16 * (h - k)"
  shows "sgn (if c \<noteq> 0 then c else if d \<noteq> 0 then d else 0) = sgn ((x * 10 + h) - (y * 10 + k))"
proof -
  consider "c = 0" | "0 < c" | "c < 0" by linarith
  then show ?thesis
  proof cases
    case 1
    then show ?thesis using assms by (simp add: sgn_if)
  next
    case 2
    then have "x - y \<ge> 1" using assms(1) by (simp add: sgn_if split: if_splits)
    then show ?thesis using 2 assms by (simp add: sgn_if)
  next
    case 3
    then have "y - x \<ge> 1" using assms(1) by (simp add: sgn_if split: if_splits)
    then show ?thesis using 3 assms by (simp add: sgn_if)
  qed
qed

lemma decCompareDecimal_spec:
  assumes "length left = length right" "packed_ok left" "packed_ok right"
  shows "sgn (decCompareDecimal left right) = sgn (packed_value left - packed_value right)"
proof -
  obtain xs a where l: "left = xs @ [a]" "list_all byte_digits xs" "a < 256" "a div 16 \<le> 9" "10 \<le> a mod 16"
    using packed_ok_snoc [OF assms(2)] .
  obtain ys b where r: "right = ys @ [b]" "list_all byte_digits ys" "b < 256" "b div 16 \<le> 9" "10 \<le> b mod 16"
    using packed_ok_snoc [OF assms(3)] .
  have len: "length xs = length ys" using assms(1) l r by simp
  let ?x = "dnum (nibbles xs)" and ?y = "dnum (nibbles ys)" and ?h = "a div 16" and ?k = "b div 16"
  let ?X = "?x * 10 + ?h" and ?Y = "?y * 10 + ?k"
  define s t where "s = signMap ! (a mod 16)" and "t = signMap ! (b mod 16)"
  have st: "s = 1 \<or> s = -1" "t = 1 \<or> t = -1" using sign_cases l(5) r(5) by (auto simp: s_def t_def)
  have v: "packed_value left = s * int ?X" "packed_value right = t * int ?Y"
    unfolding packed_value_def l(1) r(1) dnum_butlast using st by (auto simp: flip_def s_def t_def)
  let ?c = "compare_bytes xs ys" and ?d = "int (a AND 240) - int (b AND 240)"
  have zero: "?X = 0 \<and> ?Y = 0 \<longleftrightarrow> \<not> (a AND 240 \<noteq> 0 \<or> b AND 240 \<noteq> 0) \<and> \<not> any_nonzero2 left right (length xs)"
    using len l(3) r(3) dnum_zero_iff [of xs] dnum_zero_iff [of ys]
    by (auto simp: and_240 any_nonzero2_spec l(1) r(1) nth_append)
  have u: "decCompareDecimal left right =
    (if s \<noteq> t then if ?X = 0 \<and> ?Y = 0 then 0 else s - t
     else let e = (if ?c \<noteq> 0 then ?c else if ?d \<noteq> 0 then ?d else 0) in if s = -1 then - e else e)"
    unfolding decCompareDecimal_def zero using len
    by (simp add: l(1) r(1) nth_append and_15 s_def [symmetric] t_def [symmetric] Let_def)
  show ?thesis
  proof (cases "s = t")
    case False
    then show ?thesis using u st unfolding v by (auto simp: sgn_if)
  next
    case True
    have "?d = 16 * (int ?h - int ?k)" using l(3) r(3) by (simp add: and_240)
    then have "sgn (if ?c \<noteq> 0 then ?c else if ?d \<noteq> 0 then ?d else 0) = sgn ((int ?x * 10 + int ?h) - (int ?y * 10 + int ?k))"
      using compare_bytes_spec [OF len l(2) r(2)] l(4) r(4) by (intro compare_same_sign) auto
    moreover have "decCompareDecimal left right = s * (if ?c \<noteq> 0 then ?c else if ?d \<noteq> 0 then ?d else 0)"
      using u True st by (auto simp: Let_def)
    moreover have "packed_value left - packed_value right = s * ((int ?x * 10 + int ?h) - (int ?y * 10 + int ?k))"
      using True unfolding v by (simp add: algebra_simps)
    ultimately show ?thesis by (simp only: sgn_mult)
  qed
qed

lemma any_nonzero_spec: "any_nonzero bs \<longleftrightarrow> dnum (nibbles bs) \<noteq> 0"
  unfolding dnum_zero_iff by (induction bs) (auto simp: All_less_Suc2)

lemma dec2Bool_spec:
  assumes "bs \<noteq> []" "last bs < 256"
  shows "dec2Bool bs \<longleftrightarrow> dnum (butlast (nibbles bs)) \<noteq> 0"
proof -
  have e: "bs = butlast bs @ [last bs]" using assms(1) by simp
  have "dnum (butlast (nibbles bs)) = dnum (nibbles (butlast bs)) * 10 + last bs div 16"
    using dnum_butlast [of "butlast bs" "last bs"] e by simp
  then show ?thesis using assms(2) by (auto simp: dec2Bool_def and_240 any_nonzero_spec)
qed

end
