(* ===== verification/Nbcd_Theorems.thy ===== *)
theory Nbcd_Theorems
  imports Nbcd_Text Nbcd_Pack Nbcd_Valid
begin

text \<open>
  What class \<^verbatim>\<open>Decimal\<close> promises, one theorem to an operation, each with a concrete instance. The number
  of a decimal is kept in units of the last place: \<open>sval d\<close> is the value times \<open>10 ^ 32\<close>.
\<close>

section \<open>Concrete decimals\<close>

text \<open>Whole numbers for the instances, made the way a client makes them.\<close>

definition dec_of :: "32 word \<Rightarrow> decimal" where
  "dec_of v = (case setInt decimal_init v of Inl _ \<Rightarrow> decimal_init | Inr d \<Rightarrow> d)"

lemma dec_of_wf: "dec_wf (dec_of v)" "digits_ok (digits (dec_of v))"
proof -
  show "dec_wf (dec_of v)"
  proof (cases "sint v = - (2 ^ 31)")
    case True
    then show ?thesis using setInt_least(1) [of v] dec_wf_init by (simp add: dec_of_def)
  next
    case False
    then show ?thesis using setInt_spec [OF dec_wfD(1) [OF dec_wf_init]] by (fastforce simp: dec_of_def)
  qed
  then show "digits_ok (digits (dec_of v))" by (simp add: dec_wf_def)
qed

lemma dec_of_spec:
  assumes "sint v \<noteq> - (2 ^ 31)"
  shows "sval (dec_of v) = sint v * 10 ^ 32" "lsb (dec_of v) = 32" "32 \<le> msb (dec_of v)" "msb (dec_of v) \<le> 41"
  using setInt_spec [OF dec_wfD(1) [OF dec_wf_init] assms] by (auto simp: dec_of_def)

lemma dec_of_dval: "sint v \<noteq> - (2 ^ 31) \<Longrightarrow> dval (dec_of v) = nat \<bar>sint v\<bar> * 10 ^ 32"
  by (rule whole_dval [OF dec_of_spec(1)])

text \<open>The digit 1 at position 63, the largest power of ten; and one unit of the last place.\<close>

definition dec_e31 :: decimal where
  "dec_e31 = \<lparr>digits = replicate 63 0 @ [1], msb = 63, lsb = 63, negative = False\<rparr>"

section \<open>Arithmetic\<close>

text \<open>
  C5. \<^verbatim>\<open>Decimal::add\<close> on well-formed decimals returns (no write leaves the digit array and its
  internal assertion never fires), keeps the invariant, and its value is the exact signed sum; a
  sum that needs more than the 64 digits loses the digits above the array and nothing else.
\<close>

theorem add_dec_correct:
  assumes "dec_wf d" "dec_wf other"
  shows "\<exists>e. add_dec d other = Inr e \<and> dec_wf e \<and> sval e = keep64 (sval d + sval other)"
  using assms by (rule add_dec_spec)

theorem add_dec_correct_witness:
  "\<exists>e. add_dec (dec_of 70) (dec_of (- 5)) = Inr e \<and> dec_wf e \<and> sval e = 65 * 10 ^ 32"
  using add_dec_correct [OF dec_of_wf(1) dec_of_wf(1), of 70 "- 5"] by (simp add: dec_of_spec(1))

text \<open>
  C6. \<^verbatim>\<open>Decimal::subtract\<close> is the exact signed difference, under the same conditions as \<^verbatim>\<open>add\<close>.
\<close>

theorem subtract_dec_correct:
  assumes "dec_wf d" "dec_wf other"
  shows "\<exists>e. subtract_dec d other = Inr e \<and> dec_wf e \<and> sval e = keep64 (sval d - sval other)"
  using assms by (rule subtract_dec_spec)

theorem subtract_dec_correct_witness:
  "\<exists>e. subtract_dec (dec_of 7) (dec_of 12) = Inr e \<and> dec_wf e \<and> sval e = - 5 * 10 ^ 32"
  using subtract_dec_correct [OF dec_of_wf(1) dec_of_wf(1), of 7 12] by (simp add: dec_of_spec(1))

text \<open>
  C9. \<^verbatim>\<open>Decimal::compare\<close> returns the sign of the difference of the two values, whatever the two
  representations are (leading and trailing zeros, a negative zero, digits left over outside the
  significant range).
\<close>

theorem compare_dec_correct:
  assumes "dec_wf d" "dec_wf other"
  shows "compare_dec d other = sgn (sval d - sval other)"
  using assms by (rule compare_dec_spec)

theorem compare_dec_correct_witness: "compare_dec (dec_of (- 3)) (dec_of 2) = - 1"
  using compare_dec_correct [OF dec_of_wf(1) dec_of_wf(1), of "- 3" 2] by (simp add: dec_of_spec(1))

text \<open>
  C7. \<^verbatim>\<open>Decimal::multiply\<close>: the value of the result is the product of the two values rounded half
  away from zero to the last of the 32 decimal places, with the digits above the array dropped.
  The hypothesis leaves out only the products between a half and one unit of the last place.
\<close>

theorem multiply_correct:
  assumes "dec_wf d" "dec_wf e" "dval d * dval e < 5 * 10 ^ 31 \<or> 10 ^ 32 \<le> dval d * dval e"
  shows "sval (multiply d e) =
    keep64 (flip (negative d \<noteq> negative e) (int (round32 (dval d * dval e))))"
  using assms by (rule multiply_spec)

theorem multiply_correct_witness: "sval (multiply (dec_of 6) (dec_of 7)) = 42 * 10 ^ 32"
proof -
  have "negative (dec_of 6) = negative (dec_of 7)" by code_simp
  then show ?thesis
    using multiply_correct [OF dec_of_wf(1) dec_of_wf(1), of 6 7] by (simp add: dec_of_dval round32_def flip_def)
qed

text \<open>
  \<^verbatim>\<open>Decimal::multiply\<close> keeps the invariant exactly when the last significant positions of the
  operands add up to at most 96 (the product then ends inside the array); otherwise \<^verbatim>\<open>lsb\<close> is left
  pointing beyond the digit array.
\<close>

lemma multiply_wf_iff:
  assumes "dec_wf d" "dec_wf e" "31 \<le> snd (clip d) + snd (clip e)"
  shows "dec_wf (multiply d e) \<longleftrightarrow> fst (clip d) + fst (clip e) \<le> 96"
  using assms by (rule multiply_wf_spec)

text \<open>
  C26. The damage of that overflow: when the last significant positions of the factors add up to more than 96 (and
  the leading ones to at least 31, below which \<^verbatim>\<open>multiply\<close> returns zero at once), adding any decimal to the product, or subtracting any from it, writes outside the digit array, in \<^verbatim>\<open>extendRange\<close>, whose loop
  runs up to the \<^verbatim>\<open>lsb\<close> that \<^verbatim>\<open>multiply\<close> left behind.
\<close>

theorem multiply_overflow_then_add:
  assumes "dec_wf d" "dec_wf e" "dec_wf x" "31 \<le> snd (clip d) + snd (clip e)" "96 < fst (clip d) + fst (clip e)"
  shows "add_dec (multiply d e) x = Inl OutOfRange \<and> subtract_dec (multiply d e) x = Inl OutOfRange"
  using assms by (rule multiply_overflow_spec)

theorem multiply_overflow_then_add_witness:
  "add_dec (multiply dec_e31 dec_e31) (dec_of 5) = Inl OutOfRange \<and> subtract_dec (multiply dec_e31 dec_e31) (dec_of 5) = Inl OutOfRange"
proof -
  have "dec_wf dec_e31" by code_simp
  moreover have "clip dec_e31 = (63, 63)" by code_simp
  ultimately show ?thesis using multiply_overflow_then_add [of dec_e31 dec_e31 "dec_of 5"] dec_of_wf(1) by simp
qed

text \<open>
  C8. \<^verbatim>\<open>Decimal::divide\<close> by a divisor that is not zero, of a dividend whose range of digits is in order: when the position
  of the quotient's leading digit is in the array and its rounding carries no further, and the divisor's last non-zero digit
  is not more than 32 places above the dividend's, the quotient is the exact quotient rounded half
  away from zero to 32 fractional digits (a comment in the function says that it rounds towards zero, which it does not).
  In particular the digit estimates never trip the two
  assertions of the long division, and no index leaves its array.
\<close>

theorem divide_correct:
  assumes "dec_wf d" "dec_wf e" "lsb d \<le> Suc (msb d)" "dval e \<noteq> 0" "fst (clip e) \<le> fst (clip d) + 32"
    "hi = snd (clip d) - snd (clip e) + 32" "0 \<le> hi" "hi < 64"
    "(2 * (dval d * 10 ^ 32) + dval e) div (2 * dval e) < 10 ^ nat (hi + 1)"
  shows "\<exists>q. divide d e = Inr q \<and> dec_wf q \<and>
    sval q = flip (negative d \<noteq> negative e) (int ((2 * (dval d * 10 ^ 32) + dval e) div (2 * dval e)))"
  using divide_spec [OF assms] by blast

theorem divide_correct_witness:
  "\<exists>q. divide (dec_of 2) (dec_of 3) = Inr q \<and> dec_wf q \<and> sval q = 66666666666666666666666666666667"
proof -
  have c: "clip (dec_of 2) = (32, 32)" "clip (dec_of 3) = (32, 32)" by code_simp+
  have n: "negative (dec_of 2) = negative (dec_of 3)" by code_simp
  show ?thesis
    using divide_correct [OF dec_of_wf(1) dec_of_wf(1), of 2 3 32] dec_of_spec(2,3) [of 2]
    by (simp add: c n dec_of_dval flip_def)
qed

text \<open>
  \<^verbatim>\<open>Decimal::modulus\<close> on whole numbers is the remainder of the truncated division, with the sign of the
  dividend, although it is computed through a quotient rounded to 32 decimal places.
\<close>

lemma modulus_correct:
  assumes "dec_wf d" "dec_wf e" "sval d = y * 10 ^ 32" "sval e = z * 10 ^ 32" "y \<noteq> 0" "z \<noteq> 0"
  shows "\<exists>r. modulus d e = Inr r \<and> dec_wf r \<and> sval r = sgn y * (\<bar>y\<bar> mod \<bar>z\<bar>) * 10 ^ 32"
  using assms by (rule modulus_spec)



section \<open>Rounding and precision\<close>

text \<open>
  \<^verbatim>\<open>Decimal::truncate(places)\<close> keeps the sign and drops the digits after \<open>places\<close> places, for every number of
  places, negative ones included: the result is well formed and is the value rounded toward zero to
  a multiple of \<open>10 ^ - places\<close>.
\<close>

lemma truncate_dec_correct:
  assumes "dec_wf d"
  shows "dec_wf (truncate_dec d places) \<and>
    sval (truncate_dec d places) = flip (negative d) (int (dval d div 10 ^ nat (32 - places) * 10 ^ nat (32 - places)))"
  using assms by (rule truncate_dec_spec)

text \<open>
  C28. \<^verbatim>\<open>Decimal::round(places)\<close>, for a number of places from -31 up: the result is the value rounded half away
  from zero to a multiple of \<open>10 ^ - places\<close>, except when the carry leaves the array (the rounded
  magnitude needs a 65th digit), where \<^verbatim>\<open>incLSD\<close> writes beyond \<^verbatim>\<open>digits\<close>.
\<close>

theorem round_dec_correct:
  assumes "dec_wf d" "-31 \<le> places"
  shows "let k = nat (32 - places); r = (2 * dval d + 10 ^ k) div (2 * 10 ^ k) * 10 ^ k
    in if r < 10 ^ 64 then \<exists>e. round_dec d places = Inr e \<and> dec_wf e \<and> sval e = flip (negative d) (int r)
       else round_dec d places = Inl OutOfRange"
  unfolding Let_def using assms by (rule round_dec_spec)

theorem round_dec_correct_witness:
  "\<exists>e. round_dec (dec_of 1987) (- 2) = Inr e \<and> dec_wf e \<and> sval e = 2000 * 10 ^ 32"
proof -
  have "negative (dec_of 1987) = False" by code_simp
  then show ?thesis using round_dec_correct [OF dec_of_wf(1), of "- 2" 1987] by (simp add: dec_of_dval flip_def)
qed

text \<open>
  \<^verbatim>\<open>Decimal::roundup(places)\<close>, when the last kept place is at most one above the leading digit: the result is
  the magnitude rounded up to a multiple of \<open>10 ^ - places\<close>, with the sign kept, and the one failure
  is a carry out of the array.
\<close>

lemma roundup_correct:
  assumes "dec_wf d" "32 - places \<le> int (Suc (msb d))" "places < 32"
  shows "let k = nat (32 - places); r = (dval d + (10 ^ k - 1)) div 10 ^ k * 10 ^ k
    in if r < 10 ^ 64 then \<exists>e. roundup d places = Inr e \<and> dec_wf e \<and> sval e = flip (negative d) (int r)
       else roundup d places = Inl OutOfRange"
  unfolding Let_def using assms by (rule roundup_spec)

text \<open>
  C29. Beyond that range \<^verbatim>\<open>Decimal::roundup\<close> loses its increment: the digit is written one above the leading
  digit, below the last kept place, and the result is zero although the value rounds up to
  \<open>10 ^ - places\<close>.
\<close>

theorem roundup_far_zero:
  assumes "dec_wf d" "int (msb d) + 1 < 32 - places" "32 - places < 64" "int (lsb d) < 32 - places"
  shows "\<exists>e. roundup d places = Inr e \<and> dval e = 0"
  using assms by (rule roundup_far_is_zero)

theorem roundup_far_zero_witness: "dval (dec_of 7) \<noteq> 0 \<and> (\<exists>e. roundup (dec_of 7) (- 2) = Inr e \<and> dval e = 0)"
proof -
  have "msb (dec_of 7) = 32" "lsb (dec_of 7) = 32" by code_simp+
  then show ?thesis using roundup_far_zero [OF dec_of_wf(1), of 7 "- 2"] by (simp add: dec_of_dval)
qed

section \<open>Machine integers\<close>

text \<open>
  \<^verbatim>\<open>Decimal::getInt64\<close> is the value rounded toward zero and reduced to 64 bits, for every decimal with at least
  one digit in its range; where a negative value is reduced to the least number, its negation overflows.
\<close>

lemma getInt64_correct:
  assumes "dec_wf d" "lsb d \<le> msb d"
  shows "getInt64 d = (if negative d \<and> sint (of_nat (dval d div 10 ^ 32) :: 64 word) = - (2 ^ 63) then Inl Undefined
    else Inr (of_int (flip (negative d) (int (dval d div 10 ^ 32)))))"
  using assms by (rule getInt64_spec)

text \<open>
  C15. Every signed 64 bit integer but the least survives \<^verbatim>\<open>setInt64\<close> followed by \<^verbatim>\<open>getInt64\<close>, and every signed 32 bit
  integer but the least the 32 bit pair, whatever the digit array held before. The least integers are negated as
  signed numbers, which is undefined.
\<close>

theorem int_roundtrip:
  assumes "digits_ok (digits d)"
  shows "(if sint v = - (2 ^ 63) then setInt64 d v = Inl Undefined else \<exists>e. setInt64 d v = Inr e \<and> getInt64 e = Inr v) \<and>
    (if sint w = - (2 ^ 31) then setInt d w = Inl Undefined else \<exists>e. setInt d w = Inr e \<and> getInt e = Inr w)"
  using getInt64_setInt64_spec [OF assms] getInt_setInt_spec [OF assms] setInt_least by simp

theorem int_roundtrip_witness:
  "(\<exists>e. setInt64 (dec_of 99) 0x8000000000000001 = Inr e \<and> getInt64 e = Inr 0x8000000000000001) \<and>
   (\<exists>e. setInt (dec_of 99) (- 7) = Inr e \<and> getInt e = Inr (- 7))"
proof -
  have "sint (0x8000000000000001 :: 64 word) \<noteq> - (2 ^ 63)" "sint (- 7 :: 32 word) \<noteq> - (2 ^ 31)" by code_simp+
  then show ?thesis using int_roundtrip [OF dec_of_wf(2), of "0x8000000000000001" 99 "- 7"] by auto
qed

section \<open>Text\<close>

text \<open>
  The length that \<^verbatim>\<open>getStringLength\<close> computes is the number of characters \<^verbatim>\<open>doGetString\<close> writes, so that the
  assertion of \<^verbatim>\<open>getCString\<close>, \<^verbatim>\<open>getString\<close> and \<^verbatim>\<open>getStringX\<close> never fails and the buffer they allocate is
  filled exactly.
\<close>

lemma text_length_correct:
  assumes "dec_wf d"
  shows "getStringLength d = length (doGetString d) \<and> getCString d = Inr (doGetString d @ [CHR 0x00]) \<and>
    getStringX d = Inr (length (doGetString d), doGetString d) \<and>
    getString d n = Inr (if length (doGetString d) > n then replicate n (CHR ''*'')
                         else doGetString d @ replicate (n - length (doGetString d)) (CHR '' ''))"
  using getStringLength_spec [OF assms] by (simp add: getCString_def getStringX_def getString_def Let_def)

text \<open>
  What \<^verbatim>\<open>setCString\<close> reads from blanks, an optional minus, digits and possibly a point with digits, up to the
  first character that cannot continue: the low 32 of the whole digits and the first 32 digits of
  the fraction.
\<close>

lemma setCString_correct:
  assumes "digits_ok (digits d)" "list_all isdigit is" "list_all isdigit fs"
    "rest = [] \<or> \<not> isdigit (hd rest) \<and> (fs = [] \<longrightarrow> hd rest \<noteq> CHR ''.'' \<and>
      (is = [] \<longrightarrow> \<not> neg \<longrightarrow> hd rest \<noteq> CHR '' '' \<and> hd rest \<noteq> CHR ''-''))"
    "text = replicate n (CHR '' '') @ dec_text neg is fs @ rest"
  shows "dec_wf (setCString d text) \<and> negative (setCString d text) = neg \<and>
    dval (setCString d text) = text_value is fs"
  unfolding assms(5) using assms(1-4) by (rule setCString_spec)

text \<open>
  C14. The text of every well-formed decimal reads back to its value, as a C string and as a counted string, into a
  decimal with any digits left over in it.
\<close>

theorem text_roundtrip:
  assumes "dec_wf d" "digits_ok (digits d0)"
  shows "sval (setCString d0 (doGetString d)) = sval d \<and>
    sval (setString d0 (length (doGetString d)) (doGetString d @ rest)) = sval d"
  using setCString_doGetString [OF assms] by (simp add: setString_setCString)

theorem text_roundtrip_witness: "sval (setCString (dec_of 99) (doGetString (dec_of (- 12)))) = - 12 * 10 ^ 32"
  using text_roundtrip [OF dec_of_wf(1) dec_of_wf(2), of 99 "- 12" "[]"] by (simp add: dec_of_spec(1))

section \<open>Packed decimals\<close>

text \<open>
  \<^verbatim>\<open>Decimal::getDecimal\<close> fills exactly \<open>len\<close> bytes, with decimal digits and the sign nibble: the number is the
  value rounded toward zero to \<open>precision\<close> places, without the digits above the format.
\<close>

lemma getDecimal_correct:
  assumes "dec_wf d" "prec \<le> 32" "0 < len" "len < 128" "signs < 256"
  shows "\<exists>buffer. getDecimal d len prec signs = Inr buffer \<and> length buffer = len \<and>
    list_all (\<lambda>x. x \<le> 9) (butlast (nibbles buffer)) \<and>
    last buffer mod 16 = (if negative d then signs mod 16 else signs div 16) \<and>
    dnum (butlast (nibbles buffer)) = dval d mod 10 ^ (32 - prec + (2 * len - 1)) div 10 ^ (32 - prec)"
  using assms by (rule getDecimal_spec)



text \<open>
  \<^verbatim>\<open>decValid\<close> accepts a packed decimal exactly when its digits are decimal, its sign is C, D or F, and the unused
  leading nibble is zero: the loop over 32 bit words, which adds 0x66666666 and looks at the carries,
  agrees with checking every nibble.
\<close>

lemma decValid_correct:
  assumes "0 < n" "length dp = packed_bytes isSigned n" "list_all (\<lambda>b. b < 256) dp"
  shows "decValid isSigned n (Some dp) \<longleftrightarrow> packed_valid isSigned n dp"
  using assms by (rule decValid_spec)

text \<open>
  \<^verbatim>\<open>decCompareDecimal\<close> orders signed packed decimals of the same size by their values: the byte comparison from
  the left is the numeric one, a negative sign reverses it, and plus and minus zero are equal.
\<close>

lemma decCompareDecimal_correct:
  assumes "length left = length right" "packed_ok left" "packed_ok right"
  shows "sgn (decCompareDecimal left right) = sgn (packed_value left - packed_value right)"
  using assms by (rule decCompareDecimal_spec)

end
