(* ===== verification/Rtlbcd.thy ===== *)
theory Rtlbcd
  imports Nbcd_Theorems
begin

text \<open>
  The run-time library of decimals that compiled queries call (rtl/eclrtl/rtlbcd.cpp): a stack of 32
  decimals and its top index, one per thread, and one function for every operation of the
  evaluation.

  An operation maps the state to its result, or the exception it throws, and the state it leaves
  behind, also when it throws. An index is the unsigned \<^verbatim>\<open>curStack\<close> with its wrap-around; an access
  outside the array is \<open>OutOfRange\<close>. \<^verbatim>\<open>DecPopReal\<close> and \<^verbatim>\<open>DecPushReal\<close> work on doubles and are not
  modelled.
\<close>

section \<open>The state\<close>

record rtlbcd =
  stack :: "decimal list"
  curStack :: "32 word"

type_synonym 'a decop = "(rtlbcd, 'a) op"

definition rtlbcd_init :: rtlbcd where
  "rtlbcd_init = \<lparr>stack = replicate 32 decimal_init, curStack = 0\<rparr>"

definition get_at :: "32 word \<Rightarrow> decimal decop" where
  "get_at i st = (if unat i < length (stack st) then (Inr (stack st ! unat i), st) else (Inl OutOfRange, st))"

definition set_at :: "32 word \<Rightarrow> decimal res \<Rightarrow> unit decop" where
  "set_at i r st =
     (case r of
        Inl e \<Rightarrow> (Inl e, st)
      | Inr d \<Rightarrow> if unat i < length (stack st) then (Inr (), st\<lparr>stack := (stack st)[unat i := d]\<rparr>)
                 else (Inl OutOfRange, st))"

definition move_top :: "32 word \<Rightarrow> unit decop" where
  "move_top k st = (Inr (), st\<lparr>curStack := curStack st + k\<rparr>)"

text \<open>\<open>on_top f\<close> applies \<open>f\<close> to \<^verbatim>\<open>stack[curStack-1]\<close> in place.\<close>

definition on_top :: "(decimal \<Rightarrow> decimal res) \<Rightarrow> unit decop" where
  "on_top f st = op_bind (get_at (curStack st - 1)) (\<lambda>d. set_at (curStack st - 1) (f d)) st"

text \<open>\<open>binary f\<close>: \<^verbatim>\<open>curStack--; stack[curStack-1].f(stack[curStack])\<close>.\<close>

definition binary :: "(decimal \<Rightarrow> decimal \<Rightarrow> decimal res) \<Rightarrow> unit decop" where
  "binary f = op_bind (move_top (- 1)) (\<lambda>_ st.
     op_bind (get_at (curStack st)) (\<lambda>e. on_top (\<lambda>d. f d e)) st)"

text \<open>\<open>pop_with f\<close>: \<^verbatim>\<open>stack[--curStack].f(...)\<close>; \<open>push_with f\<close>: \<^verbatim>\<open>stack[curStack++].f(...)\<close>.\<close>

definition pop_with :: "(decimal \<Rightarrow> 'a res) \<Rightarrow> 'a decop" where
  "pop_with f = op_bind (move_top (- 1)) (\<lambda>_ st. op_bind (get_at (curStack st)) (\<lambda>d st. (f d, st)) st)"

definition push_with :: "(decimal \<Rightarrow> decimal res) \<Rightarrow> unit decop" where
  "push_with f st =
     op_bind (move_top 1) (\<lambda>_. op_bind (get_at (curStack st)) (\<lambda>d. set_at (curStack st) (f d))) st"

section \<open>The operations\<close>

datatype DBZaction = DBZnone | DBZzero | DBZnan | DBZfail

definition DecLock :: "unit decop" where "DecLock = op_throw (Thrown 9999)"

definition DecUnlock :: "unit decop" where "DecUnlock = op_throw (Thrown 9999)"

definition DecMarkStack :: "32 word decop" where "DecMarkStack st = (Inr (curStack st), st)"

definition DecReleaseStack :: "32 word \<Rightarrow> unit decop" where
  "DecReleaseStack mark st = (Inr (), st\<lparr>curStack := mark\<rparr>)"

definition setDivideByZero :: "DBZaction \<Rightarrow> unit decop" where
  "setDivideByZero dbz =
     (case dbz of
        DBZfail \<Rightarrow> op_throw (Thrown (- 1))
      | DBZnan \<Rightarrow> on_top (\<lambda>d. Inr (setZero d))
      | DBZzero \<Rightarrow> on_top (\<lambda>d. Inr (setZero d))
      | DBZnone \<Rightarrow> op_throw (Thrown 9999))"

definition DecAbs :: "unit decop" where "DecAbs = on_top (\<lambda>d. Inr (abs_dec d))"

definition DecAdd :: "unit decop" where "DecAdd = binary add_dec"

definition DecCompareNull :: "int decop" where "DecCompareNull = pop_with (\<lambda>d. Inr (compareNull d))"

definition DecDistinct :: "int decop" where
  "DecDistinct = op_bind (move_top (- 2)) (\<lambda>_ st.
     op_bind (get_at (curStack st)) (\<lambda>d. op_bind (get_at (curStack st + 1)) (\<lambda>e. op_return (compare_dec d e))) st)"

definition DecDistinctR :: "int decop" where
  "DecDistinctR = op_bind (move_top (- 2)) (\<lambda>_ st.
     op_bind (get_at (curStack st + 1)) (\<lambda>e. op_bind (get_at (curStack st)) (\<lambda>d. op_return (compare_dec e d))) st)"

definition DecSwap :: "unit decop" where
  "DecSwap st =
     op_bind (get_at (curStack st - 1)) (\<lambda>temp.
     op_bind (get_at (curStack st - 2)) (\<lambda>d.
     op_bind (set_at (curStack st - 1) (Inr d)) (\<lambda>_. set_at (curStack st - 2) (Inr temp)))) st"

text \<open>Division and modulus look at the divisor first.\<close>

definition divide_by :: "(decimal \<Rightarrow> decimal \<Rightarrow> decimal res) \<Rightarrow> DBZaction \<Rightarrow> unit decop" where
  "divide_by f dbz = op_bind (move_top (- 1)) (\<lambda>_ st.
     op_bind (get_at (curStack st)) (\<lambda>e. if isZero e then setDivideByZero dbz else on_top (\<lambda>d. f d e)) st)"

definition DecDivide :: "DBZaction \<Rightarrow> unit decop" where "DecDivide dbz = divide_by divide dbz"

definition DecDivideR :: "DBZaction \<Rightarrow> unit decop" where
  "DecDivideR dbz = op_bind DecSwap (\<lambda>_. DecDivide dbz)"

definition DecDup :: "unit decop" where
  "DecDup st = op_bind (get_at (curStack st - 1)) (\<lambda>d.
     op_bind (set_at (curStack st) (Inr d)) (\<lambda>_. move_top 1)) st"

definition DecSetPrecision :: "nat \<Rightarrow> nat \<Rightarrow> unit decop" where
  "DecSetPrecision declen prec =
     on_top (\<lambda>d. res_bind (round_dec d (int prec)) (\<lambda>d. Inr (setPrecision d declen prec)))"

definition DecSub :: "unit decop" where "DecSub = binary subtract_dec"

definition DecSubR :: "unit decop" where "DecSubR = op_bind DecSwap (\<lambda>_. DecSub)"

definition DecInfo :: "(nat \<times> nat) decop" where
  "DecInfo st = op_bind (get_at (curStack st - 1)) (\<lambda>d. op_return (getPrecision d)) st"

definition DecClipInfo :: "(nat \<times> nat) decop" where
  "DecClipInfo st = op_bind (get_at (curStack st - 1)) (\<lambda>d. op_return (getClipPrecision d)) st"

text \<open>The argument is cut to 32 bits before the call.\<close>

definition DecLongPower :: "64 word \<Rightarrow> unit decop" where
  "DecLongPower pow = on_top (\<lambda>d. power_int d (sint (ucast pow :: 32 word)))"

definition DecUlongPower :: "64 word \<Rightarrow> unit decop" where
  "DecUlongPower pow = on_top (\<lambda>d. power_unsigned d (unat (ucast pow :: 32 word)))"

definition DecModulus :: "DBZaction \<Rightarrow> unit decop" where "DecModulus dbz = divide_by modulus dbz"

definition DecMul :: "unit decop" where "DecMul = binary (\<lambda>d e. Inr (multiply d e))"

definition DecNegate :: "unit decop" where "DecNegate = on_top (\<lambda>d. Inr (negate_dec d))"

definition DecPopCString :: "string \<Rightarrow> string decop" where
  "DecPopCString buffer = pop_with (\<lambda>d. getCString_buffer d buffer)"

definition DecPopCStringX :: "string decop" where "DecPopCStringX = pop_with getCString"

definition DecPopInt64 :: "64 word decop" where "DecPopInt64 = pop_with getInt64"

text \<open>\<^verbatim>\<open>round\<close> works in place, on the element that has just been popped.\<close>

definition DecPopDecimal :: "nat \<Rightarrow> nat \<Rightarrow> nat list decop" where
  "DecPopDecimal declen prec = op_bind (move_top (- 1)) (\<lambda>_ st.
     op_bind (get_at (curStack st)) (\<lambda>d.
     op_bind (set_at (curStack st) (round_dec d (int prec))) (\<lambda>_.
     op_bind (get_at (curStack st)) (\<lambda>d st. (getDecimal d declen prec 0xFD, st)))) st)"

definition DecPopUDecimal :: "nat \<Rightarrow> nat \<Rightarrow> nat list decop" where
  "DecPopUDecimal declen prec = op_bind (move_top (- 1)) (\<lambda>_ st.
     op_bind (get_at (curStack st)) (\<lambda>d.
     op_bind (set_at (curStack st) (round_dec d (int prec))) (\<lambda>_.
     op_bind (get_at (curStack st)) (\<lambda>d. op_return (getUDecimal d declen prec)))) st)"

definition DecPopLong :: "32 word decop" where "DecPopLong = pop_with getInt"

definition DecPopUlong :: "64 word decop" where "DecPopUlong = pop_with (\<lambda>d. Inr (ucast (getUInt d)))"

definition DecPopString :: "nat \<Rightarrow> (nat \<times> string) decop" where
  "DecPopString len = pop_with (\<lambda>d. res_bind (getString d len) (\<lambda>text. Inr (len, text)))"

definition DecPopStringX :: "(nat \<times> string) decop" where "DecPopStringX = pop_with getStringX"

definition DecPushCString :: "string \<Rightarrow> unit decop" where
  "DecPushCString s = push_with (\<lambda>d. Inr (setCString d s))"

definition DecPushInt64 :: "64 word \<Rightarrow> unit decop" where
  "DecPushInt64 v = push_with (\<lambda>d. setInt64 d v)"

definition DecPushUInt64 :: "64 word \<Rightarrow> unit decop" where
  "DecPushUInt64 v = push_with (\<lambda>d. Inr (setUInt64 d v))"

definition DecPushLong :: "64 word \<Rightarrow> unit decop" where
  "DecPushLong v = push_with (\<lambda>d. setInt d (ucast v))"

definition DecPushDecimal :: "nat list \<Rightarrow> nat \<Rightarrow> nat \<Rightarrow> unit decop" where
  "DecPushDecimal buffer declen prec = push_with (\<lambda>d. setDecimal d declen prec buffer)"

definition DecPushUDecimal :: "nat list \<Rightarrow> nat \<Rightarrow> nat \<Rightarrow> unit decop" where
  "DecPushUDecimal buffer declen prec = push_with (\<lambda>d. setUDecimal d declen prec buffer)"

definition DecPushString :: "nat \<Rightarrow> string \<Rightarrow> unit decop" where
  "DecPushString len text = push_with (\<lambda>d. Inr (setString d len text))"

definition DecPushUlong :: "64 word \<Rightarrow> unit decop" where
  "DecPushUlong v = push_with (\<lambda>d. Inr (setUInt d (ucast v)))"

definition DecRound :: "unit decop" where "DecRound = on_top (\<lambda>d. round_dec d 0)"

definition DecRoundUp :: "unit decop" where "DecRoundUp = on_top (\<lambda>d. roundup d 0)"

definition DecRoundTo :: "32 word \<Rightarrow> unit decop" where
  "DecRoundTo places = on_top (\<lambda>d. round_dec d (sint places))"

definition DecTruncate :: "unit decop" where "DecTruncate = on_top (\<lambda>d. Inr (truncate_dec d 0))"

definition DecTruncateAt :: "32 word \<Rightarrow> unit decop" where
  "DecTruncateAt places = on_top (\<lambda>d. Inr (truncate_dec d (sint places)))"

definition DecValidTos :: "bool decop" where "DecValidTos = pop_with (\<lambda>d. Inr True)"

text \<open>The functions on packed decimals are those of class \<^verbatim>\<open>Decimal\<close>'s file; the stack is not involved.\<close>

definition DecValid :: "bool \<Rightarrow> nat \<Rightarrow> nat list option \<Rightarrow> bool" where
  "DecValid isSigned digs data = decValid isSigned digs data"

definition Dec2Bool :: "nat list \<Rightarrow> bool" where
  "Dec2Bool data = dec2Bool data"

definition UDec2Bool :: "nat list \<Rightarrow> bool" where
  "UDec2Bool data = udec2Bool data"

definition DecCompareDecimal :: "nat list \<Rightarrow> nat list \<Rightarrow> int" where
  "DecCompareDecimal left right = decCompareDecimal left right"

definition DecCompareUDecimal :: "nat list \<Rightarrow> nat list \<Rightarrow> int" where
  "DecCompareUDecimal left right = decCompareUDecimal left right"

end
