(* ===== verification/Rtlbcd_Stack.thy ===== *)
theory Rtlbcd_Stack
  imports Rtlbcd
begin

text \<open>
  The stack discipline of the decimal run-time library: what every operation does to the list of the
  decimals on the stack, top first, and the interface through which a compiled expression uses it.
\<close>

section \<open>The list on the stack\<close>

definition contents :: "rtlbcd \<Rightarrow> decimal list" where
  "contents st = rev (take (unat (curStack st)) (stack st))"

definition st_ok :: "rtlbcd \<Rightarrow> bool" where
  "st_ok st \<longleftrightarrow> length (stack st) = 32 \<and> unat (curStack st) \<le> 32 \<and>
     list_all (\<lambda>d. digits_ok (digits d)) (stack st) \<and> list_all dec_wf (contents st)"

lemma rtlbcd_init_ok: "st_ok rtlbcd_init \<and> contents rtlbcd_init = []"
  using dec_wf_init by (simp add: st_ok_def contents_def rtlbcd_init_def list_all_iff dec_wf_def)

lemma st_ok_top: "st_ok st \<Longrightarrow> unat (curStack st) = length (contents st)"
  by (simp add: st_ok_def contents_def)

lemma unat_pred32: "unat w = Suc n \<Longrightarrow> unat (w - 1 :: 32 word) = n"
  by (metis diff_Suc_1 less_numeral_extra(3) unat_eq_0 unat_minus_one zero_less_Suc)

lemma unat_succ32: "unat w \<le> 32 \<Longrightarrow> unat (w + 1 :: 32 word) = Suc (unat w)"
  by (subst unat_word_ariths) simp

lemma unat_wrap32: "unat (w :: 32 word) = 0 \<Longrightarrow> 32 \<le> unat (w - 1)"
  by (simp add: unat_eq_0 unsigned_minus_1_eq_mask mask_eq_exp_minus_1)

lemma contents_nth:
  assumes "st_ok st" "contents st = zs @ x # ys"
  shows "stack st ! length ys = x" "length ys < 32"
proof -
  have "take (unat (curStack st)) (stack st) = rev ys @ x # rev zs" using assms(2) by (simp add: contents_def rev_swap)
  then have e: "stack st = (rev ys @ x # rev zs) @ drop (unat (curStack st)) (stack st)" by (metis append_take_drop_id)
  then show "stack st ! length ys = x" by (metis (no_types, lifting) append.assoc append_Cons length_rev nth_append_length)
  show "length ys < 32" using st_ok_top [OF assms(1)] assms by (simp add: st_ok_def)
qed

text \<open>A state in terms of its list: the elements below the top and the array above it.\<close>

lemma st_okI:
  assumes "length s = 32" "list_all (\<lambda>d. digits_ok (digits d)) s" "unat c = length xs" "take (length xs) s = rev xs"
    "list_all dec_wf xs" "length xs \<le> 32"
  shows "st_ok \<lparr>stack = s, curStack = c\<rparr> \<and> contents \<lparr>stack = s, curStack = c\<rparr> = xs"
  using assms by (simp add: st_ok_def contents_def)

lemma get_at_in: "unat i < length (stack st) \<Longrightarrow> get_at i st = (Inr (stack st ! unat i), st)"
  by (simp add: get_at_def)

lemma list_all_update: "list_all P xs \<Longrightarrow> P v \<Longrightarrow> list_all P (xs[i := v])"
  by (auto simp: list_all_iff dest!: set_update_subset_insert [THEN subsetD])

section \<open>Shapes of operations\<close>

lemma on_top_spec:
  assumes "st_ok st" "contents st = x # zs" "f x = Inr e" "dec_wf e"
  shows "\<exists>st'. on_top f st = (Inr (), st') \<and> st_ok st' \<and> contents st' = e # zs"
proof -
  let ?n = "length zs" and ?s = "stack st"
  have t: "unat (curStack st) = Suc ?n" using st_ok_top [OF assms(1)] assms(2) by simp
  have u: "unat (curStack st - 1) = ?n" using t by (rule unat_pred32)
  have n: "?s ! ?n = x" "?n < 32" using contents_nth [OF assms(1), of "[]" x zs] assms(2) by auto
  have ok: "length ?s = 32" "list_all (\<lambda>d. digits_ok (digits d)) ?s" "list_all dec_wf zs"
    using assms(1,2) by (auto simp: st_ok_def)
  have tk: "take (Suc ?n) ?s = rev (x # zs)" using assms(2) t by (simp add: contents_def rev_swap)
  then have "take ?n ?s = rev zs" by (metis diff_Suc_1 length_rev min.absorb1 take_take lessI less_imp_le append_eq_conv_conj rev.simps(2))
  then have "take (Suc ?n) (?s[?n := e]) = rev (e # zs)"
    using n(2) ok(1) by (simp add: take_Suc_conv_app_nth take_update_cancel)
  then have "st_ok (st\<lparr>stack := ?s[?n := e]\<rparr>) \<and> contents (st\<lparr>stack := ?s[?n := e]\<rparr>) = e # zs"
    using st_okI [of "?s[?n := e]" "curStack st" "e # zs"] ok t n(2) assms(4) list_all_update [OF ok(2)]
    by (cases st) (simp add: dec_wf_def)
  moreover have "on_top f st = (Inr (), st\<lparr>stack := ?s[?n := e]\<rparr>)"
    using u n ok(1) assms(3) by (simp add: on_top_def op_bind_def get_at_def set_at_def)
  ultimately show ?thesis by blast
qed

lemma pop_spec:
  assumes "st_ok st" "contents st = x # zs"
  shows "\<exists>st'. move_top (- 1) st = (Inr (), st') \<and> st_ok st' \<and> contents st' = zs \<and> get_at (curStack st') st' = (Inr x, st')"
proof -
  let ?n = "length zs" and ?s = "stack st"
  have t: "unat (curStack st) = Suc ?n" using st_ok_top [OF assms(1)] assms(2) by simp
  have u: "unat (curStack st + - 1) = ?n" using unat_pred32 [OF t] by simp
  have n: "?s ! ?n = x" "?n < 32" using contents_nth [OF assms(1), of "[]" x zs] assms(2) by auto
  have ok: "length ?s = 32" "list_all (\<lambda>d. digits_ok (digits d)) ?s" "list_all dec_wf zs"
    using assms(1,2) by (auto simp: st_ok_def)
  have "take (Suc ?n) ?s = rev zs @ [x]" using assms(2) t by (simp add: contents_def rev_swap)
  then have "take ?n ?s = rev zs" by (metis append_eq_conv_conj length_rev lessI less_imp_le min.absorb1 take_take)
  then have "st_ok (st\<lparr>curStack := curStack st + - 1\<rparr>) \<and> contents (st\<lparr>curStack := curStack st + - 1\<rparr>) = zs"
    using st_okI [of ?s "curStack st + - 1" zs] ok u n(2) by (cases st) simp
  moreover have "get_at (curStack st + - 1) (st\<lparr>curStack := curStack st + - 1\<rparr>) = (Inr x, st\<lparr>curStack := curStack st + - 1\<rparr>)"
    using n ok(1) u by (simp add: get_at_def)
  ultimately show ?thesis by (simp add: move_top_def)
qed

lemma pop_with_spec:
  assumes "st_ok st" "contents st = x # zs"
  shows "\<exists>st'. pop_with f st = (f x, st') \<and> st_ok st' \<and> contents st' = zs"
  using pop_spec [OF assms] by (auto simp: pop_with_def op_bind_def)

lemma binary_spec:
  assumes "st_ok st" "contents st = y # x # zs" "f x y = Inr e" "dec_wf e"
  shows "\<exists>st'. binary f st = (Inr (), st') \<and> st_ok st' \<and> contents st' = e # zs"
proof -
  obtain st1 where p: "move_top (- 1) st = (Inr (), st1)" "st_ok st1" "contents st1 = x # zs"
    "get_at (curStack st1) st1 = (Inr y, st1)" using pop_spec [OF assms(1,2)] by blast
  then have "binary f st = on_top (\<lambda>d. f d y) st1" by (simp add: binary_def op_bind_def)
  then show ?thesis using on_top_spec [OF p(2,3), of "\<lambda>d. f d y"] assms(3,4) by auto
qed

lemma divide_by_spec:
  assumes "st_ok st" "contents st = y # x # zs"
  shows "dval y \<noteq> 0 \<Longrightarrow> f x y = Inr e \<Longrightarrow> dec_wf e \<Longrightarrow>
      \<exists>st'. divide_by f dbz st = (Inr (), st') \<and> st_ok st' \<and> contents st' = e # zs"
    and "dval y = 0 \<Longrightarrow> dbz = DBZzero \<or> dbz = DBZnan \<Longrightarrow>
      \<exists>st'. divide_by f dbz st = (Inr (), st') \<and> st_ok st' \<and> contents st' = setZero x # zs"
    and "dval y = 0 \<Longrightarrow> dbz = DBZfail \<Longrightarrow>
      \<exists>st'. divide_by f dbz st = (Inl (Thrown (- 1)), st') \<and> st_ok st' \<and> contents st' = x # zs"
proof -
  obtain st1 where p: "move_top (- 1) st = (Inr (), st1)" "st_ok st1" "contents st1 = x # zs"
    "get_at (curStack st1) st1 = (Inr y, st1)" using pop_spec [OF assms] by blast
  then have d: "divide_by f dbz st = (if isZero y then setDivideByZero dbz st1 else on_top (\<lambda>d. f d y) st1)"
    by (simp add: divide_by_def op_bind_def)
  have z: "isZero y \<longleftrightarrow> dval y = 0" using clip_iff_zero [of y] by (auto simp: isZero_def split: prod.splits)
  have wf: "dec_wf (setZero x)" using p(2,3) by (simp add: st_ok_def)
  show "\<exists>st'. divide_by f dbz st = (Inr (), st') \<and> st_ok st' \<and> contents st' = e # zs"
    if "dval y \<noteq> 0" "f x y = Inr e" "dec_wf e"
    using that d z on_top_spec [OF p(2,3), of "\<lambda>d. f d y" e] by simp
  show "\<exists>st'. divide_by f dbz st = (Inr (), st') \<and> st_ok st' \<and> contents st' = setZero x # zs"
    if "dval y = 0" "dbz = DBZzero \<or> dbz = DBZnan"
    using that d z on_top_spec [OF p(2,3), of "\<lambda>d. Inr (setZero d)" "setZero x"] wf by (auto simp: setDivideByZero_def)
  show "\<exists>st'. divide_by f dbz st = (Inl (Thrown (- 1)), st') \<and> st_ok st' \<and> contents st' = x # zs"
    if "dval y = 0" "dbz = DBZfail"
    using that d z p(2,3) by (simp add: setDivideByZero_def op_throw_def)
qed

lemma push_with_spec:
  assumes "st_ok st" "length (contents st) < 32" "\<And>d. digits_ok (digits d) \<Longrightarrow> \<exists>e. f d = Inr e \<and> dec_wf e \<and> P e"
  shows "\<exists>st' e. push_with f st = (Inr (), st') \<and> st_ok st' \<and> contents st' = e # contents st \<and> P e"
proof -
  let ?xs = "contents st" and ?s = "stack st"
  let ?n = "length ?xs"
  have t: "unat (curStack st) = ?n" by (rule st_ok_top [OF assms(1)])
  have ok: "length ?s = 32" "list_all (\<lambda>d. digits_ok (digits d)) ?s" "list_all dec_wf ?xs"
    using assms(1) by (auto simp: st_ok_def)
  have "digits_ok (digits (?s ! ?n))" using ok assms(2) by (simp add: list_all_length)
  then obtain e where e: "f (?s ! ?n) = Inr e" "dec_wf e" "P e" using assms(3) by blast
  let ?st = "st\<lparr>curStack := curStack st + 1, stack := ?s[?n := e]\<rparr>"
  have "take ?n ?s = rev ?xs" using t by (simp add: contents_def)
  then have "take (Suc ?n) (?s[?n := e]) = rev (e # ?xs)"
    using assms(2) ok(1) by (simp add: take_Suc_conv_app_nth take_update_cancel)
  then have "st_ok ?st \<and> contents ?st = e # ?xs"
    using st_okI [of "?s[?n := e]" "curStack st + 1" "e # ?xs"] ok t assms(2) e(2) list_all_update [OF ok(2)]
      unat_succ32 [of "curStack st"] by (cases st) (simp add: dec_wf_def)
  moreover have "push_with f st = (Inr (), ?st)"
    using t assms(2) ok(1) e(1) by (simp add: push_with_def op_bind_def move_top_def get_at_def set_at_def)
  ultimately show ?thesis using e(3) by blast
qed

text \<open>A push below the end of the array fails only as the function that sets the element fails.\<close>

lemma push_with_fst:
  assumes "st_ok st" "length (contents st) < 32"
  shows "\<exists>d. fst (push_with f st) = res_bind (f d) (\<lambda>_. Inr ())"
proof -
  have "unat (curStack st) < length (stack st)" using st_ok_top [OF assms(1)] assms by (simp add: st_ok_def)
  then show ?thesis
    by (intro exI [of _ "stack st ! unat (curStack st)"])
      (auto simp: push_with_def op_bind_def move_top_def get_at_def set_at_def split: sum.splits)
qed

text \<open>What happens at the ends of the array: an access outside it.\<close>

lemma stack_bounds:
  assumes "st_ok st"
  shows "contents st = [] \<Longrightarrow> fst (pop_with f st) = Inl OutOfRange \<and> fst (on_top g st) = Inl OutOfRange"
    and "length (contents st) \<le> 1 \<Longrightarrow> fst (binary h st) = Inl OutOfRange"
    and "length (contents st) = 32 \<Longrightarrow> fst (push_with g st) = Inl OutOfRange"
proof -
  note t = st_ok_top [OF assms]
  have l: "length (stack st) = 32" using assms by (simp add: st_ok_def)
  show e: "fst (pop_with f st) = Inl OutOfRange \<and> fst (on_top g st) = Inl OutOfRange" if "contents st = []"
  proof -
    have "32 \<le> unat (curStack st - 1)" using t that by (intro unat_wrap32) simp
    then show ?thesis using l by (simp add: pop_with_def on_top_def op_bind_def move_top_def get_at_def)
  qed
  show "fst (binary h st) = Inl OutOfRange" if "length (contents st) \<le> 1"
  proof (cases "contents st")
    case Nil
    then have "32 \<le> unat (curStack st - 1)" using t by (intro unat_wrap32) simp
    then show ?thesis using l by (simp add: binary_def op_bind_def move_top_def get_at_def)
  next
    case (Cons x zs)
    then have zs: "zs = []" using that by simp
    obtain st1 where p: "move_top (- 1) st = (Inr (), st1)" "st_ok st1" "contents st1 = []"
      "get_at (curStack st1) st1 = (Inr x, st1)" using pop_spec [OF assms Cons] zs by blast
    have "32 \<le> unat (curStack st1 - 1)" using st_ok_top [OF p(2)] p(3) by (intro unat_wrap32) simp
    moreover have "length (stack st1) = 32" using p(2) by (simp add: st_ok_def)
    ultimately show ?thesis using p by (simp add: binary_def op_bind_def on_top_def get_at_def split: if_splits)
  qed
  show "fst (push_with g st) = Inl OutOfRange" if "length (contents st) = 32"
    using t that l by (simp add: push_with_def op_bind_def move_top_def get_at_def)
qed

end
