(* ===== verification/Rtlbcd_Exec.thy ===== *)
theory Rtlbcd_Exec
  imports Rtlbcd_Stack
begin

text \<open>
  A client of the decimal run-time library: the postfix code of an arithmetic expression. The
  interface it relies on is the locale \<open>value_stack\<close>, whose laws are discharged for the functions of
  \<open>Rtlbcd\<close>; the correctness of the code is proved once, from the laws.
\<close>

section \<open>Expressions and their code\<close>

datatype dexp = Num "64 word" | Add dexp dexp | Sub dexp dexp | Mul dexp dexp | Neg dexp | Abs dexp

datatype dinstr = IPush "64 word" | IAdd | ISub | IMul | INegate | IAbs

fun compile :: "dexp \<Rightarrow> dinstr list" where
  "compile (Num v) = [IPush v]"
| "compile (Add a b) = compile a @ compile b @ [IAdd]"
| "compile (Sub a b) = compile a @ compile b @ [ISub]"
| "compile (Mul a b) = compile a @ compile b @ [IMul]"
| "compile (Neg a) = compile a @ [INegate]"
| "compile (Abs a) = compile a @ [IAbs]"

text \<open>
  The value, where every intermediate result has at most 32 digits. A factor zero is left out: the
  digits of a zero may lie anywhere, and its product can end outside the digit array. The least 64 bit number is left
  out as well: pushing it is undefined.
\<close>

definition small_int :: "int \<Rightarrow> int option" where
  "small_int z = (if \<bar>z\<bar> < 10 ^ 32 then Some z else None)"

fun deval :: "dexp \<Rightarrow> int option" where
  "deval (Num v) = (if sint v = - (2 ^ 63) then None else Some (sint v))"
| "deval (Add a b) = (case (deval a, deval b) of (Some x, Some y) \<Rightarrow> small_int (x + y) | _ \<Rightarrow> None)"
| "deval (Sub a b) = (case (deval a, deval b) of (Some x, Some y) \<Rightarrow> small_int (x - y) | _ \<Rightarrow> None)"
| "deval (Mul a b) =
     (case (deval a, deval b) of (Some x, Some y) \<Rightarrow> if x = 0 \<or> y = 0 then None else small_int (x * y) | _ \<Rightarrow> None)"
| "deval (Neg a) = map_option uminus (deval a)"
| "deval (Abs a) = map_option abs (deval a)"

fun ddepth :: "dexp \<Rightarrow> nat" where
  "ddepth (Num v) = 1"
| "ddepth (Add a b) = max (ddepth a) (Suc (ddepth b))"
| "ddepth (Sub a b) = max (ddepth a) (Suc (ddepth b))"
| "ddepth (Mul a b) = max (ddepth a) (Suc (ddepth b))"
| "ddepth (Neg a) = ddepth a"
| "ddepth (Abs a) = ddepth a"

fun exec :: "(dinstr \<Rightarrow> 's \<Rightarrow> unit res \<times> 's) \<Rightarrow> dinstr list \<Rightarrow> 's \<Rightarrow> unit res \<times> 's" where
  "exec step [] s = (Inr (), s)"
| "exec step (i # is) s = (case step i s of (Inl e, s') \<Rightarrow> (Inl e, s') | (Inr _, s') \<Rightarrow> exec step is s')"

section \<open>The interface\<close>

locale value_stack =
  fixes step :: "dinstr \<Rightarrow> 's \<Rightarrow> unit res \<times> 's" and inv :: "'s \<Rightarrow> bool" and vals :: "'s \<Rightarrow> int list" and cap :: nat
  assumes push: "inv s \<Longrightarrow> length (vals s) < cap \<Longrightarrow> sint v \<noteq> - (2 ^ 63) \<Longrightarrow> \<exists>s'. step (IPush v) s = (Inr (), s') \<and> inv s' \<and> vals s' = sint v # vals s"
    and add: "inv s \<Longrightarrow> vals s = y # x # zs \<Longrightarrow> \<bar>x + y\<bar> < 10 ^ 32 \<Longrightarrow>
      \<exists>s'. step IAdd s = (Inr (), s') \<and> inv s' \<and> vals s' = (x + y) # zs"
    and sub: "inv s \<Longrightarrow> vals s = y # x # zs \<Longrightarrow> \<bar>x - y\<bar> < 10 ^ 32 \<Longrightarrow>
      \<exists>s'. step ISub s = (Inr (), s') \<and> inv s' \<and> vals s' = (x - y) # zs"
    and mul: "inv s \<Longrightarrow> vals s = y # x # zs \<Longrightarrow> x \<noteq> 0 \<Longrightarrow> y \<noteq> 0 \<Longrightarrow> \<bar>x * y\<bar> < 10 ^ 32 \<Longrightarrow>
      \<exists>s'. step IMul s = (Inr (), s') \<and> inv s' \<and> vals s' = (x * y) # zs"
    and negate: "inv s \<Longrightarrow> vals s = x # zs \<Longrightarrow> \<exists>s'. step INegate s = (Inr (), s') \<and> inv s' \<and> vals s' = (- x) # zs"
    and abs: "inv s \<Longrightarrow> vals s = x # zs \<Longrightarrow> \<exists>s'. step IAbs s = (Inr (), s') \<and> inv s' \<and> vals s' = \<bar>x\<bar> # zs"
begin

lemma exec_append:
  "exec step (is @ js) s = (case exec step is s of (Inl e, s') \<Rightarrow> (Inl e, s') | (Inr _, s') \<Rightarrow> exec step js s')"
  by (induction "is" arbitrary: s) (auto split: prod.splits sum.splits)

lemma exec_unary:
  assumes "exec step is s = (Inr (), s1)" "step i s1 = (Inr (), s2)"
  shows "exec step (is @ [i]) s = (Inr (), s2)"
  using assms by (simp add: exec_append)

lemma exec_binary:
  assumes "exec step is s = (Inr (), s1)" "exec step js s1 = (Inr (), s2)" "step i s2 = (Inr (), s3)"
  shows "exec step (is @ js @ [i]) s = (Inr (), s3)"
  using assms by (simp add: exec_append)

text \<open>Both operands of a binary operation, one above the other.\<close>

lemma operands:
  assumes "\<exists>s1. exec step is s = (Inr (), s1) \<and> inv s1 \<and> vals s1 = x # vals s"
    and "\<And>s1. inv s1 \<Longrightarrow> vals s1 = x # vals s \<Longrightarrow> \<exists>s2. exec step js s1 = (Inr (), s2) \<and> inv s2 \<and> vals s2 = y # vals s1"
    and "\<And>s2. inv s2 \<Longrightarrow> vals s2 = y # x # vals s \<Longrightarrow> \<exists>s3. step i s2 = (Inr (), s3) \<and> inv s3 \<and> vals s3 = z # vals s"
  shows "\<exists>s'. exec step (is @ js @ [i]) s = (Inr (), s') \<and> inv s' \<and> vals s' = z # vals s"
proof -
  obtain s1 where 1: "exec step is s = (Inr (), s1)" "inv s1" "vals s1 = x # vals s" using assms(1) by blast
  obtain s2 where 2: "exec step js s1 = (Inr (), s2)" "inv s2" "vals s2 = y # vals s1" using assms(2) 1 by blast
  obtain s3 where 3: "step i s2 = (Inr (), s3)" "inv s3" "vals s3 = z # vals s" using assms(3) 1(3) 2 by auto
  show ?thesis using exec_binary [OF 1(1) 2(1) 3(1)] 3 by blast
qed

theorem exec_compile:
  assumes "deval e = Some v" "inv s" "length (vals s) + ddepth e \<le> cap"
  shows "\<exists>s'. exec step (compile e) s = (Inr (), s') \<and> inv s' \<and> vals s' = v # vals s"
  using assms
proof (induction e arbitrary: v s)
  case (Num w)
  then show ?case using push [of s w] by (auto split: if_splits)
next
  case (Add a b)
  then obtain x y where xy: "deval a = Some x" "deval b = Some y" "v = x + y" "\<bar>x + y\<bar> < 10 ^ 32"
    by (auto simp: small_int_def split: option.splits if_splits)
  show ?case unfolding compile.simps
  proof (rule operands [of _ _ x _ y])
    show "\<exists>s1. exec step (compile a) s = (Inr (), s1) \<and> inv s1 \<and> vals s1 = x # vals s"
      using Add.IH(1) [OF xy(1) Add.prems(2)] Add.prems(3) by simp
    show "\<exists>s2. exec step (compile b) s1 = (Inr (), s2) \<and> inv s2 \<and> vals s2 = y # vals s1"
      if "inv s1" "vals s1 = x # vals s" for s1
      using Add.IH(2) [OF xy(2) that(1)] that(2) Add.prems(3) by simp
  qed (use xy add in auto)
next
  case (Sub a b)
  then obtain x y where xy: "deval a = Some x" "deval b = Some y" "v = x - y" "\<bar>x - y\<bar> < 10 ^ 32"
    by (auto simp: small_int_def split: option.splits if_splits)
  show ?case unfolding compile.simps
  proof (rule operands [of _ _ x _ y])
    show "\<exists>s1. exec step (compile a) s = (Inr (), s1) \<and> inv s1 \<and> vals s1 = x # vals s"
      using Sub.IH(1) [OF xy(1) Sub.prems(2)] Sub.prems(3) by simp
    show "\<exists>s2. exec step (compile b) s1 = (Inr (), s2) \<and> inv s2 \<and> vals s2 = y # vals s1"
      if "inv s1" "vals s1 = x # vals s" for s1
      using Sub.IH(2) [OF xy(2) that(1)] that(2) Sub.prems(3) by simp
  qed (use xy sub in auto)
next
  case (Mul a b)
  then obtain x y where xy: "deval a = Some x" "deval b = Some y" "v = x * y" "\<bar>x * y\<bar> < 10 ^ 32" "x \<noteq> 0" "y \<noteq> 0"
    by (auto simp: small_int_def split: option.splits if_splits)
  show ?case unfolding compile.simps
  proof (rule operands [of _ _ x _ y])
    show "\<exists>s1. exec step (compile a) s = (Inr (), s1) \<and> inv s1 \<and> vals s1 = x # vals s"
      using Mul.IH(1) [OF xy(1) Mul.prems(2)] Mul.prems(3) by simp
    show "\<exists>s2. exec step (compile b) s1 = (Inr (), s2) \<and> inv s2 \<and> vals s2 = y # vals s1"
      if "inv s1" "vals s1 = x # vals s" for s1
      using Mul.IH(2) [OF xy(2) that(1)] that(2) Mul.prems(3) by simp
  qed (use xy mul in auto)
next
  case (Neg a)
  then obtain x where x: "deval a = Some x" "v = - x" by auto
  obtain s1 where "exec step (compile a) s = (Inr (), s1)" "inv s1" "vals s1 = x # vals s" using Neg x by auto
  then show ?case using negate [of s1 x "vals s"] exec_unary x(2) by force
next
  case (Abs a)
  then obtain x where x: "deval a = Some x" "v = \<bar>x\<bar>" by auto
  obtain s1 where "exec step (compile a) s = (Inr (), s1)" "inv s1" "vals s1 = x # vals s" using Abs x by auto
  then show ?case using abs [of s1 x "vals s"] exec_unary x(2) by force
qed

end

section \<open>The run-time library provides it\<close>

fun dec_step :: "dinstr \<Rightarrow> unit decop" where
  "dec_step (IPush v) = DecPushInt64 v"
| "dec_step IAdd = DecAdd"
| "dec_step ISub = DecSub"
| "dec_step IMul = DecMul"
| "dec_step INegate = DecNegate"
| "dec_step IAbs = DecAbs"

definition whole :: "decimal \<Rightarrow> bool" where
  "whole d \<longleftrightarrow> 10 ^ 32 dvd sval d"

definition rtl_vals :: "rtlbcd \<Rightarrow> int list" where
  "rtl_vals st = map (\<lambda>d. sval d div 10 ^ 32) (contents st)"

definition rtl_inv :: "rtlbcd \<Rightarrow> bool" where
  "rtl_inv st \<longleftrightarrow> st_ok st \<and> list_all whole (contents st)"

lemma whole_val: "whole d \<Longrightarrow> sval d div 10 ^ 32 = z \<longleftrightarrow> sval d = z * 10 ^ 32"
  by (auto simp: whole_def)

lemma rtl_inv_cons:
  assumes "st_ok st" "contents st = d # ds" "sval d = z * 10 ^ 32" "list_all whole ds"
  shows "rtl_inv st \<and> rtl_vals st = z # map (\<lambda>d. sval d div 10 ^ 32) ds"
  using assms by (simp add: rtl_inv_def rtl_vals_def whole_def)

lemma rtl_one:
  assumes "rtl_inv st" "rtl_vals st = x # zs"
  obtains d ds where "st_ok st" "contents st = d # ds" "sval d = x * 10 ^ 32" "dec_wf d"
    "list_all whole ds" "map (\<lambda>d. sval d div 10 ^ 32) ds = zs" "list_all dec_wf ds"
proof -
  obtain d ds where c: "contents st = d # ds" "sval d div 10 ^ 32 = x" "map (\<lambda>d. sval d div 10 ^ 32) ds = zs"
    using assms(2) by (auto simp: rtl_vals_def map_eq_Cons_conv)
  have "st_ok st" "list_all whole (d # ds)" using assms(1) c(1) by (auto simp: rtl_inv_def)
  moreover from this have "list_all dec_wf (d # ds)" using c(1) by (simp add: st_ok_def)
  ultimately show ?thesis using that [of d ds] c whole_val [of d x] by simp
qed

lemma rtl_two:
  assumes "rtl_inv st" "rtl_vals st = y # x # zs"
  obtains d e ds where "st_ok st" "contents st = e # d # ds" "sval d = x * 10 ^ 32" "sval e = y * 10 ^ 32" "dec_wf d" "dec_wf e"
    "list_all whole ds" "map (\<lambda>d. sval d div 10 ^ 32) ds = zs"
proof -
  obtain e es where e: "st_ok st" "contents st = e # es" "sval e = y * 10 ^ 32" "dec_wf e"
    "list_all whole es" "map (\<lambda>d. sval d div 10 ^ 32) es = x # zs" "list_all dec_wf es" by (rule rtl_one [OF assms])
  obtain d ds where d: "es = d # ds" "sval d div 10 ^ 32 = x" "map (\<lambda>d. sval d div 10 ^ 32) ds = zs"
    using e(6) by (auto simp: map_eq_Cons_conv)
  show ?thesis using that [of e d ds] e d whole_val [of d x] by simp
qed

lemma rtl_binary:
  assumes "rtl_inv st" "rtl_vals st = y # x # zs"
    and "\<And>d e. dec_wf d \<Longrightarrow> dec_wf e \<Longrightarrow> sval d = x * 10 ^ 32 \<Longrightarrow> sval e = y * 10 ^ 32 \<Longrightarrow>
      \<exists>r. f d e = Inr r \<and> dec_wf r \<and> sval r = z * 10 ^ 32"
  shows "\<exists>st'. binary f st = (Inr (), st') \<and> rtl_inv st' \<and> rtl_vals st' = z # zs"
proof -
  obtain d e ds where a: "st_ok st" "contents st = e # d # ds" "sval d = x * 10 ^ 32" "sval e = y * 10 ^ 32" "dec_wf d" "dec_wf e"
    "list_all whole ds" "map (\<lambda>d. sval d div 10 ^ 32) ds = zs" using rtl_two [OF assms(1,2)] .
  obtain r where r: "f d e = Inr r" "dec_wf r" "sval r = z * 10 ^ 32" using assms(3) a by blast
  obtain st' where "binary f st = (Inr (), st')" "st_ok st'" "contents st' = r # ds"
    using binary_spec [of st e d ds f r] a(1,2) r(1,2) by blast
  then show ?thesis using rtl_inv_cons [of st' r ds z] r(3) a(7,8) by auto
qed

lemma rtl_unary:
  assumes "rtl_inv st" "rtl_vals st = x # zs"
    and "\<And>d. dec_wf d \<Longrightarrow> sval d = x * 10 ^ 32 \<Longrightarrow> \<exists>r. f d = Inr r \<and> dec_wf r \<and> sval r = z * 10 ^ 32"
  shows "\<exists>st'. on_top f st = (Inr (), st') \<and> rtl_inv st' \<and> rtl_vals st' = z # zs"
proof -
  obtain d ds where a: "st_ok st" "contents st = d # ds" "sval d = x * 10 ^ 32" "dec_wf d"
    "list_all whole ds" "map (\<lambda>d. sval d div 10 ^ 32) ds = zs" using rtl_one [OF assms(1,2)] .
  obtain r where r: "f d = Inr r" "dec_wf r" "sval r = z * 10 ^ 32" using assms(3) a by blast
  obtain st' where "on_top f st = (Inr (), st')" "st_ok st'" "contents st' = r # ds"
    using on_top_spec [of st d ds f r] a(1,2) r(1,2) by blast
  then show ?thesis using rtl_inv_cons [of st' r ds z] r(3) a(5,6) by auto
qed

lemma keep64_whole: "\<bar>z\<bar> < 10 ^ 32 \<Longrightarrow> keep64 (z * 10 ^ 32) = z * 10 ^ 32"
  by (rule keep64_id) (simp add: abs_mult)

interpretation rtl: value_stack dec_step rtl_inv rtl_vals 32
proof (unfold_locales, unfold dec_step.simps)
  fix s :: rtlbcd and x y :: int and zs v
  show "\<exists>s'. DecPushInt64 v s = (Inr (), s') \<and> rtl_inv s' \<and> rtl_vals s' = sint v # rtl_vals s"
    if "rtl_inv s" "length (rtl_vals s) < 32" and least: "sint v \<noteq> - (2 ^ 63)"
  proof -
    have a: "st_ok s" "list_all whole (contents s)" "length (contents s) < 32"
      using that by (auto simp: rtl_inv_def rtl_vals_def)
    obtain s' e where p: "DecPushInt64 v s = (Inr (), s')" "st_ok s'" "contents s' = e # contents s" "sval e = sint v * 10 ^ 32"
      using push_with_spec [OF a(1,3), of "\<lambda>d. setInt64 d v" "\<lambda>e. sval e = sint v * 10 ^ 32"] setInt64_spec [OF _ least]
      unfolding DecPushInt64_def by blast
    show ?thesis using p(1) rtl_inv_cons [OF p(2,3,4) a(2)] by (auto simp: rtl_vals_def)
  qed
  show "\<exists>s'. DecAdd s = (Inr (), s') \<and> rtl_inv s' \<and> rtl_vals s' = (x + y) # zs"
    if "rtl_inv s" "rtl_vals s = y # x # zs" "\<bar>x + y\<bar> < 10 ^ 32"
    unfolding DecAdd_def using that(1,2) by (rule rtl_binary)
      (use add_dec_spec keep64_whole [OF that(3)] in \<open>fastforce simp: distrib_right\<close>)
  show "\<exists>s'. DecSub s = (Inr (), s') \<and> rtl_inv s' \<and> rtl_vals s' = (x - y) # zs"
    if "rtl_inv s" "rtl_vals s = y # x # zs" "\<bar>x - y\<bar> < 10 ^ 32"
    unfolding DecSub_def using that(1,2) by (rule rtl_binary)
      (use subtract_dec_spec keep64_whole [OF that(3)] in \<open>fastforce simp: left_diff_distrib\<close>)
  show "\<exists>s'. DecMul s = (Inr (), s') \<and> rtl_inv s' \<and> rtl_vals s' = (x * y) # zs"
    if "rtl_inv s" "rtl_vals s = y # x # zs" "x \<noteq> 0" "y \<noteq> 0" "\<bar>x * y\<bar> < 10 ^ 32"
    unfolding DecMul_def using that(1,2) by (rule rtl_binary) (use multiply_whole that(3-5) in blast)
  show "\<exists>s'. DecNegate s = (Inr (), s') \<and> rtl_inv s' \<and> rtl_vals s' = (- x) # zs"
    if "rtl_inv s" "rtl_vals s = x # zs"
    unfolding DecNegate_def using that by (rule rtl_unary) (auto simp: negate_dec_def sval_def dec_wf_def dval_def split: if_splits)
  show "\<exists>s'. DecAbs s = (Inr (), s') \<and> rtl_inv s' \<and> rtl_vals s' = \<bar>x\<bar> # zs"
    if "rtl_inv s" "rtl_vals s = x # zs"
    unfolding DecAbs_def using that
  proof (rule rtl_unary)
    fix d assume d: "dec_wf d" "sval d = x * 10 ^ 32"
    have "sval (abs_dec d) = int (dval d)" by (simp add: abs_dec_def sval_def dval_def)
    also have "\<dots> = \<bar>x\<bar> * 10 ^ 32" using abs_sval [of d] d(2) by (simp add: abs_mult)
    finally show "\<exists>r. Inr (abs_dec d) = Inr r \<and> dec_wf r \<and> sval r = \<bar>x\<bar> * 10 ^ 32"
      using d(1) by (simp add: abs_dec_def dec_wf_def)
  qed
qed

end
