(* ===== verification/Rtlbcd_Theorems.thy ===== *)
theory Rtlbcd_Theorems
  imports Rtlbcd_Exec
begin

text \<open>
  What the decimal run-time library promises to compiled code, each with a concrete instance.
\<close>

section \<open>Swapping and duplicating\<close>

lemma two_on_top:
  assumes "st_ok st" "contents st = y # x # zs"
  shows "unat (curStack st - 1) = Suc (length zs)" "unat (curStack st - 2) = length zs"
    "stack st ! Suc (length zs) = y" "stack st ! length zs = x" "length zs < 31" "length (stack st) = 32"
    "take (length zs) (stack st) = rev zs"
proof -
  have t: "unat (curStack st) = Suc (Suc (length zs))" using st_ok_top [OF assms(1)] assms(2) by simp
  show u: "unat (curStack st - 1) = Suc (length zs)" using t by (rule unat_pred32)
  have "curStack st - 2 = curStack st - 1 - 1" by simp
  then show "unat (curStack st - 2) = length zs" using unat_pred32 [OF u] by simp
  show "stack st ! Suc (length zs) = y" using contents_nth(1) [OF assms(1), of "[]" y "x # zs"] assms(2) by simp
  show "stack st ! length zs = x" using contents_nth(1) [OF assms(1), of "[y]" x zs] assms(2) by simp
  show "length zs < 31" using contents_nth(2) [OF assms(1), of "[]" y "x # zs"] assms(2) by simp
  show "length (stack st) = 32" using assms(1) by (simp add: st_ok_def)
  have "take (Suc (Suc (length zs))) (stack st) = rev zs @ [x, y]" using assms(2) t by (simp add: contents_def rev_swap)
  then have "take (length zs) (take (Suc (Suc (length zs))) (stack st)) = rev zs" by simp
  then show "take (length zs) (stack st) = rev zs" by (simp add: min_def)
qed

lemma DecSwap_spec:
  assumes "st_ok st" "contents st = y # x # zs"
  shows "\<exists>st'. DecSwap st = (Inr (), st') \<and> st_ok st' \<and> contents st' = x # y # zs"
proof -
  note p = two_on_top [OF assms]
  let ?n = "length zs"
  let ?s = "(stack st)[Suc ?n := x, ?n := y]"
  have ok: "list_all (\<lambda>d. digits_ok (digits d)) (stack st)" "list_all dec_wf (y # x # zs)"
    using assms by (auto simp: st_ok_def)
  have "take (Suc (Suc ?n)) ?s = rev (x # y # zs)"
    using p(5-7) by (simp add: take_Suc_conv_app_nth take_update_cancel nth_list_update)
  moreover have "list_all (\<lambda>d. digits_ok (digits d)) ?s"
    using ok by (intro list_all_update) (auto simp: dec_wf_def)
  moreover have "unat (curStack st) = length (x # y # zs)" using st_ok_top [OF assms(1)] assms(2) by simp
  ultimately have "st_ok (st\<lparr>stack := ?s\<rparr>) \<and> contents (st\<lparr>stack := ?s\<rparr>) = x # y # zs"
    using st_okI [of ?s "curStack st" "x # y # zs"] p(5,6) ok(2) by (cases st) simp
  moreover have "DecSwap st = (Inr (), st\<lparr>stack := ?s\<rparr>)"
    using p by (simp add: DecSwap_def op_bind_def get_at_def set_at_def)
  ultimately show ?thesis by blast
qed

text \<open>A stack for the instances: two integers pushed on the initial stack.\<close>

definition two_pushed :: "64 word \<Rightarrow> 64 word \<Rightarrow> rtlbcd" where
  "two_pushed v w = snd (DecPushInt64 w (snd (DecPushInt64 v rtlbcd_init)))"

lemma rtl_init: "rtl_inv rtlbcd_init" "rtl_vals rtlbcd_init = []"
  using rtlbcd_init_ok by (simp_all add: rtl_inv_def rtl_vals_def)

lemma rtl_push: "rtl_inv s \<Longrightarrow> length (rtl_vals s) < 32 \<Longrightarrow> sint v \<noteq> - (2 ^ 63) \<Longrightarrow>
    rtl_inv (snd (DecPushInt64 v s)) \<and> rtl_vals (snd (DecPushInt64 v s)) = sint v # rtl_vals s"
  using rtl.push [of s v] by auto

lemma two_pushed_spec:
  assumes "sint v \<noteq> - (2 ^ 63)" "sint w \<noteq> - (2 ^ 63)"
  shows "rtl_inv (two_pushed v w)" "rtl_vals (two_pushed v w) = [sint w, sint v]"
  using assms rtl_push [OF rtl_init(1), of v] rtl_push [of "snd (DecPushInt64 v rtlbcd_init)" w]
  by (simp_all add: rtl_init(2) two_pushed_def)

lemma two_pushed_contents:
  assumes "sint v \<noteq> - (2 ^ 63)" "sint w \<noteq> - (2 ^ 63)"
  shows "\<exists>d e. st_ok (two_pushed v w) \<and> contents (two_pushed v w) = [e, d] \<and> dec_wf d \<and> dec_wf e \<and>
     sval d = sint v * 10 ^ 32 \<and> sval e = sint w * 10 ^ 32"
  by (rule rtl_two [OF two_pushed_spec [OF assms]]) auto

section \<open>Theorems\<close>

text \<open>
  C2. The code of an arithmetic expression, run on the library, returns without an exception and
  leaves the value of the expression on top of an otherwise unchanged stack, whenever every
  intermediate result has at most 32 digits, no factor is zero, no constant is the least 64 bit number and the stack is
  deep enough.
\<close>

theorem dec_expression_correct:
  assumes "deval e = Some v" "rtl_inv st" "length (rtl_vals st) + ddepth e \<le> 32"
  shows "\<exists>st'. exec dec_step (compile e) st = (Inr (), st') \<and> rtl_inv st' \<and> rtl_vals st' = v # rtl_vals st"
  using assms by (rule rtl.exec_compile)

theorem dec_expression_correct_witness:
  "\<exists>st'. exec dec_step (compile (Sub (Mul (Num 3) (Neg (Num 4))) (Num 5))) rtlbcd_init = (Inr (), st') \<and> rtl_vals st' = [- 17]"
  using dec_expression_correct [of "Sub (Mul (Num 3) (Neg (Num 4))) (Num 5)" "- 17" rtlbcd_init]
  by (auto simp: rtl_init small_int_def)

text \<open>
  C30. Division and modulus by zero: with \<^verbatim>\<open>DBZzero\<close> or \<^verbatim>\<open>DBZnan\<close> the two operands are replaced by zero,
  with \<^verbatim>\<open>DBZfail\<close> the division-by-zero exception is thrown and the divisor has been popped.
\<close>

theorem dec_divide_by_zero:
  assumes "st_ok st" "contents st = y # x # zs" "sval y = 0" "op = DecDivide \<or> op = DecModulus"
  shows "(dbz = DBZzero \<or> dbz = DBZnan \<longrightarrow>
      (\<exists>st' z. op dbz st = (Inr (), st') \<and> st_ok st' \<and> contents st' = z # zs \<and> sval z = 0)) \<and>
    (dbz = DBZfail \<longrightarrow> (\<exists>st'. op dbz st = (Inl (Thrown (- 1)), st') \<and> st_ok st' \<and> contents st' = x # zs))"
proof -
  have y: "dval y = 0" using assms(3) abs_sval [of y] by simp
  obtain f where f: "op = divide_by f" using assms(4) by (auto simp: DecDivide_def DecModulus_def fun_eq_iff)
  have "dec_wf x" using assms(1,2) by (simp add: st_ok_def)
  then have "sval (setZero x) = 0" by (simp add: sval_def)
  then show ?thesis using divide_by_spec(2,3) [OF assms(1,2) y, of dbz f] f by blast
qed

theorem dec_divide_by_zero_witness:
  "(\<exists>st' z. DecDivide DBZzero (two_pushed 7 0) = (Inr (), st') \<and> contents st' = [z] \<and> sval z = 0) \<and>
   (\<exists>st' z. DecModulus DBZfail (two_pushed 7 0) = (Inl (Thrown (- 1)), st') \<and> contents st' = [z] \<and> sval z = 7 * 10 ^ 32)"
proof -
  obtain d e where c: "st_ok (two_pushed 7 0)" "contents (two_pushed 7 0) = [e, d]" "sval d = 7 * 10 ^ 32" "sval e = 0"
    using two_pushed_contents [of 7 0] by auto
  show ?thesis using dec_divide_by_zero [OF c(1,2,4), of DecDivide DBZzero]
      dec_divide_by_zero [OF c(1,2,4), of DecModulus DBZfail] c(3) by auto
qed



end
