(* ===== verification/Jsuperhash.thy ===== *)
theory Jsuperhash
  imports Prelude "HOL-Library.Word"
begin

text \<open>
  The hash table that most containers of the platform are built on: class \<^verbatim>\<open>SuperHashTable\<close>
  (system/jlib/jsuperhash.cpp and .hpp), open addressing with linear probing in a table whose size
  is a power of two (\<^verbatim>\<open>HASHSIZE_POWER2\<close>, which the file defines).

  An element is a non-null pointer of type \<open>'e\<close>, compared with \<open>=\<close>; a null pointer is \<open>None\<close>. The virtual
  methods of the derived class are the record \<open>vtable\<close>, an argument of every operation that calls
  them; \<^verbatim>\<open>onAdd\<close> and \<^verbatim>\<open>onRemove\<close> are the events an operation appends to \<open>events\<close>. The sizes are unsigned
  32 bit words with their wrap-around; an index into the table is a natural number, since it is
  below the size whenever it is incremented. The \<^verbatim>\<open>TRACE_HASH\<close> statistics are compiled out.
\<close>

unbundle bit_operations_syntax

section \<open>State\<close>

datatype 'e event = OnAdd 'e | OnRemove 'e

record 'e SuperHashTable =
  table :: "'e option list"
  tablesize :: "32 word"
  tablecount :: "32 word"
  cache :: "32 word"
  events :: "'e event list"

type_synonym ('e, 'a) hop = "('e SuperHashTable, 'a) op"

record ('e, 'p) vtable =
  getHashFromElement :: "'e \<Rightarrow> 32 word"
  getHashFromFindParam :: "'p \<Rightarrow> 32 word"
  getFindParam :: "'e \<Rightarrow> 'p"
  getTableLimit :: "32 word \<Rightarrow> 32 word"
  matchesFindParam :: "'e \<Rightarrow> 'p \<Rightarrow> 32 word \<Rightarrow> bool"
  matchesElement :: "'e \<Rightarrow> 'e \<Rightarrow> bool res"

text \<open>The methods a derived class inherits unless it overrides them.\<close>

definition base_getTableLimit :: "32 word \<Rightarrow> 32 word" where
  "base_getTableLimit sz = (sz * 3) div 4"

definition base_matchesElement :: "'e \<Rightarrow> 'e \<Rightarrow> bool res" where
  "base_matchesElement et searchET = Inl AssertFailed"

definition setCache :: "nat \<Rightarrow> 'e SuperHashTable \<Rightarrow> 'e SuperHashTable" where
  "setCache v st = st\<lparr>cache := of_nat v\<rparr>"

definition notify :: "'e event \<Rightarrow> 'e SuperHashTable \<Rightarrow> 'e SuperHashTable" where
  "notify ev st = st\<lparr>events := events st @ [ev]\<rparr>"

text \<open>Access to \<^verbatim>\<open>table[v]\<close>.\<close>

definition slot :: "nat \<Rightarrow> ('e, 'e option) hop" where
  "slot v st = (if v < length (table st) then Inr (table st ! v) else Inl OutOfRange, st)"

definition put :: "nat \<Rightarrow> 'e option \<Rightarrow> ('e, unit) hop" where
  "put v et st = (if v < length (table st) then (Inr (), st\<lparr>table := (table st)[v := et]\<rparr>) else (Inl OutOfRange, st))"

section \<open>Construction\<close>

abbreviation InitialTableSize :: "32 word" where "InitialTableSize \<equiv> 16"

definition nextPowerOf2 :: "32 word \<Rightarrow> 32 word" where
  "nextPowerOf2 v =
     (let v = v - 1;
          v = v OR drop_bit 1 v;
          v = v OR drop_bit 2 v;
          v = v OR drop_bit 4 v;
          v = v OR drop_bit 8 v;
          v = v OR drop_bit 16 v
      in v + 1)"

definition SuperHashTable_new :: "'e SuperHashTable" where
  "SuperHashTable_new =
     \<lparr>table = replicate (unat InitialTableSize) None, tablesize = InitialTableSize, tablecount = 0, cache = 0, events = []\<rparr>"

definition init :: "32 word \<Rightarrow> 'e SuperHashTable \<Rightarrow> 'e SuperHashTable" where
  "init initsize st =
     (let initsize = (if initsize = 0 then InitialTableSize else initsize);
          initsize = nextPowerOf2 initsize
      in st\<lparr>table := replicate (unat initsize) None, tablesize := initsize, tablecount := 0, cache := 0\<rparr>)"

definition reinit :: "32 word \<Rightarrow> 'e SuperHashTable \<Rightarrow> 'e SuperHashTable" where
  "reinit initsize st = init initsize st"

section \<open>Searching\<close>

text \<open>
  The loop of the searches, from \<open>v\<close>, with the start \<open>vs\<close>: it ends at an empty slot, at an element that
  \<open>stop\<close> accepts, or back at the start. The fuel is one more than the table size, more than the
  loop can use.
\<close>

definition step_index :: "nat \<Rightarrow> nat \<Rightarrow> nat" where
  "step_index sz v = (if v + 1 = sz then 0 else v + 1)"

fun probe_loop :: "('e \<Rightarrow> bool res) \<Rightarrow> 'e option list \<Rightarrow> nat \<Rightarrow> nat \<Rightarrow> nat \<Rightarrow> nat \<Rightarrow> nat res" where
  "probe_loop stop tab sz vs 0 v = Inl NoReturn"
| "probe_loop stop tab sz vs (Suc fuel) v =
     (if length tab \<le> v then Inl OutOfRange
      else case tab ! v of
        None \<Rightarrow> Inr v
      | Some et \<Rightarrow> res_bind (stop et) (\<lambda>found.
          if found then Inr v
          else let v = step_index sz v
               in if v = vs then Inr v else probe_loop stop tab sz vs fuel v))"

definition search :: "('e \<Rightarrow> bool res) \<Rightarrow> 32 word \<Rightarrow> ('e, nat) hop" where
  "search stop hash st =
     (let v = unat (hash AND (tablesize st - 1)); sz = unat (tablesize st)
      in case probe_loop stop (table st) sz v (Suc sz) v of
           Inl e \<Rightarrow> (Inl e, st)
         | Inr v \<Rightarrow> (Inr v, setCache v st))"

definition doFind :: "('e, 'p) vtable \<Rightarrow> 32 word \<Rightarrow> 'p \<Rightarrow> ('e, nat) hop" where
  "doFind V findHash findParam = search (\<lambda>et. Inr (matchesFindParam V et findParam findHash)) findHash"

definition doFindParam :: "('e, 'p) vtable \<Rightarrow> 'p \<Rightarrow> ('e, nat) hop" where
  "doFindParam V findParam = doFind V (getHashFromFindParam V findParam) findParam"

definition doFindElement :: "('e, 'p) vtable \<Rightarrow> 32 word \<Rightarrow> 'e \<Rightarrow> ('e, nat) hop" where
  "doFindElement V v findET = search (\<lambda>et. matchesElement V et findET) v"

definition doFindNew :: "32 word \<Rightarrow> ('e, nat) hop" where
  "doFindNew v = search (\<lambda>_. Inr False) v"

definition doFindExact :: "('e, 'p) vtable \<Rightarrow> 'e \<Rightarrow> ('e, nat) hop" where
  "doFindExact V et st =
     (let i = cache st in
      if i < tablesize st \<and> length (table st) \<le> unat i then (Inl OutOfRange, st)
      else if tablesize st \<le> i \<or> table st ! unat i \<noteq> Some et
      then search (\<lambda>cur. Inr (cur = et)) (getHashFromElement V et) st
      else (Inr (unat i), st))"

definition find_hash :: "('e, 'p) vtable \<Rightarrow> 32 word \<Rightarrow> 'p \<Rightarrow> ('e, 'e option) hop" where
  "find_hash V hashcode param = op_bind (doFind V hashcode param) slot"

definition find_param :: "('e, 'p) vtable \<Rightarrow> 'p \<Rightarrow> ('e, 'e option) hop" where
  "find_param V param = op_bind (doFindParam V param) slot"

definition findElement_hash :: "('e, 'p) vtable \<Rightarrow> 32 word \<Rightarrow> 'e \<Rightarrow> ('e, 'e option) hop" where
  "findElement_hash V hash findEt = op_bind (doFindElement V hash findEt) slot"

definition findElement :: "('e, 'p) vtable \<Rightarrow> 'e \<Rightarrow> ('e, 'e option) hop" where
  "findElement V findEt = op_bind (doFindElement V (getHashFromElement V findEt) findEt) slot"

definition findExact :: "('e, 'p) vtable \<Rightarrow> 'e \<Rightarrow> ('e, 'e option) hop" where
  "findExact V findEt = op_bind (doFindExact V findEt) slot"

section \<open>Growing\<close>

text \<open>The inner loop of \<^verbatim>\<open>expand\<close>, which looks for an empty slot, and the outer one.\<close>

fun free_loop :: "'e option list \<Rightarrow> nat \<Rightarrow> nat \<Rightarrow> nat \<Rightarrow> nat res" where
  "free_loop newtable newsize 0 v = Inl NoReturn"
| "free_loop newtable newsize (Suc fuel) v =
     (if length newtable \<le> v then Inl OutOfRange
      else if newtable ! v = None then Inr v
      else free_loop newtable newsize fuel (step_index newsize v))"

fun rehash :: "('e, 'p) vtable \<Rightarrow> 32 word \<Rightarrow> 'e option list \<Rightarrow> 'e option list \<Rightarrow> 'e option list res" where
  "rehash V newsize [] newtable = Inr newtable"
| "rehash V newsize (None # oldtable) newtable = rehash V newsize oldtable newtable"
| "rehash V newsize (Some et # oldtable) newtable =
     res_bind (free_loop newtable (unat newsize) (Suc (unat newsize)) (unat (getHashFromElement V et AND (newsize - 1))))
       (\<lambda>v. rehash V newsize oldtable (newtable[v := Some et]))"

definition expand_to :: "('e, 'p) vtable \<Rightarrow> 32 word \<Rightarrow> ('e, unit) hop" where
  "expand_to V newsize st =
     (if newsize < tablesize st then (Inl (Thrown 0), st)
      else case rehash V newsize (table st) (replicate (unat newsize) None) of
        Inl e \<Rightarrow> (Inl e, st)
      | Inr newtable \<Rightarrow> (Inr (), st\<lparr>table := newtable, tablesize := newsize\<rparr>))"

definition expand :: "('e, 'p) vtable \<Rightarrow> ('e, unit) hop" where
  "expand V st = expand_to V (tablesize st + tablesize st) st"

text \<open>The loop of \<^verbatim>\<open>ensure\<close>: the size wraps to zero after at most 32 doublings.\<close>

fun ensure_loop :: "('e, 'p) vtable \<Rightarrow> 32 word \<Rightarrow> 32 word \<Rightarrow> nat \<Rightarrow> 32 word \<Rightarrow> 32 word res" where
  "ensure_loop V mincount oldsize 0 newsize = Inl NoReturn"
| "ensure_loop V mincount oldsize (Suc fuel) newsize =
     (let newsize = newsize + newsize in
      if newsize < oldsize then Inl (Thrown 0)
      else if mincount \<le> getTableLimit V newsize then Inr newsize
      else ensure_loop V mincount oldsize fuel newsize)"

definition ensure :: "('e, 'p) vtable \<Rightarrow> 32 word \<Rightarrow> ('e, unit) hop" where
  "ensure V mincount st =
     (if mincount \<le> getTableLimit V (tablesize st) then (Inr (), st)
      else op_bind (op_res (ensure_loop V mincount (tablesize st) 33 (tablesize st))) (expand_to V) st)"

section \<open>Adding\<close>

text \<open>The tail that the functions share: \<^verbatim>\<open>tablecount++; table[vm] = donor; onAdd(donor)\<close>.\<close>

definition store :: "nat \<Rightarrow> 'e \<Rightarrow> ('e, unit) hop" where
  "store vm donor st =
     op_bind (put vm (Some donor)) (\<lambda>_ st. (Inr (), notify (OnAdd donor) st)) (st\<lparr>tablecount := tablecount st + 1\<rparr>)"

definition needs_expand :: "('e, 'p) vtable \<Rightarrow> 'e SuperHashTable \<Rightarrow> bool" where
  "needs_expand V st = (getTableLimit V (tablesize st) \<le> tablecount st)"

definition doAdd :: "('e, 'p) vtable \<Rightarrow> 'e \<Rightarrow> bool \<Rightarrow> ('e, bool) hop" where
  "doAdd V donor replace =
     (let vs = getHashFromElement V donor in
      op_bind (doFind V vs (getFindParam V donor)) (\<lambda>vm.
      op_bind (slot vm) (\<lambda>et.
        case et of
          Some et \<Rightarrow>
            if replace
            then (\<lambda>st. op_bind (put vm (Some donor)) (\<lambda>_ st. (Inr True, notify (OnAdd donor) st)) (notify (OnRemove et) st))
            else op_return False
        | None \<Rightarrow>
            op_bind
              (\<lambda>st. if needs_expand V st
                    then op_bind (expand V) (\<lambda>_. doFind V vs (getFindParam V donor)) st
                    else (Inr vm, st))
              (\<lambda>vm. op_bind (store vm donor) (\<lambda>_. op_return True)))))"

definition add :: "('e, 'p) vtable \<Rightarrow> 'e \<Rightarrow> ('e, bool) hop" where
  "add V et = doAdd V et False"

definition replace :: "('e, 'p) vtable \<Rightarrow> 'e \<Rightarrow> ('e, bool) hop" where
  "replace V et = doAdd V et True"

definition addNew_hash :: "('e, 'p) vtable \<Rightarrow> 'e \<Rightarrow> 32 word \<Rightarrow> ('e, unit) hop" where
  "addNew_hash V donor hash =
     op_bind (\<lambda>st. if needs_expand V st then expand V st else (Inr (), st)) (\<lambda>_.
     op_bind (doFindNew hash) (\<lambda>vm. store vm donor))"

definition addNew :: "('e, 'p) vtable \<Rightarrow> 'e \<Rightarrow> ('e, unit) hop" where
  "addNew V donor = addNew_hash V donor (getHashFromElement V donor)"

definition addOrFind :: "('e, 'p) vtable \<Rightarrow> 'e \<Rightarrow> ('e, 'e) hop" where
  "addOrFind V donor =
     (let vs = getHashFromElement V donor in
      op_bind (doFind V vs (getFindParam V donor)) (\<lambda>vm.
      op_bind (slot vm) (\<lambda>et.
        case et of
          None \<Rightarrow>
            op_bind
              (\<lambda>st. if needs_expand V st
                    then op_bind (expand V) (\<lambda>_. doFind V vs (getFindParam V donor)) st
                    else (Inr vm, st))
              (\<lambda>vm. op_bind (store vm donor) (\<lambda>_. op_return donor))
        | Some et \<Rightarrow> op_return et)))"

definition addOrFindExact :: "('e, 'p) vtable \<Rightarrow> 'e \<Rightarrow> ('e, 'e) hop" where
  "addOrFindExact V donor =
     op_bind (doFindExact V donor) (\<lambda>vm.
     op_bind (slot vm) (\<lambda>et.
       case et of
         None \<Rightarrow>
           op_bind
             (\<lambda>st. if needs_expand V st
                   then op_bind (expand V) (\<lambda>_. doFindExact V donor) st
                   else (Inr vm, st))
             (\<lambda>vm. op_bind (store vm donor) (\<lambda>_. op_return donor))
       | Some et \<Rightarrow> op_return et))"

section \<open>Removing\<close>

text \<open>
  The loop that closes the gap at \<open>v\<close>: \<open>vn\<close> runs on to the next empty slot, and an element that the gap
  cuts off from its home slot moves into it and leaves the gap behind.
\<close>

fun delete_loop :: "('e, 'p) vtable \<Rightarrow> 32 word \<Rightarrow> nat \<Rightarrow> 'e option list \<Rightarrow> nat \<Rightarrow> nat \<Rightarrow> 'e option list res" where
  "delete_loop V hs 0 tab v vn = Inl NoReturn"
| "delete_loop V hs (Suc fuel) tab v vn =
     (let hm = hs - 1; vn = step_index (unat hs) vn in
      if length tab \<le> vn then Inl OutOfRange
      else case tab ! vn of
        None \<Rightarrow> Inr tab
      | Some et2 \<Rightarrow>
          let vm = getHashFromElement V et2 AND hm in
          if (of_nat vn + hs - of_nat v) AND hm \<le> (of_nat vn + hs - vm) AND hm
          then delete_loop V hs fuel (tab[v := Some et2, vn := None]) vn vn
          else delete_loop V hs fuel tab v vn)"

definition doDeleteElement :: "('e, 'p) vtable \<Rightarrow> nat \<Rightarrow> ('e, unit) hop" where
  "doDeleteElement V v =
     op_bind (put v None) (\<lambda>_ st.
       case delete_loop V (tablesize st) (Suc (unat (tablesize st))) (table st) v v of
         Inl e \<Rightarrow> (Inl e, st)
       | Inr tab \<Rightarrow> (Inr (), st\<lparr>table := tab, tablecount := tablecount st - 1\<rparr>))"

definition remove :: "('e, 'p) vtable \<Rightarrow> 'p \<Rightarrow> ('e, bool) hop" where
  "remove V fp =
     op_bind (doFindParam V fp) (\<lambda>v.
     op_bind (slot v) (\<lambda>et.
       case et of
         None \<Rightarrow> op_return False
       | Some et \<Rightarrow> op_bind (doDeleteElement V v) (\<lambda>_ st. (Inr True, notify (OnRemove et) st))))"

definition removeExact :: "('e, 'p) vtable \<Rightarrow> 'e option \<Rightarrow> ('e, bool) hop" where
  "removeExact V et =
     (case et of
        None \<Rightarrow> op_return False
      | Some et \<Rightarrow>
          op_bind (doFindExact V et) (\<lambda>v.
          op_bind (slot v) (\<lambda>cur.
            if cur \<noteq> Some et then op_return False
            else op_bind (doDeleteElement V v) (\<lambda>_ st. (Inr True, notify (OnRemove et) st)))))"

definition releaseAll :: "'e SuperHashTable \<Rightarrow> 'e SuperHashTable" where
  "releaseAll st =
     (if tablecount st \<noteq> 0
      then st\<lparr>table := replicate (length (table st)) None,
              events := events st @ map OnRemove (List.map_filter id (table st)),
              tablecount := 0, cache := 0\<rparr>
      else st)"

definition kill :: "'e SuperHashTable \<Rightarrow> 'e SuperHashTable" where
  "kill st =
     (let st = releaseAll st in
      if tablesize st \<noteq> InitialTableSize
      then st\<lparr>tablesize := InitialTableSize, table := replicate (unat InitialTableSize) None\<rparr>
      else st)"

section \<open>Iterating\<close>

fun valid_loop :: "'e option list \<Rightarrow> nat \<Rightarrow> nat" where
  "valid_loop [] i = i"
| "valid_loop (None # tab) i = valid_loop tab (Suc i)"
| "valid_loop (Some et # tab) i = i"

definition validIdx :: "'e SuperHashTable \<Rightarrow> nat \<Rightarrow> nat" where
  "validIdx st i = valid_loop (drop i (table st)) i"

definition firstIdx :: "'e SuperHashTable \<Rightarrow> nat" where
  "firstIdx st = (if tablecount st = 0 then unat (tablesize st) else validIdx st 0)"

text \<open>The start \<^verbatim>\<open>(unsigned)-1\<close> of the loop is incremented to zero before it is used.\<close>

definition next_from :: "nat \<Rightarrow> ('e, 'e option) hop" where
  "next_from i st =
     (let i = validIdx st i in
      if length (table st) \<le> i then (Inr None, st) else (Inr (table st ! i), setCache i st))"

definition next_element :: "('e, 'p) vtable \<Rightarrow> 'e option \<Rightarrow> ('e, 'e option) hop" where
  "next_element V et =
     (case et of
        None \<Rightarrow> (\<lambda>st. if tablecount st = 0 then (Inr None, st) else next_from 0 st)
      | Some et \<Rightarrow>
          op_bind (doFindExact V et) (\<lambda>i.
          op_bind (slot i) (\<lambda>cur.
            if cur \<noteq> Some et then op_throw AssertFailed else next_from (Suc i))))"

text \<open>
  Class \<^verbatim>\<open>SuperHashIterator\<close>: its state is the element \<^verbatim>\<open>cur\<close>. \<open>iterate\<close> is the loop of its clients,
  \<^verbatim>\<open>for (iter.first(); iter.isValid(); iter.next())\<close>, from the element \<open>cur\<close> on, with the elements it
  visits.
\<close>

definition iter_first :: "('e, 'p) vtable \<Rightarrow> ('e, 'e option) hop" where
  "iter_first V = next_element V None"

definition iter_next :: "('e, 'p) vtable \<Rightarrow> 'e option \<Rightarrow> ('e, 'e option) hop" where
  "iter_next V cur = (case cur of None \<Rightarrow> op_return None | Some et \<Rightarrow> next_element V (Some et))"

fun iterate :: "('e, 'p) vtable \<Rightarrow> nat \<Rightarrow> 'e option \<Rightarrow> ('e, 'e list) hop" where
  "iterate V 0 cur = op_throw NoReturn"
| "iterate V (Suc fuel) cur =
     (case cur of
        None \<Rightarrow> op_return []
      | Some et \<Rightarrow> op_bind (iter_next V cur) (\<lambda>cur. op_bind (iterate V fuel cur) (\<lambda>ets. op_return (et # ets))))"

definition iterate_all :: "('e, 'p) vtable \<Rightarrow> ('e, 'e list) hop" where
  "iterate_all V st = op_bind (iter_first V) (iterate V (Suc (unat (tablecount st)))) st"

end
