(* ===== verification/Jsuperhash_Probe.thy ===== *)
theory Jsuperhash_Probe
  imports Jsuperhash "HOL-Library.Multiset"
begin

text \<open>
  Linear probing in a circular table: the loops of \<open>Jsuperhash\<close> on lists, the invariant that makes a
  search stop at the right slot, and that storing into the slot a search found and closing a gap
  keep it.
\<close>

section \<open>Positions on the circle\<close>

definition pos :: "nat \<Rightarrow> nat \<Rightarrow> nat \<Rightarrow> nat" where
  "pos n i d = (i + d) mod n"

definition dist :: "nat \<Rightarrow> nat \<Rightarrow> nat \<Rightarrow> nat" where
  "dist n i j = (j + n - i) mod n"

lemma dist_cases: "i < n \<Longrightarrow> j < n \<Longrightarrow> dist n i j = (if i \<le> j then j - i else j + n - i)"
  by (auto simp: dist_def mod_if)

lemma pos_cases: "i < n \<Longrightarrow> d \<le> n \<Longrightarrow> pos n i d = (if i + d < n then i + d else i + d - n)"
  by (auto simp: pos_def mod_if)

lemma dist_less: "i < n \<Longrightarrow> dist n i j < n"
  by (simp add: dist_def)

lemma pos_less: "i < n \<Longrightarrow> pos n i d < n"
  by (simp add: pos_def)

lemma pos_dist: "i < n \<Longrightarrow> j < n \<Longrightarrow> pos n i (dist n i j) = j"
  using pos_cases [of i n "dist n i j"] dist_less [of i n j] by (auto simp: dist_cases)

lemma dist_pos: "i < n \<Longrightarrow> d < n \<Longrightarrow> dist n i (pos n i d) = d"
  using dist_cases [of i n "pos n i d"] by (auto simp: pos_cases pos_less)

lemma pos_0 [simp]: "i < n \<Longrightarrow> pos n i 0 = i"
  by (simp add: pos_def)

lemma pos_eq_iff: "i < n \<Longrightarrow> d < n \<Longrightarrow> e < n \<Longrightarrow> pos n i d = pos n i e \<longleftrightarrow> d = e"
  by (metis dist_pos)

lemma pos_start: "i < n \<Longrightarrow> d < n \<Longrightarrow> pos n i d = i \<longleftrightarrow> d = 0"
  by (auto simp: pos_cases)

lemma dist_self: "i < n \<Longrightarrow> dist n i i = 0"
  by (simp add: dist_cases)

lemma dist_zero_iff: "i < n \<Longrightarrow> j < n \<Longrightarrow> dist n i j = 0 \<longleftrightarrow> i = j"
  by (auto simp: dist_cases)

lemma step_pos: "i < n \<Longrightarrow> d < n \<Longrightarrow> step_index n (pos n i d) = pos n i (Suc d)"
  by (auto simp: pos_cases step_index_def)

lemma step_less: "i < n \<Longrightarrow> step_index n i < n"
  by (simp add: step_index_def)

lemma dist_step: "i < n \<Longrightarrow> j < n \<Longrightarrow> j \<noteq> i \<Longrightarrow> dist n (step_index n i) j = dist n i j - 1"
  by (auto simp: dist_cases step_index_def)

lemma dist_step_end: "i < n \<Longrightarrow> j < n \<Longrightarrow> step_index n j \<noteq> i \<Longrightarrow> dist n i (step_index n j) = Suc (dist n i j)"
  by (auto simp: dist_cases step_index_def)

section \<open>Searching\<close>

definition halts :: "('e \<Rightarrow> bool) \<Rightarrow> 'e option \<Rightarrow> bool" where
  "halts p x = (case x of None \<Rightarrow> True | Some e \<Rightarrow> p e)"

lemma halts_simps [simp]: "halts p None" "halts p (Some e) = p e"
  by (simp_all add: halts_def)

text \<open>The distance of the first slot at which a search from \<open>vs\<close> stops.\<close>

definition first_halt :: "('e \<Rightarrow> bool) \<Rightarrow> 'e option list \<Rightarrow> nat \<Rightarrow> nat \<Rightarrow> bool" where
  "first_halt p tab vs d \<longleftrightarrow> d < length tab \<and> halts p (tab ! pos (length tab) vs d) \<and>
     (\<forall>j<d. \<not> halts p (tab ! pos (length tab) vs j))"

lemma first_halt_ex:
  assumes "vs < length tab" "i < length tab" "halts p (tab ! i)"
  shows "\<exists>d \<le> dist (length tab) vs i. first_halt p tab vs d"
proof -
  define P where "P d = halts p (tab ! pos (length tab) vs d)" for d
  define m where "m = (LEAST d. P d)"
  have P: "P (dist (length tab) vs i)" using assms by (simp add: pos_dist P_def)
  then have "m \<le> dist (length tab) vs i" unfolding m_def by (rule Least_le)
  moreover have "P m" unfolding m_def using P by (rule LeastI)
  moreover have "\<forall>j<m. \<not> P j" unfolding m_def using not_less_Least by blast
  moreover have "m < length tab" using calculation(1) dist_less [OF assms(1), of i] by simp
  ultimately show ?thesis unfolding first_halt_def P_def by blast
qed

lemma probe_loop_run:
  assumes "first_halt p tab vs d0" "vs < length tab"
  shows "d \<le> d0 \<Longrightarrow> d0 - d < fuel \<Longrightarrow>
    probe_loop (\<lambda>et. Inr (p et)) tab (length tab) vs fuel (pos (length tab) vs d) = Inr (pos (length tab) vs d0)"
proof (induction fuel arbitrary: d)
  case (Suc fuel)
  let ?n = "length tab"
  have d0: "d0 < ?n" using assms(1) by (simp add: first_halt_def)
  have r: "\<not> ?n \<le> pos ?n vs d" using pos_less [OF assms(2)] by (simp add: not_le)
  show ?case
  proof (cases "d = d0")
    case True
    then have "halts p (tab ! pos ?n vs d)" using assms(1) by (simp add: first_halt_def)
    then show ?thesis using r True by (auto simp: halts_def split: option.splits)
  next
    case False
    then have "\<not> halts p (tab ! pos ?n vs d)" using assms(1) Suc.prems by (simp add: first_halt_def)
    then obtain et where et: "tab ! pos ?n vs d = Some et" "\<not> p et" by (auto simp: halts_def split: option.splits)
    have s: "step_index ?n (pos ?n vs d) = pos ?n vs (Suc d)" using Suc.prems d0 by (intro step_pos assms(2)) simp
    have "pos ?n vs (Suc d) \<noteq> vs" using pos_start [OF assms(2), of "Suc d"] Suc.prems False d0 by simp
    then show ?thesis using r et s Suc.IH [of "Suc d"] Suc.prems False by (simp add: Let_def)
  qed
qed simp

lemma free_loop_run:
  assumes "first_halt (\<lambda>_. False) tab vs d0" "vs < length tab"
  shows "d \<le> d0 \<Longrightarrow> d0 - d < fuel \<Longrightarrow>
    free_loop tab (length tab) fuel (pos (length tab) vs d) = Inr (pos (length tab) vs d0)"
proof (induction fuel arbitrary: d)
  case (Suc fuel)
  let ?n = "length tab"
  have d0: "d0 < ?n" using assms(1) by (simp add: first_halt_def)
  have r: "\<not> ?n \<le> pos ?n vs d" using pos_less [OF assms(2)] by (simp add: not_le)
  show ?case
  proof (cases "d = d0")
    case True
    then have "halts (\<lambda>_. False) (tab ! pos ?n vs d)" using assms(1) by (simp add: first_halt_def)
    then show ?thesis using r True by (auto simp: halts_def split: option.splits)
  next
    case False
    then have "\<not> halts (\<lambda>_. False) (tab ! pos ?n vs d)" using assms(1) Suc.prems by (simp add: first_halt_def)
    then obtain et where et: "tab ! pos ?n vs d = Some et" by (auto simp: halts_def split: option.splits)
    have s: "step_index ?n (pos ?n vs d) = pos ?n vs (Suc d)" using Suc.prems d0 by (intro step_pos assms(2)) simp
    then show ?thesis using r et Suc.IH [of "Suc d"] Suc.prems False by simp
  qed
qed simp

lemma probe_loop_start:
  assumes "first_halt p tab vs d" "vs < length tab"
  shows "probe_loop (\<lambda>et. Inr (p et)) tab (length tab) vs (Suc (length tab)) vs = Inr (pos (length tab) vs d)"
  using probe_loop_run [OF assms, of 0 "Suc (length tab)"] assms by (simp add: first_halt_def)

lemma free_loop_start:
  assumes "first_halt (\<lambda>_. False) tab vs d" "vs < length tab"
  shows "free_loop tab (length tab) (Suc (length tab)) vs = Inr (pos (length tab) vs d)"
  using free_loop_run [OF assms, of 0 "Suc (length tab)"] assms by (simp add: first_halt_def)

section \<open>The invariant of the probe sequences\<close>

text \<open>No gap between the home slot of an element and the element.\<close>

definition probe_ok :: "('e \<Rightarrow> nat) \<Rightarrow> 'e option list \<Rightarrow> bool" where
  "probe_ok home tab \<longleftrightarrow> (\<forall>i<length tab. \<forall>e. tab ! i = Some e \<longrightarrow>
     (\<forall>d<dist (length tab) (home e) i. tab ! pos (length tab) (home e) d \<noteq> None))"

lemma probe_okD:
  "probe_ok home tab \<Longrightarrow> i < length tab \<Longrightarrow> tab ! i = Some e \<Longrightarrow> d < dist (length tab) (home e) i \<Longrightarrow>
    tab ! pos (length tab) (home e) d \<noteq> None"
  by (simp add: probe_ok_def)

text \<open>A search for an element that is there ends at its slot.\<close>

lemma first_halt_found:
  assumes "probe_ok home tab" "i < length tab" "tab ! i = Some e" "p e" "home e < length tab"
    and "\<And>j e'. j < length tab \<Longrightarrow> tab ! j = Some e' \<Longrightarrow> p e' \<Longrightarrow> j = i"
  shows "first_halt p tab (home e) (dist (length tab) (home e) i)"
proof -
  let ?n = "length tab"
  have "\<not> halts p (tab ! pos ?n (home e) j)" if j: "j < dist ?n (home e) i" for j
  proof -
    obtain e' where e': "tab ! pos ?n (home e) j = Some e'" using probe_okD [OF assms(1-3) j] by blast
    have "pos ?n (home e) j < ?n" "pos ?n (home e) j \<noteq> i"
      using j assms(2,5) pos_eq_iff [OF assms(5), of j "dist ?n (home e) i"] dist_less [OF assms(5), of i]
      by (auto simp: pos_dist pos_less)
    then show ?thesis using assms(6) [OF _ e'] e' by auto
  qed
  then show ?thesis using assms(2-5) by (simp add: first_halt_def pos_dist dist_less)
qed

text \<open>Storing an element at the empty slot where its search ended.\<close>

lemma probe_ok_store:
  assumes "probe_ok home tab" "first_halt p tab (home e) d" "r = pos (length tab) (home e) d"
    "tab ! r = None" "home e < length tab"
  shows "probe_ok home (tab[r := Some e])"
  unfolding probe_ok_def length_list_update
proof (intro allI impI)
  let ?n = "length tab"
  fix i x k assume a: "i < ?n" "tab[r := Some e] ! i = Some x" "k < dist ?n (home x) i"
  have d: "d < ?n" "\<forall>j<d. tab ! pos ?n (home e) j \<noteq> None" using assms(2) by (auto simp: first_halt_def halts_def split: option.splits)
  have "tab ! pos ?n (home x) k \<noteq> None"
  proof (cases "i = r")
    case True
    then have "x = e" using a(1,2) by simp
    then show ?thesis using a(3) d True assms(3,5) by (simp add: dist_pos)
  next
    case False
    then show ?thesis using a probe_okD [OF assms(1) a(1)] by simp
  qed
  then show "tab[r := Some e] ! pos ?n (home x) k \<noteq> None" by (metis length_list_update nth_list_update_eq nth_list_update_neq list_update_beyond linorder_not_less option.distinct(1))
qed

section \<open>Closing a gap\<close>

lemma dist_via:
  assumes "a < n" "b < n" "c < n" "dist n a b < dist n a c"
  shows "dist n a c = dist n a b + dist n b c"
  using assms by (auto simp: dist_cases split: if_splits)

lemma on_path_iff:
  assumes "a < n" "b < n" "c < n" "b \<noteq> c"
  shows "dist n b c \<le> dist n a c \<longleftrightarrow> dist n a b < dist n a c"
  using assms by (simp add: dist_cases split: if_splits) linarith

text \<open>
  The state of the loop: a gap at \<open>v\<close> which may cut elements off from their home slots, but only
  elements beyond \<open>vn\<close>.
\<close>

definition gap_ok :: "('e \<Rightarrow> nat) \<Rightarrow> 'e option list \<Rightarrow> nat \<Rightarrow> nat \<Rightarrow> bool" where
  "gap_ok home tab v vn \<longleftrightarrow> (let n = length tab in v < n \<and> vn < n \<and> tab ! v = None \<and>
     (\<forall>i<n. \<forall>e. tab ! i = Some e \<longrightarrow>
        (\<forall>d<dist n (home e) i. pos n (home e) d \<noteq> v \<longrightarrow> tab ! pos n (home e) d \<noteq> None) \<and>
        (dist n v i \<le> dist n v vn \<longrightarrow> \<not> dist n (home e) v < dist n (home e) i)))"

lemma gap_okD:
  assumes "gap_ok home tab v vn" "i < length tab" "tab ! i = Some e"
  shows "d < dist (length tab) (home e) i \<Longrightarrow> pos (length tab) (home e) d \<noteq> v \<Longrightarrow> tab ! pos (length tab) (home e) d \<noteq> None"
    and "dist (length tab) v i \<le> dist (length tab) v vn \<Longrightarrow> \<not> dist (length tab) (home e) v < dist (length tab) (home e) i"
  using assms by (auto simp: gap_ok_def Let_def)

lemma gap_okI:
  assumes "v < length tab" "vn < length tab" "tab ! v = None"
    and "\<And>i e d. i < length tab \<Longrightarrow> tab ! i = Some e \<Longrightarrow> d < dist (length tab) (home e) i \<Longrightarrow>
      pos (length tab) (home e) d \<noteq> v \<Longrightarrow> tab ! pos (length tab) (home e) d \<noteq> None"
    and "\<And>i e. i < length tab \<Longrightarrow> tab ! i = Some e \<Longrightarrow> dist (length tab) v i \<le> dist (length tab) v vn \<Longrightarrow>
      \<not> dist (length tab) (home e) v < dist (length tab) (home e) i"
  shows "gap_ok home tab v vn"
  using assms by (simp add: gap_ok_def Let_def)

lemma update_neq: "xs[k := None] ! i = Some e \<Longrightarrow> i < length xs \<Longrightarrow> i \<noteq> k \<and> xs ! i = Some e"
  by (cases "i = k") auto

lemma gap_start:
  assumes "probe_ok home tab" "v < length tab"
  shows "gap_ok home (tab[v := None]) v v"
proof (rule gap_okI, unfold length_list_update)
  let ?n = "length tab" and ?t = "tab[v := None]"
  show "?t ! pos ?n (home e) d \<noteq> None"
    if "i < ?n" "?t ! i = Some e" "d < dist ?n (home e) i" "pos ?n (home e) d \<noteq> v" for i e d
    using update_neq [OF that(2,1)] that(4) probe_okD [OF assms(1) that(1) _ that(3)] by simp
  show "\<not> dist ?n (home e) v < dist ?n (home e) i"
    if "i < ?n" "?t ! i = Some e" "dist ?n v i \<le> dist ?n v v" for i e
    using update_neq [OF that(2,1)] that(1,3) assms(2) by (simp add: dist_self dist_zero_iff)
qed (use assms(2) in auto)

lemma gap_stop:
  assumes gap: "gap_ok home tab v vn" and home: "\<And>e. home e < length tab"
    and vn: "dist (length tab) v vn' = Suc (dist (length tab) v vn)" "vn' < length tab" "tab ! vn' = None"
  shows "probe_ok home tab"
  unfolding probe_ok_def
proof (intro allI impI)
  let ?n = "length tab"
  fix i e d assume a: "i < ?n" "tab ! i = Some e" "d < dist ?n (home e) i"
  have v: "v < ?n" using gap by (simp add: gap_ok_def Let_def)
  show "tab ! pos ?n (home e) d \<noteq> None"
  proof (cases "pos ?n (home e) d = v")
    case True
    then have d: "dist ?n (home e) v = d" using dist_pos [OF home, of d e] a(3) dist_less [OF home [of e], of i] by simp
    have i: "i \<noteq> vn'" using a(2) vn(3) by auto
    have "dist ?n v vn < dist ?n v i" using gap_okD(2) [OF gap a(1,2)] d a(3) by linarith
    moreover have "dist ?n v i \<noteq> dist ?n v vn'" using i pos_dist [OF v] a(1) vn(2) by metis
    ultimately have lt: "dist ?n v vn' < dist ?n v i" using vn(1) by simp
    have "dist ?n (home e) i = d + dist ?n v i" using dist_via [OF home v a(1), of e] d a(3) by simp
    then have k: "d + dist ?n v vn' < dist ?n (home e) i" using lt by simp
    have "pos ?n (home e) (d + dist ?n v vn') = pos ?n v (dist ?n v vn')"
      using True by (simp add: pos_def mod_add_left_eq flip: add.assoc) (metis True mod_add_left_eq pos_def)
    then have "pos ?n (home e) (d + dist ?n v vn') = vn'" using pos_dist [OF v vn(2)] by simp
    moreover have "vn' \<noteq> v" using vn(1) dist_self [OF v] by auto
    ultimately show ?thesis using gap_okD(1) [OF gap a(1,2) k] vn(3) by simp
  next
    case False
    then show ?thesis using gap_okD(1) [OF gap a] by simp
  qed
qed

lemma gap_move:
  assumes gap: "gap_ok home tab v vn" and home: "\<And>e. home e < length tab"
    and vn: "vn' < length tab" "tab ! vn' = Some x" "dist (length tab) (home x) v < dist (length tab) (home x) vn'"
  shows "gap_ok home (tab[v := Some x, vn' := None]) vn' vn'"
proof (rule gap_okI, unfold length_list_update)
  let ?n = "length tab" and ?t = "tab[v := Some x, vn' := None]"
  have v: "v < ?n" "tab ! v = None" using gap by (auto simp: gap_ok_def Let_def)
  have ne: "v \<noteq> vn'" using v(2) vn(2) by auto
  show "?t ! pos ?n (home e) d \<noteq> None"
    if a: "i < ?n" "?t ! i = Some e" "d < dist ?n (home e) i" "pos ?n (home e) d \<noteq> vn'" for i e d
  proof (cases "pos ?n (home e) d = v")
    case False
    have i: "i \<noteq> vn'" "tab[v := Some x] ! i = Some e" using update_neq [OF a(2)] a(1) by auto
    have "\<exists>j<?n. tab ! j = Some e \<and> d < dist ?n (home e) j"
    proof (cases "i = v")
      case True
      then have "e = x" using a(1) i(2) by simp
      then show ?thesis using True a(3) vn by (intro exI [of _ vn']) simp
    qed (use a(1,3) i(2) in auto)
    then show ?thesis using gap_okD(1) [OF gap] False a(4) by auto
  qed (use ne v in simp)
  show "\<not> dist ?n (home e) vn' < dist ?n (home e) i"
    if "i < ?n" "?t ! i = Some e" "dist ?n vn' i \<le> dist ?n vn' vn'" for i e
    using update_neq [OF that(2)] that(1,3) vn(1) by (simp add: dist_self dist_zero_iff)
qed (use vn(1) in auto)

lemma gap_keep:
  assumes gap: "gap_ok home tab v vn"
    and vn: "dist (length tab) v vn' = Suc (dist (length tab) v vn)" "vn' < length tab" "tab ! vn' = Some x"
      "\<not> dist (length tab) (home x) v < dist (length tab) (home x) vn'"
  shows "gap_ok home tab v vn'"
proof -
  let ?n = "length tab"
  have v: "v < ?n" using gap by (simp add: gap_ok_def Let_def)
  have "\<not> dist ?n (home e) v < dist ?n (home e) i"
    if a: "i < ?n" "tab ! i = Some e" "dist ?n v i \<le> dist ?n v vn'" for i e
  proof (cases "i = vn'")
    case True
    then show ?thesis using a(2) vn(3,4) by simp
  next
    case False
    then have "dist ?n v i \<noteq> dist ?n v vn'" using pos_dist [OF v] a(1) vn(2) by metis
    then show ?thesis using gap_okD(2) [OF gap a(1,2)] a(3) vn(1) by simp
  qed
  then show ?thesis using gap vn(2) by (simp add: gap_ok_def Let_def)
qed

section \<open>Sizes and hashes as words\<close>

definition size_ok :: "32 word \<Rightarrow> bool" where
  "size_ok n \<longleftrightarrow> (\<exists>k<32. n = 2 ^ k)"

definition home_of :: "('e, 'p) vtable \<Rightarrow> 32 word \<Rightarrow> 'e \<Rightarrow> nat" where
  "home_of V ts e = unat (getHashFromElement V e AND (ts - 1))"

lemma unat_pow2: "k < 32 \<Longrightarrow> unat (2 ^ k :: 32 word) = 2 ^ k"
proof -
  assume k: "k < 32"
  have "unat (2 ^ k :: 32 word) = unat (of_nat (2 ^ k) :: 32 word)" by simp
  also have "\<dots> = 2 ^ k" using k power_strict_increasing [of k 32 "2 :: nat"] by (simp only: unat_of_nat) simp
  finally show ?thesis .
qed

lemma size_okD:
  assumes "size_ok n"
  obtains k where "k < 32" "n = 2 ^ k" "unat n = 2 ^ k" "0 < unat n"
  using assms unat_pow2 by (auto simp: size_ok_def)

lemma unat_and_size:
  assumes "size_ok ts"
  shows "unat (h AND (ts - 1)) = unat h mod unat ts"
proof -
  obtain k where k: "k < 32" "ts = 2 ^ k" "unat ts = 2 ^ k" using size_okD [OF assms] .
  have "h AND (ts - 1) = take_bit k h" unfolding k(2) by (simp add: take_bit_eq_mask mask_eq_exp_minus_1)
  then have "unat (h AND (ts - 1)) = take_bit k (unat h)" by (simp only: unsigned_take_bit_eq)
  then show ?thesis unfolding k(3) by (simp only: take_bit_eq_mod)
qed

lemma home_of_less: "size_ok ts \<Longrightarrow> home_of V ts e < unat ts"
  by (auto simp: home_of_def unat_and_size elim!: size_okD)

lemma unat_dist:
  assumes "size_ok ts" "v < unat ts" "vn < unat ts"
  shows "unat ((of_nat vn + ts - of_nat v) AND (ts - 1)) = dist (unat ts) v vn"
proof -
  obtain k where k: "k < 32" "ts = 2 ^ k" "unat ts = 2 ^ k" using size_okD [OF assms(1)] .
  have "ts = of_nat (unat ts)" by simp
  then have "of_nat vn + ts - of_nat v = (of_nat (vn + unat ts - v) :: 32 word)"
    using assms(2) by (simp add: of_nat_diff)
  then have "unat (of_nat vn + ts - of_nat v) = (vn + unat ts - v) mod 2 ^ 32" by (simp add: unat_of_nat)
  moreover have "(2 ^ k :: nat) dvd 2 ^ 32" using k(1) by (intro le_imp_power_dvd) simp
  ultimately have "unat (of_nat vn + ts - of_nat v) mod unat ts = (vn + unat ts - v) mod unat ts"
    unfolding k(3) by (simp add: mod_mod_cancel)
  then show ?thesis by (simp add: unat_and_size [OF assms(1)] dist_def)
qed

text \<open>The loop with its word arithmetic: it ends at the first empty slot \<open>z\<close> at the latest.\<close>

lemma delete_loop_spec:
  assumes "size_ok hs" "length tab = unat hs" "gap_ok (home_of V hs) tab v vn"
    "z < length tab" "tab ! z = None" "dist (length tab) v vn < dist (length tab) v z" "dist (length tab) vn z < fuel"
  shows "\<exists>tab'. delete_loop V hs fuel tab v vn = Inr tab' \<and> probe_ok (home_of V hs) tab' \<and> mset tab' = mset tab"
  using assms
proof (induction fuel arbitrary: tab v vn)
  case (Suc fuel)
  let ?n = "length tab" and ?vn = "step_index (unat hs) vn" and ?home = "home_of V hs"
  note gap = Suc.prems(3)
  have v: "v < ?n" "vn < ?n" "tab ! v = None" using gap by (auto simp: gap_ok_def Let_def)
  have home: "?home e < ?n" for e using home_of_less [OF Suc.prems(1)] Suc.prems(2) by simp
  have vn': "?vn < ?n" using step_less [OF v(2)] Suc.prems(2) by simp
  have zvn: "z \<noteq> vn" using Suc.prems(6) by auto
  have ne: "?vn \<noteq> v"
  proof
    assume "?vn = v"
    then have "dist ?n v vn = ?n - 1" using v Suc.prems(2) by (auto simp: step_index_def dist_cases split: if_splits)
    then show False using Suc.prems(6) dist_less [OF v(1), of z] by simp
  qed
  have dvn: "dist ?n v ?vn = Suc (dist ?n v vn)" using dist_step_end [OF v(1,2)] ne Suc.prems(2) by simp
  have dz: "dist ?n ?vn z < fuel"
    using dist_step [OF v(2) Suc.prems(4) zvn] Suc.prems(2,7) dist_zero_iff [OF v(2) Suc.prems(4)] zvn by simp
  show ?case
  proof (cases "tab ! ?vn")
    case None
    then have "delete_loop V hs (Suc fuel) tab v vn = Inr tab" using vn' by (simp add: Let_def not_le)
    then show ?thesis using gap_stop [OF gap home dvn vn' None] by simp
  next
    case (Some x)
    have w: "(of_nat ?vn + hs - of_nat v) AND (hs - 1) \<le> (of_nat ?vn + hs - (getHashFromElement V x AND (hs - 1))) AND (hs - 1) \<longleftrightarrow>
        dist ?n v ?vn \<le> dist ?n (?home x) ?vn"
      using unat_dist [OF Suc.prems(1), of v ?vn] unat_dist [OF Suc.prems(1), of "?home x" ?vn] v(1) vn' home [of x] Suc.prems(2)
      by (simp add: word_le_nat_alt home_of_def)
    have zvn': "z \<noteq> ?vn" using Some Suc.prems(5) by auto
    show ?thesis
    proof (cases "dist ?n (?home x) v < dist ?n (?home x) ?vn")
      case True
      let ?t = "tab[v := Some x, ?vn := None]"
      have e: "delete_loop V hs (Suc fuel) tab v vn = delete_loop V hs fuel ?t ?vn ?vn"
        using Some vn' w on_path_iff [OF home v(1) vn', of x] ne True by (simp add: Let_def not_le)
      have m: "mset ?t = mset tab" using mset_swap [OF vn' v(1)] Some v(3) by (simp add: list_update_swap)
      have z: "?t ! z = None" using Suc.prems(4,5,6) zvn' v by (metis dist_self nat_neq_iff not_less0 nth_list_update_neq)
      have "dist ?n ?vn ?vn < dist ?n ?vn z" using dist_self [OF vn'] dist_zero_iff [OF vn' Suc.prems(4)] zvn' by simp
      then show ?thesis using Suc.IH [of ?t ?vn ?vn] gap_move [OF gap home vn' Some True] Suc.prems(1,2,4) z dz e m by simp
    next
      case False
      then have "\<not> dist ?n v ?vn \<le> dist ?n (?home x) ?vn" using on_path_iff [OF home v(1) vn', of x] ne by simp
      then have e: "delete_loop V hs (Suc fuel) tab v vn = delete_loop V hs fuel tab v ?vn"
        unfolding w [symmetric] using Some vn' by (simp add: Let_def)
      have "dist ?n v ?vn \<noteq> dist ?n v z" using zvn' pos_dist [OF v(1)] vn' Suc.prems(4) by metis
      then have "dist ?n v ?vn < dist ?n v z" using dvn Suc.prems(6) by simp
      then show ?thesis using Suc.IH [of tab v ?vn] gap_keep [OF gap dvn vn' Some False] Suc.prems(1,2,4,5) dz e by simp
    qed
  qed
qed simp

end
