(* ===== verification/Jsuperhash_Table.thy ===== *)
theory Jsuperhash_Table
  imports Jsuperhash_Probe
begin

text \<open>
  The hash table as a finite map from keys to elements: its invariant, the contract of the virtual
  methods (the locale \<open>hashed\<close>), and what every operation of \<open>Jsuperhash\<close> does to the map.
\<close>

section \<open>The elements of a table\<close>

definition elems :: "'e option list \<Rightarrow> 'e list" where
  "elems tab = List.map_filter id tab"

lemma elems_simps [simp]:
  "elems [] = []" "elems (None # tab) = elems tab" "elems (Some e # tab) = e # elems tab"
  "elems (replicate n None) = []" "elems (tab @ tab') = elems tab @ elems tab'"
  by (simp_all add: elems_def map_filter_simps map_filter_def) 

lemma set_elems: "set (elems tab) = {e. Some e \<in> set tab}"
  by (force simp: elems_def map_filter_def)

lemma mset_elems: "mset (elems tab) = image_mset the (filter_mset (\<lambda>x. x \<noteq> None) (mset tab))"
  by (simp add: elems_def map_filter_def)

lemma elems_nth: "i < length tab \<Longrightarrow> tab ! i = Some e \<Longrightarrow> e \<in> set (elems tab)"
  by (metis set_elems mem_Collect_eq nth_mem)

lemma elems_ex_nth: "e \<in> set (elems tab) \<Longrightarrow> \<exists>i<length tab. tab ! i = Some e"
  by (simp add: set_elems in_set_conv_nth)

lemma length_elems: "length (elems tab) + length (filter (\<lambda>x. x = None) tab) = length tab"
  by (induction tab) (auto simp: elems_def map_filter_simps split: option.splits)

lemma empty_slot: "length (elems tab) < length tab \<Longrightarrow> \<exists>z<length tab. tab ! z = None"
proof (rule ccontr)
  assume a: "length (elems tab) < length tab" "\<not> (\<exists>z<length tab. tab ! z = None)"
  then have "filter (\<lambda>x. x = None) tab = []" by (auto simp: filter_empty_conv in_set_conv_nth)
  then show False using a(1) length_elems [of tab] by simp
qed

lemma elems_store:
  assumes "r < length tab" "tab ! r = None"
  shows "mset (elems (tab[r := Some e])) = add_mset e (mset (elems tab))"
  using assms by (simp add: mset_elems mset_update)

lemma elems_clear:
  assumes "r < length tab" "tab ! r = Some e"
  shows "mset (elems (tab[r := None])) = mset (elems tab) - {#e#}"
proof -
  have "Some e \<in># mset tab" using assms by (metis nth_mem set_mset_mset)
  then show ?thesis using assms by (simp add: mset_elems mset_update image_mset_Diff)
qed

lemma elems_cong: "mset tab = mset tab' \<Longrightarrow> mset (elems tab) = mset (elems tab')"
  by (simp add: mset_elems)

lemma mset_length: "mset xs = mset ys \<Longrightarrow> length xs = length ys"
  by (metis size_mset)

lemma elems_unique:
  assumes "distinct (map key (elems tab))" "i < length tab" "j < length tab" "tab ! i = Some a" "tab ! j = Some b" "key a = key b"
  shows "i = j"
  using assms
proof (induction tab arbitrary: i j)
  case (Cons x tab)
  show ?case
  proof (cases i; cases j)
    fix i' j' assume "i = Suc i'" "j = Suc j'"
    then show ?thesis using Cons by (cases x) auto
  next
    fix j' assume j: "i = 0" "j = Suc j'"
    then have "b \<in> set (elems tab)" using Cons.prems by (auto intro: elems_nth)
    then show ?thesis using Cons.prems j by (auto simp: rev_image_eqI)
  next
    fix i' assume i: "i = Suc i'" "j = 0"
    then have "a \<in> set (elems tab)" using Cons.prems by (auto intro: elems_nth)
    then show ?thesis using Cons.prems i by (auto simp: rev_image_eqI)
  qed simp
qed simp

section \<open>The invariant and the map\<close>

definition tab_ok :: "('e, 'p) vtable \<Rightarrow> ('e \<Rightarrow> 'k) \<Rightarrow> 'e option list \<Rightarrow> 32 word \<Rightarrow> bool" where
  "tab_ok V key tab ts \<longleftrightarrow> size_ok ts \<and> length tab = unat ts \<and> length (elems tab) < length tab \<and>
     probe_ok (home_of V ts) tab \<and> distinct (map key (elems tab))"

definition table_ok :: "('e, 'p) vtable \<Rightarrow> ('e \<Rightarrow> 'k) \<Rightarrow> 'e SuperHashTable \<Rightarrow> bool" where
  "table_ok V key st \<longleftrightarrow> tab_ok V key (table st) (tablesize st) \<and> unat (tablecount st) = length (elems (table st))"

definition lookup :: "('e \<Rightarrow> 'k) \<Rightarrow> 'e SuperHashTable \<Rightarrow> 'k \<Rightarrow> 'e option" where
  "lookup key st = map_of (map (\<lambda>e. (key e, e)) (elems (table st)))"

lemma lookup_frame [simp]:
  "lookup key (st\<lparr>cache := c\<rparr>) = lookup key st" "lookup key (st\<lparr>events := ev\<rparr>) = lookup key st"
  "lookup key (st\<lparr>tablecount := n\<rparr>) = lookup key st" "lookup key (st\<lparr>tablesize := ts\<rparr>) = lookup key st"
  "lookup key (setCache v st) = lookup key st" "lookup key (notify e st) = lookup key st"
  by (simp_all add: lookup_def setCache_def notify_def)

lemma table_ok_frame [simp]:
  "table_ok V key (st\<lparr>cache := c\<rparr>) = table_ok V key st" "table_ok V key (st\<lparr>events := ev\<rparr>) = table_ok V key st"
  "table_ok V key (setCache v st) = table_ok V key st" "table_ok V key (notify e st) = table_ok V key st"
  by (simp_all add: table_ok_def setCache_def notify_def)

lemma fields_frame [simp]:
  "table (setCache v st) = table st" "tablesize (setCache v st) = tablesize st"
  "tablecount (setCache v st) = tablecount st" "events (setCache v st) = events st"
  "table (notify e st) = table st" "tablesize (notify e st) = tablesize st"
  "tablecount (notify e st) = tablecount st" "events (notify e st) = events st @ [e]"
  by (simp_all add: setCache_def notify_def)

lemma lookup_iff:
  "distinct (map key (elems (table st))) \<Longrightarrow> lookup key st k = Some e \<longleftrightarrow> e \<in> set (elems (table st)) \<and> key e = k"
  unfolding lookup_def by (subst map_of_eq_Some_iff) (auto simp: comp_def)

lemma lookup_None_iff: "lookup key st k = None \<longleftrightarrow> k \<notin> key ` set (elems (table st))"
  by (force simp: lookup_def map_of_eq_None_iff)

lemma lookup_cong:
  assumes "mset (elems (table st)) = mset (elems (table st'))" "distinct (map key (elems (table st)))"
  shows "lookup key st = lookup key st'"
proof -
  have s: "set (elems (table st)) = set (elems (table st'))" using assms(1) by (metis set_mset_mset)
  have d: "distinct (map key (elems (table st')))" using assms by (metis mset_map mset_eq_imp_distinct_iff)
  show ?thesis using lookup_iff [OF assms(2)] lookup_iff [OF d] s by (metis not_None_eq ext)
qed

lemma lookup_insert:
  assumes "mset (elems (table st')) = add_mset e (mset (elems (table st)))" "distinct (map key (elems (table st')))"
  shows "lookup key st' = (lookup key st)(key e \<mapsto> e)"
proof -
  have "distinct (map key (e # elems (table st)))" using assms by (metis mset.simps(2) mset_map mset_eq_imp_distinct_iff)
  then have "lookup key st' = map_of (map (\<lambda>e. (key e, e)) (e # elems (table st)))"
    using lookup_cong [of st' "st\<lparr>table := map Some (e # elems (table st))\<rparr>" key] assms
    by (simp add: lookup_def elems_def map_filter_def comp_def)
  then show ?thesis by (simp add: lookup_def)
qed

lemma lookup_delete:
  assumes "mset (elems (table st')) = mset (elems (table st)) - {#e#}" "e \<in> set (elems (table st))"
    "distinct (map key (elems (table st)))"
  shows "lookup key st' = (lookup key st)(key e := None)" "distinct (map key (elems (table st')))"
proof -
  have m: "mset (elems (table st)) = add_mset e (mset (elems (table st')))" using assms(1,2) by simp
  then have d: "distinct (map key (e # elems (table st')))" using assms(3) by (metis mset.simps(2) mset_map mset_eq_imp_distinct_iff)
  then show "distinct (map key (elems (table st')))" by simp
  have "lookup key st' (key e) = None" using d by (simp add: lookup_None_iff image_iff) 
  then show "lookup key st' = (lookup key st)(key e := None)" using lookup_insert [OF m assms(3)] by auto
qed

end
