(* ===== verification/Jsuperhash_Map.thy ===== *)
theory Jsuperhash_Map
  imports Jsuperhash_Table
begin

text \<open>
  The operations of the hash table on the map it holds, under the contract of its virtual methods:
  a find parameter matches the elements with its key, elements and parameters with the same key
  have the same hash, and the table limit leaves a slot empty.
\<close>

declare probe_loop.simps [simp del] free_loop.simps [simp del] delete_loop.simps [simp del]

section \<open>Steps of the operations\<close>

lemma search_spec:
  assumes "tab_ok V key (table st) (tablesize st)"
    and q: "\<And>a b. a \<in> set (elems (table st)) \<Longrightarrow> b \<in> set (elems (table st)) \<Longrightarrow> q a \<Longrightarrow> q b \<Longrightarrow> key a = key b"
    and h: "\<And>a. a \<in> set (elems (table st)) \<Longrightarrow> q a \<Longrightarrow> home_of V (tablesize st) a = unat (hash AND (tablesize st - 1))"
  obtains v d where "search (\<lambda>et. Inr (q et)) hash st = (Inr v, setCache v st)" "v < length (table st)"
    "first_halt q (table st) (unat (hash AND (tablesize st - 1))) d"
    "v = pos (length (table st)) (unat (hash AND (tablesize st - 1))) d"
    "\<forall>e \<in> set (elems (table st)). q e \<longrightarrow> table st ! v = Some e"
    "\<forall>e. table st ! v = Some e \<longrightarrow> q e \<and> e \<in> set (elems (table st))"
proof -
  let ?tab = "table st" and ?vs = "unat (hash AND (tablesize st - 1))"
  have ok: "size_ok (tablesize st)" "length ?tab = unat (tablesize st)" "length (elems ?tab) < length ?tab"
    "probe_ok (home_of V (tablesize st)) ?tab" "distinct (map key (elems ?tab))"
    using assms(1) by (auto simp: tab_ok_def)
  have vs: "?vs < length ?tab" using unat_and_size [OF ok(1), of hash] ok(2,3) by (metis mod_less_divisor not_less_zero neq0_conv)
  obtain d where d: "first_halt q ?tab ?vs d"
    using empty_slot [OF ok(3)] first_halt_ex [OF vs, of _ q] by (metis halts_simps(1))
  let ?v = "pos (length ?tab) ?vs d"
  have v: "?v < length ?tab" using pos_less [OF vs] .
  have "search (\<lambda>et. Inr (q et)) hash st = (Inr ?v, setCache ?v st)"
    using probe_loop_start [OF d vs] ok(2) by (simp add: search_def Let_def)
  moreover have "?tab ! ?v = Some e" if e: "e \<in> set (elems ?tab)" "q e" for e
  proof -
    obtain i where i: "i < length ?tab" "?tab ! i = Some e" using elems_ex_nth [OF e(1)] by blast
    have u: "j = i" if "j < length ?tab" "?tab ! j = Some e'" "q e'" for j e'
      using elems_unique [OF ok(5) that(1) i(1) that(2) i(2)] q [of e' e] elems_nth [OF that(1,2)] e that(3) by blast
    have "home_of V (tablesize st) e < length ?tab" using h [OF e] vs by simp
    with ok(4) i e(2) have "first_halt q ?tab (home_of V (tablesize st) e) (dist (length ?tab) (home_of V (tablesize st) e) i)"
      by (rule first_halt_found) (rule u)
    then have "first_halt q ?tab ?vs (dist (length ?tab) ?vs i)" unfolding h [OF e] .
    then have "d = dist (length ?tab) ?vs i" using d unfolding first_halt_def by (metis linorder_neqE_nat)
    then show ?thesis using i pos_dist [OF vs i(1)] by simp
  qed
  moreover have "q e \<and> e \<in> set (elems ?tab)" if "?tab ! ?v = Some e" for e
    using d that elems_nth [OF v that] by (simp add: first_halt_def)
  ultimately show ?thesis using that [of ?v d] v d by blast
qed

lemma slot_in: "v < length (table st) \<Longrightarrow> slot v st = (Inr (table st ! v), st)"
  by (simp add: slot_def)

lemma put_in: "v < length (table st) \<Longrightarrow> put v x st = (Inr (), st\<lparr>table := (table st)[v := x]\<rparr>)"
  by (simp add: put_def)

text \<open>Rehashing into a table with room for all.\<close>

lemma rehash_spec:
  assumes "size_ok newsize"
  shows "length nt = unat newsize \<Longrightarrow> probe_ok (home_of V newsize) nt \<Longrightarrow> length (elems old) + length (elems nt) < length nt \<Longrightarrow>
    \<exists>nt'. rehash V newsize old nt = Inr nt' \<and> length nt' = unat newsize \<and> probe_ok (home_of V newsize) nt' \<and>
      mset (elems nt') = mset (elems old) + mset (elems nt)"
proof (induction old arbitrary: nt)
  case (Cons x old)
  show ?case
  proof (cases x)
    case None
    then show ?thesis using Cons by simp
  next
    case (Some et)
    let ?h = "home_of V newsize et"
    have h: "?h < length nt" using home_of_less [OF assms] Cons.prems(1) by simp
    obtain z where "z < length nt" "nt ! z = None" using empty_slot [of nt] Cons.prems(3) by auto
    then obtain d where d: "first_halt (\<lambda>_. False) nt ?h d" using first_halt_ex [OF h, of z "\<lambda>_. False"] by auto
    let ?v = "pos (length nt) ?h d"
    have f: "free_loop nt (unat newsize) (Suc (unat newsize)) ?h = Inr ?v"
      using free_loop_start [OF d h] Cons.prems(1) by simp
    have v: "?v < length nt" "nt ! ?v = None"
      using pos_less [OF h] d by (auto simp: first_halt_def halts_def split: option.splits)
    let ?nt = "nt[?v := Some et]"
    have p: "probe_ok (home_of V newsize) ?nt" using probe_ok_store [OF Cons.prems(2) d refl v(2) h] .
    have m: "mset (elems ?nt) = add_mset et (mset (elems nt))" using elems_store [OF v] .
    have l: "length (elems ?nt) = Suc (length (elems nt))" using arg_cong [OF m, of size] by simp
    have "rehash V newsize (x # old) nt = rehash V newsize old ?nt"
      using f Some by (simp add: home_of_def del: free_loop.simps)
    then show ?thesis using Cons.IH [of ?nt] Cons.prems p l m Some by simp
  qed
qed simp

lemma expand_to_spec:
  assumes "table_ok V key st" "size_ok newsize" "tablesize st \<le> newsize"
  obtains tab where "expand_to V newsize st = (Inr (), st\<lparr>table := tab, tablesize := newsize\<rparr>)"
    "table_ok V key (st\<lparr>table := tab, tablesize := newsize\<rparr>)" "mset (elems tab) = mset (elems (table st))"
proof -
  have ok: "length (table st) = unat (tablesize st)" "length (elems (table st)) < length (table st)"
    "distinct (map key (elems (table st)))" "unat (tablecount st) = length (elems (table st))"
    using assms(1) by (auto simp: table_ok_def tab_ok_def)
  have le: "unat (tablesize st) \<le> unat newsize" using assms(3) by (simp add: word_le_nat_alt)
  have "probe_ok (home_of V newsize) (replicate (unat newsize) None)" by (simp add: probe_ok_def)
  then obtain tab where t: "rehash V newsize (table st) (replicate (unat newsize) None) = Inr tab" "length tab = unat newsize"
      "probe_ok (home_of V newsize) tab" "mset (elems tab) = mset (elems (table st))"
    using rehash_spec [OF assms(2), of "replicate (unat newsize) None" V "table st"] ok le by auto
  have "distinct (map key (elems tab))" using ok(3) t(4) by (metis mset_map mset_eq_imp_distinct_iff)
  then have "table_ok V key (st\<lparr>table := tab, tablesize := newsize\<rparr>)"
    using t mset_length [OF t(4)] ok le assms(2) by (simp add: table_ok_def tab_ok_def)
  then show ?thesis using that [of tab] t assms(3) by (simp add: expand_to_def not_less)
qed

lemma size_ok_double:
  assumes "size_ok n" "n \<noteq> 2 ^ 31"
  shows "size_ok (n + n)" "unat (n + n) = 2 * unat n" "n < n + n"
proof -
  obtain k where k: "k < 32" "n = 2 ^ k" "unat n = 2 ^ k" using size_okD [OF assms(1)] .
  then have "k \<noteq> 31" using assms(2) by auto
  then have k': "Suc k < 32" using k(1) by simp
  have e: "n + n = 2 ^ Suc k" using k(2) by simp
  then show s: "size_ok (n + n)" using k' unfolding size_ok_def by blast
  have "unat (2 ^ Suc k :: 32 word) = 2 ^ Suc k" using k' by (rule unat_pow2)
  then show u: "unat (n + n) = 2 * unat n" using e k(3) by simp
  show "n < n + n" unfolding word_less_nat_alt u using k(3) by simp
qed

lemma expand_spec:
  assumes "table_ok V key st"
  shows "tablesize st = 2 ^ 31 \<Longrightarrow> expand V st = (Inl (Thrown 0), st)"
    and "tablesize st \<noteq> 2 ^ 31 \<Longrightarrow> \<exists>tab. expand V st = (Inr (), st\<lparr>table := tab, tablesize := tablesize st + tablesize st\<rparr>) \<and>
      table_ok V key (st\<lparr>table := tab, tablesize := tablesize st + tablesize st\<rparr>) \<and> mset (elems tab) = mset (elems (table st))"
proof -
  have s: "size_ok (tablesize st)" using assms by (simp add: table_ok_def tab_ok_def)
  show "expand V st = (Inl (Thrown 0), st)" if "tablesize st = 2 ^ 31"
    using that by (simp add: expand_def expand_to_def)
  show "\<exists>tab. expand V st = (Inr (), st\<lparr>table := tab, tablesize := tablesize st + tablesize st\<rparr>) \<and>
      table_ok V key (st\<lparr>table := tab, tablesize := tablesize st + tablesize st\<rparr>) \<and> mset (elems tab) = mset (elems (table st))"
    if "tablesize st \<noteq> 2 ^ 31"
    using expand_to_spec [OF assms size_ok_double(1) [OF s that]] size_ok_double(3) [OF s that] less_imp_le
    unfolding expand_def by metis
qed

lemma unat_size_less: "unat (w :: 32 word) < 2 ^ 32"
  using unsigned_less [of w] by simp

lemma unat_count:
  assumes "table_ok V key st"
  shows "unat (tablecount st + 1) = Suc (unat (tablecount st))"
proof -
  have "unat (tablecount st) < unat (tablesize st)" using assms by (simp add: table_ok_def tab_ok_def)
  then have "Suc (unat (tablecount st)) < 2 ^ 32" using unat_size_less [of "tablesize st"] by simp
  then show ?thesis by (subst unat_word_ariths) simp
qed

lemma store_spec:
  assumes "table_ok V key st" "first_halt q (table st) (home_of V (tablesize st) e) d"
    "v = pos (length (table st)) (home_of V (tablesize st) e) d" "table st ! v = None"
    "lookup key st (key e) = None" "Suc (unat (tablecount st)) < unat (tablesize st)"
  obtains st' where "store v e st = (Inr (), st')" "table_ok V key st'" "lookup key st' = (lookup key st)(key e \<mapsto> e)"
    "events st' = events st @ [OnAdd e]" "tablesize st' = tablesize st"
proof -
  have ok: "size_ok (tablesize st)" "length (table st) = unat (tablesize st)" "probe_ok (home_of V (tablesize st)) (table st)"
    "distinct (map key (elems (table st)))" "unat (tablecount st) = length (elems (table st))"
    using assms(1) by (auto simp: table_ok_def tab_ok_def)
  have h: "home_of V (tablesize st) e < length (table st)" using home_of_less [OF ok(1)] ok(2) by simp
  have v: "v < length (table st)" using assms(3) pos_less [OF h] by simp
  let ?tab = "(table st)[v := Some e]"
  let ?st = "st\<lparr>tablecount := tablecount st + 1, table := ?tab\<rparr>"
  have m: "mset (elems ?tab) = add_mset e (mset (elems (table st)))" using elems_store [OF v assms(4)] .
  have "distinct (map key (e # elems (table st)))" using ok(4) assms(5) by (auto simp: lookup_None_iff)
  then have d: "distinct (map key (elems ?tab))" using m by (metis mset.simps(2) mset_map mset_eq_imp_distinct_iff)
  have l: "length (elems ?tab) = Suc (length (elems (table st)))" using arg_cong [OF m, of size] by simp
  have "table_ok V key ?st"
    using probe_ok_store [OF ok(3) assms(2,3,4) h] d l ok assms(6) unat_count [OF assms(1)]
    by (simp add: table_ok_def tab_ok_def)
  moreover have "lookup key ?st = (lookup key st)(key e \<mapsto> e)" using lookup_insert [of ?st e st key] m d by simp
  moreover have "store v e st = (Inr (), notify (OnAdd e) ?st)" using v by (simp add: store_def op_bind_def put_def)
  ultimately show ?thesis using that [of "notify (OnAdd e) ?st"] by simp
qed

lemma delete_spec:
  assumes "table_ok V key st" "v < length (table st)" "table st ! v = Some e"
  obtains st' where "doDeleteElement V v st = (Inr (), st')" "table_ok V key st'" "lookup key st' = (lookup key st)(key e := None)"
    "mset (elems (table st')) = mset (elems (table st)) - {#e#}" "events st' = events st" "tablesize st' = tablesize st"
proof -
  have ok: "size_ok (tablesize st)" "length (table st) = unat (tablesize st)" "probe_ok (home_of V (tablesize st)) (table st)"
    "distinct (map key (elems (table st)))" "unat (tablecount st) = length (elems (table st))" "length (elems (table st)) < length (table st)"
    using assms(1) by (auto simp: table_ok_def tab_ok_def)
  let ?t = "(table st)[v := None]"
  obtain z where z: "z < length (table st)" "table st ! z = None" using empty_slot [OF ok(6)] by blast
  then have ne: "z \<noteq> v" using assms(3) by auto
  have "dist (length ?t) v v < dist (length ?t) v z" "dist (length ?t) v z < Suc (unat (tablesize st))" "?t ! z = None"
    using ne z dist_zero_iff [OF assms(2) z(1)] dist_self [OF assms(2)] dist_less [OF assms(2), of z] ok(2) by auto
  then obtain tab where t: "delete_loop V (tablesize st) (Suc (unat (tablesize st))) ?t v v = Inr tab"
      "probe_ok (home_of V (tablesize st)) tab" "mset tab = mset ?t"
    using delete_loop_spec [of "tablesize st" ?t V v v z "Suc (unat (tablesize st))"] ok(1,2) gap_start [OF ok(3) assms(2)] z(1) by auto
  let ?st = "st\<lparr>table := tab, tablecount := tablecount st - 1\<rparr>"
  have m: "mset (elems tab) = mset (elems (table st)) - {#e#}" using elems_cong [OF t(3)] elems_clear [OF assms(2,3)] by simp
  have e: "e \<in> set (elems (table st))" using elems_nth [OF assms(2,3)] .
  have l: "length tab = length (table st)" using mset_length [OF t(3)] by simp
  have c: "length (elems tab) = length (elems (table st)) - 1" using arg_cong [OF m, of size] e by (simp add: size_Diff_singleton)
  have "elems (table st) \<noteq> []" using e by auto
  then have "unat (tablecount st) \<noteq> 0" using ok(5) by simp
  then have "unat (tablecount st - 1) = unat (tablecount st) - 1" by (simp add: unat_minus_one unat_eq_0)
  moreover have d: "lookup key ?st = (lookup key st)(key e := None)" "distinct (map key (elems tab))"
    using lookup_delete [of ?st st e key] m e ok(4) by simp_all
  ultimately have "table_ok V key ?st" using ok t(2) l c by (simp add: table_ok_def tab_ok_def)
  moreover have "doDeleteElement V v st = (Inr (), ?st)"
    using t(1) assms(2) by (simp add: doDeleteElement_def op_bind_def put_def)
  ultimately show ?thesis using that [of ?st] d(1) m by simp
qed

lemma probe_ok_replace:
  assumes "probe_ok home tab" "r < length tab" "tab ! r = Some x" "home e = home x"
  shows "probe_ok home (tab[r := Some e])"
  unfolding probe_ok_def length_list_update
proof (intro allI impI)
  fix i y d assume a: "i < length tab" "tab[r := Some e] ! i = Some y" "d < dist (length tab) (home y) i"
  have "\<exists>y'. tab ! i = Some y' \<and> home y' = home y" using a(1,2) assms(2-4) by (cases "i = r") auto
  then have "tab ! pos (length tab) (home y) d \<noteq> None" using probe_okD [OF assms(1) a(1)] a(3) by metis
  then show "tab[r := Some e] ! pos (length tab) (home y) d \<noteq> None" using assms(2) by (cases "pos (length tab) (home y) d = r") auto
qed

section \<open>The contract of the virtual methods\<close>

locale hashed =
  fixes V :: "('e, 'p) vtable" and key :: "'e \<Rightarrow> 'k" and pkey :: "'p \<Rightarrow> 'k"
  assumes match: "matchesFindParam V e p (getHashFromFindParam V p) \<longleftrightarrow> key e = pkey p"
    and same_hash: "pkey p = key e \<Longrightarrow> getHashFromFindParam V p = getHashFromElement V e"
    and param: "pkey (getFindParam V e) = key e"
    and limit: "size_ok n \<Longrightarrow> getTableLimit V n < n"
begin

lemma key_hash: "key a = key b \<Longrightarrow> getHashFromElement V a = getHashFromElement V b"
proof -
  assume k: "key a = key b"
  have "getHashFromFindParam V (getFindParam V a) = getHashFromElement V b" by (rule same_hash) (simp only: param k)
  moreover have "getHashFromFindParam V (getFindParam V a) = getHashFromElement V a" by (rule same_hash [OF param])
  ultimately show ?thesis by (rule trans [OF sym, rotated])
qed

lemma key_home: "key a = key b \<Longrightarrow> home_of V ts a = home_of V ts b"
  unfolding home_of_def by (drule key_hash) simp

text \<open>A search by find parameter ends at the element with its key, or at the slot for it.\<close>

lemma doFind_spec:
  assumes "table_ok V key st" "h = getHashFromFindParam V p"
  obtains v d where "doFind V h p st = (Inr v, setCache v st)" "v < length (table st)" "table st ! v = lookup key st (pkey p)"
    "first_halt (\<lambda>e. key e = pkey p) (table st) (unat (h AND (tablesize st - 1))) d"
    "v = pos (length (table st)) (unat (h AND (tablesize st - 1))) d"
proof -
  have t: "tab_ok V key (table st) (tablesize st)" and dk: "distinct (map key (elems (table st)))"
    using assms(1) by (auto simp: table_ok_def tab_ok_def)
  have h: "home_of V (tablesize st) a = unat (h AND (tablesize st - 1))" if "a \<in> set (elems (table st))" "key a = pkey p" for a
    using same_hash [of p a] that assms(2) by (simp add: home_of_def)
  have q: "key a = key b" if "a \<in> set (elems (table st))" "b \<in> set (elems (table st))" "key a = pkey p" "key b = pkey p" for a b
    using that(3,4) by simp
  obtain v d where s: "search (\<lambda>et. Inr (key et = pkey p)) h st = (Inr v, setCache v st)" "v < length (table st)"
      "first_halt (\<lambda>e. key e = pkey p) (table st) (unat (h AND (tablesize st - 1))) d"
      "v = pos (length (table st)) (unat (h AND (tablesize st - 1))) d"
      "\<forall>e \<in> set (elems (table st)). key e = pkey p \<longrightarrow> table st ! v = Some e"
      "\<forall>e. table st ! v = Some e \<longrightarrow> key e = pkey p \<and> e \<in> set (elems (table st))"
    by (rule search_spec [OF t, of "\<lambda>e. key e = pkey p" h, OF q h])
  have "table st ! v = lookup key st (pkey p)"
  proof (cases "lookup key st (pkey p)")
    case None
    then have "table st ! v \<noteq> Some e" for e using s(6) by (force simp: lookup_None_iff)
    then show ?thesis using None by (cases "table st ! v") auto
  next
    case (Some e)
    then have "e \<in> set (elems (table st))" "key e = pkey p" using lookup_iff [OF dk, of "pkey p" e] by blast+
    then show ?thesis using s(5) Some by simp
  qed
  moreover have "doFind V h p st = (Inr v, setCache v st)" using s(1) match assms(2) by (simp add: doFind_def)
  ultimately show ?thesis using that s(2-4) by blast
qed

lemma find_spec:
  assumes "table_ok V key st"
  shows "\<exists>v. find_param V p st = (Inr (lookup key st (pkey p)), setCache v st)"
    and "h = getHashFromFindParam V p \<Longrightarrow> find_hash V h p st = find_param V p st"
proof -
  obtain v d where "doFind V (getHashFromFindParam V p) p st = (Inr v, setCache v st)" "v < length (table st)"
      "table st ! v = lookup key st (pkey p)" by (rule doFind_spec [OF assms refl])
  then show "\<exists>v. find_param V p st = (Inr (lookup key st (pkey p)), setCache v st)"
    by (auto simp: find_param_def doFindParam_def op_bind_def slot_def)
qed (simp add: find_hash_def find_param_def doFindParam_def)

text \<open>Where an element that is not there goes, growing the table first if need be.\<close>

definition room :: "'e SuperHashTable \<Rightarrow> bool" where
  "room st \<longleftrightarrow> \<not> needs_expand V st \<or> tablesize st \<noteq> 2 ^ 31"

lemma no_expand: "table_ok V key st \<Longrightarrow> \<not> needs_expand V st \<Longrightarrow> Suc (unat (tablecount st)) < unat (tablesize st)"
  using limit [of "tablesize st"] by (simp add: table_ok_def tab_ok_def needs_expand_def not_le word_less_nat_alt)

lemma expand_room:
  assumes "table_ok V key st" "tablesize st \<noteq> 2 ^ 31"
  obtains st' where "expand V st = (Inr (), st')" "table_ok V key st'" "lookup key st' = lookup key st" "events st' = events st"
    "Suc (unat (tablecount st')) < unat (tablesize st')"
proof -
  obtain tab where e: "expand V st = (Inr (), st\<lparr>table := tab, tablesize := tablesize st + tablesize st\<rparr>)"
      "table_ok V key (st\<lparr>table := tab, tablesize := tablesize st + tablesize st\<rparr>)" "mset (elems tab) = mset (elems (table st))"
    using expand_spec(2) [OF assms] by blast
  let ?st = "st\<lparr>table := tab, tablesize := tablesize st + tablesize st\<rparr>"
  have s: "size_ok (tablesize st)" "distinct (map key (elems (table st)))" "unat (tablecount st) < unat (tablesize st)"
    using assms(1) by (auto simp: table_ok_def tab_ok_def)
  have "lookup key ?st = lookup key st" using lookup_cong [of st ?st key] e(3) s(2) by simp
  moreover have "Suc (unat (tablecount ?st)) < unat (tablesize ?st)" using size_ok_double(2) [OF s(1) assms(2)] s(3) by simp
  ultimately show ?thesis using that [of ?st] e by simp
qed

text \<open>The part of \<^verbatim>\<open>doAdd\<close> and \<^verbatim>\<open>addOrFind\<close> after an unsuccessful search.\<close>

lemma add_missing:
  assumes "table_ok V key st" "lookup key st (key e) = None" "h = getHashFromElement V e"
    "doFind V h (getFindParam V e) st = (Inr vm, setCache vm st)" "room st"
  obtains st' where
    "op_bind (\<lambda>st. if needs_expand V st then op_bind (expand V) (\<lambda>_. doFind V h (getFindParam V e)) st else (Inr vm, st))
       (\<lambda>vm. op_bind (store vm e) (\<lambda>_. op_return r)) (setCache vm st) = (Inr r, st')"
    "table_ok V key st'" "lookup key st' = (lookup key st)(key e \<mapsto> e)" "events st' = events st @ [OnAdd e]"
proof -
  have h: "h = getHashFromFindParam V (getFindParam V e)" using same_hash param assms(3) by simp
  have ad: "\<exists>st'. op_bind (doFind V h (getFindParam V e)) (\<lambda>vm. op_bind (store vm e) (\<lambda>_. op_return r)) st1 = (Inr r, st') \<and>
      table_ok V key st' \<and> lookup key st' = (lookup key st1)(key e \<mapsto> e) \<and> events st' = events st1 @ [OnAdd e]"
    if a: "table_ok V key st1" "lookup key st1 (key e) = None" "Suc (unat (tablecount st1)) < unat (tablesize st1)" for st1
  proof -
    obtain v d where f: "doFind V h (getFindParam V e) st1 = (Inr v, setCache v st1)" "table st1 ! v = None"
      "first_halt (\<lambda>x. key x = key e) (table st1) (home_of V (tablesize st1) e) d"
      "v = pos (length (table st1)) (home_of V (tablesize st1) e) d"
      by (rule doFind_spec [OF a(1) h]) (use a(2) assms(3) param in \<open>simp add: home_of_def\<close>)
    obtain st' where "store v e (setCache v st1) = (Inr (), st')" "table_ok V key st'"
      "lookup key st' = (lookup key (setCache v st1))(key e \<mapsto> e)" "events st' = events (setCache v st1) @ [OnAdd e]"
      by (rule store_spec [of V key "setCache v st1" "\<lambda>x. key x = key e" e d v]) (use a f(2-4) in simp_all)
    then show ?thesis using f(1) by (simp add: op_bind_def op_return_def)
  qed
  show ?thesis
  proof (cases "needs_expand V st")
    case False
    then have "\<not> needs_expand V (setCache vm st)" by (simp add: needs_expand_def)
    then show ?thesis using ad [OF assms(1,2) no_expand [OF assms(1) False]] assms(4) that by (auto simp: op_bind_def)
  next
    case True
    then have ts: "tablesize (setCache vm st) \<noteq> 2 ^ 31" "needs_expand V (setCache vm st)"
      using assms(5) by (auto simp: room_def needs_expand_def)
    obtain st1 where "expand V (setCache vm st) = (Inr (), st1)" "table_ok V key st1" "lookup key st1 = lookup key st" "events st1 = events st"
      "Suc (unat (tablecount st1)) < unat (tablesize st1)"
      by (rule expand_room [OF _ ts(1)]) (use assms(1) in simp_all)
    then show ?thesis using ad [of st1] assms(2) that ts(2) by (auto simp: op_bind_def)
  qed
qed

lemma doFind_element:
  assumes "table_ok V key st"
  obtains v where "doFind V (getHashFromElement V e) (getFindParam V e) st = (Inr v, setCache v st)"
    "v < length (table st)" "table st ! v = lookup key st (key e)"
proof -
  have h: "getHashFromElement V e = getHashFromFindParam V (getFindParam V e)" using same_hash [OF param] by simp
  show ?thesis using doFind_spec [OF assms h] that unfolding param by metis
qed

lemma add_new_spec:
  assumes "table_ok V key st" "lookup key st (key e) = None" "room st"
  shows "\<exists>st'. doAdd V e r st = (Inr True, st') \<and> table_ok V key st' \<and> lookup key st' = (lookup key st)(key e \<mapsto> e) \<and>
      events st' = events st @ [OnAdd e]"
    and "\<exists>st'. addOrFind V e st = (Inr e, st') \<and> table_ok V key st' \<and> lookup key st' = (lookup key st)(key e \<mapsto> e) \<and>
      events st' = events st @ [OnAdd e]"
proof -
  obtain v where f: "doFind V (getHashFromElement V e) (getFindParam V e) st = (Inr v, setCache v st)"
    "v < length (table st)" "table st ! v = None" using doFind_element [OF assms(1)] assms(2) by metis
  have s: "slot v (setCache v st) = (Inr None, setCache v st)" using f(2,3) by (simp add: slot_def)
  show "\<exists>st'. doAdd V e r st = (Inr True, st') \<and> table_ok V key st' \<and> lookup key st' = (lookup key st)(key e \<mapsto> e) \<and>
      events st' = events st @ [OnAdd e]"
    by (rule add_missing [OF assms(1,2) refl f(1) assms(3), of True])
       (use f(1) s in \<open>simp add: doAdd_def Let_def op_bind_Inr\<close>)
  show "\<exists>st'. addOrFind V e st = (Inr e, st') \<and> table_ok V key st' \<and> lookup key st' = (lookup key st)(key e \<mapsto> e) \<and>
      events st' = events st @ [OnAdd e]"
    by (rule add_missing [OF assms(1,2) refl f(1) assms(3), of e])
       (use f(1) s in \<open>simp add: addOrFind_def Let_def op_bind_Inr\<close>)
qed

lemma add_old_spec:
  assumes "table_ok V key st" "lookup key st (key e) = Some x"
  shows "\<exists>v. doAdd V e False st = (Inr False, setCache v st)" and "\<exists>v. addOrFind V e st = (Inr x, setCache v st)"
    and "\<exists>st'. doAdd V e True st = (Inr True, st') \<and> table_ok V key st' \<and> lookup key st' = (lookup key st)(key e \<mapsto> e) \<and>
      events st' = events st @ [OnRemove x, OnAdd e]"
proof -
  obtain v where f: "doFind V (getHashFromElement V e) (getFindParam V e) st = (Inr v, setCache v st)"
    "v < length (table st)" "table st ! v = Some x" using doFind_element [OF assms(1)] assms(2) by metis
  have s: "slot v (setCache v st) = (Inr (Some x), setCache v st)" using f(2,3) by (simp add: slot_def)
  show "\<exists>v. doAdd V e False st = (Inr False, setCache v st)"
    using f(1) s by (simp add: doAdd_def Let_def op_bind_Inr op_return_def) blast
  show "\<exists>v. addOrFind V e st = (Inr x, setCache v st)"
    using f(1) s by (simp add: addOrFind_def Let_def op_bind_Inr op_return_def) blast
  have ok: "size_ok (tablesize st)" "length (table st) = unat (tablesize st)" "probe_ok (home_of V (tablesize st)) (table st)"
    "distinct (map key (elems (table st)))" "unat (tablecount st) = length (elems (table st))" "length (elems (table st)) < length (table st)"
    using assms(1) by (auto simp: table_ok_def tab_ok_def)
  have x: "x \<in> set (elems (table st))" "key x = key e" using lookup_iff [OF ok(4), of "key e" x] assms(2) by auto
  let ?c = "setCache v st\<lparr>table := (table st)[v := None]\<rparr>" and ?tab = "(table st)[v := Some e]"
  let ?st = "notify (OnRemove x) (setCache v st)\<lparr>table := ?tab\<rparr>"
  have c: "mset (elems (table ?c)) = mset (elems (table st)) - {#x#}" using elems_clear [OF f(2,3)] by simp
  note cd = lookup_delete [OF c x(1) ok(4)]
  have m: "mset (elems (table ?st)) = add_mset e (mset (elems (table ?c)))"
    using elems_store [of v "table ?c" e] f(2) by simp
  have "lookup key ?c (key e) = None" using cd(1) x(2) by simp
  then have "distinct (map key (e # elems (table ?c)))" using cd(2) by (auto simp: lookup_None_iff)
  then have d: "distinct (map key (elems (table ?st)))" using m by (metis mset.simps(2) mset_map mset_eq_imp_distinct_iff)
  have l: "length (elems ?tab) = length (elems (table st))"
    using arg_cong [OF m, of size] arg_cong [OF c, of size] x(1) by (simp add: size_Diff_singleton) (metis Suc_pred length_pos_if_in_set)
  have p: "probe_ok (home_of V (tablesize st)) ?tab"
    using probe_ok_replace [OF ok(3) f(2,3)] key_home [of e x] x(2) by simp
  have "table_ok V key ?st" using ok p d l by (simp add: table_ok_def tab_ok_def)
  moreover have "lookup key ?st = (lookup key st)(key e \<mapsto> e)"
    using lookup_insert [OF m d] cd(1) x(2) by (simp add: lookup_def)
  moreover have "doAdd V e True st = (Inr True, notify (OnAdd e) ?st)"
    using f(1,2) s by (simp add: doAdd_def Let_def op_bind_Inr) (simp add: op_bind_def put_def)
  ultimately show "\<exists>st'. doAdd V e True st = (Inr True, st') \<and> table_ok V key st' \<and> lookup key st' = (lookup key st)(key e \<mapsto> e) \<and>
      events st' = events st @ [OnRemove x, OnAdd e]" by simp
qed

lemma add_full_spec:
  assumes "table_ok V key st" "lookup key st (key e) = None" "\<not> room st"
  shows "\<exists>v. doAdd V e r st = (Inl (Thrown 0), setCache v st)" "\<exists>v. addOrFind V e st = (Inl (Thrown 0), setCache v st)"
proof -
  obtain v where f: "doFind V (getHashFromElement V e) (getFindParam V e) st = (Inr v, setCache v st)"
    "v < length (table st)" "table st ! v = None" using doFind_element [OF assms(1)] assms(2) by metis
  have "needs_expand V (setCache v st)" "expand V (setCache v st) = (Inl (Thrown 0), setCache v st)"
    using assms(1,3) expand_spec(1) [of V key "setCache v st"] by (auto simp: room_def needs_expand_def)
  then show "\<exists>v. doAdd V e r st = (Inl (Thrown 0), setCache v st)" "\<exists>v. addOrFind V e st = (Inl (Thrown 0), setCache v st)"
    using f by (auto simp: doAdd_def addOrFind_def Let_def op_bind_def slot_def)
qed

lemma remove_spec:
  assumes "table_ok V key st"
  shows "lookup key st (pkey p) = None \<Longrightarrow> \<exists>v. remove V p st = (Inr False, setCache v st)"
    and "lookup key st (pkey p) = Some e \<Longrightarrow> \<exists>st'. remove V p st = (Inr True, st') \<and> table_ok V key st' \<and>
      lookup key st' = (lookup key st)(pkey p := None) \<and> events st' = events st @ [OnRemove e]"
proof -
  obtain v d where f: "doFind V (getHashFromFindParam V p) p st = (Inr v, setCache v st)" "v < length (table st)"
      "table st ! v = lookup key st (pkey p)" by (rule doFind_spec [OF assms refl])
  have s: "slot v (setCache v st) = (Inr (lookup key st (pkey p)), setCache v st)" using f(2,3) by (simp add: slot_def)
  show "\<exists>v. remove V p st = (Inr False, setCache v st)" if "lookup key st (pkey p) = None"
    using f(1) s that by (simp add: remove_def doFindParam_def op_bind_Inr op_return_def) blast
  show "\<exists>st'. remove V p st = (Inr True, st') \<and> table_ok V key st' \<and>
      lookup key st' = (lookup key st)(pkey p := None) \<and> events st' = events st @ [OnRemove e]" if l: "lookup key st (pkey p) = Some e"
  proof -
    have k: "key e = pkey p" using lookup_iff [of key st "pkey p" e] assms l by (simp add: table_ok_def tab_ok_def)
    obtain st' where "doDeleteElement V v (setCache v st) = (Inr (), st')" "table_ok V key st'"
      "lookup key st' = (lookup key (setCache v st))(key e := None)" "events st' = events (setCache v st)"
      by (rule delete_spec [of V key "setCache v st" v e]) (use assms f(2,3) l in simp_all)
    then show ?thesis using f(1) s l k by (simp add: remove_def doFindParam_def op_bind_Inr)
  qed
qed

end

end
