(* ===== verification/Jsuperhash_Exact.thy ===== *)
theory Jsuperhash_Exact
  imports Jsuperhash_Map
begin

text \<open>
  The operations that compare pointers, that add without a search, the growth of the table ahead of
  time, clearing, and the iteration over the elements.
\<close>

section \<open>Exact elements\<close>

context hashed
begin

lemma doFindExact_spec:
  assumes "table_ok V key st"
  obtains v c where "doFindExact V e st = (Inr v, st\<lparr>cache := c\<rparr>)" "v < length (table st)"
    "e \<in> set (elems (table st)) \<longrightarrow> table st ! v = Some e"
    "e \<notin> set (elems (table st)) \<longrightarrow> table st ! v = None \<and>
       (\<exists>d. first_halt (\<lambda>x. x = e) (table st) (home_of V (tablesize st) e) d \<and> v = pos (length (table st)) (home_of V (tablesize st) e) d)"
proof -
  have t: "tab_ok V key (table st) (tablesize st)" and l: "length (table st) = unat (tablesize st)"
    using assms by (auto simp: table_ok_def tab_ok_def)
  let ?i = "cache st"
  have in_range: "?i < tablesize st \<longleftrightarrow> unat ?i < length (table st)" using l by (simp add: word_less_nat_alt)
  show ?thesis
  proof (cases "unat ?i < length (table st) \<and> table st ! unat ?i = Some e")
    case True
    moreover from this have "\<not> tablesize st \<le> ?i" using in_range by (simp add: not_le)
    ultimately have "doFindExact V e st = (Inr (unat ?i), st\<lparr>cache := cache st\<rparr>)"
      by (simp add: doFindExact_def Let_def)
    then show ?thesis using that True elems_nth [of "unat ?i" "table st" e] by blast
  next
    case False
    then have s: "doFindExact V e st = search (\<lambda>x. Inr (x = e)) (getHashFromElement V e) st"
      using in_range by (auto simp: doFindExact_def Let_def not_le not_less)
    have q: "key a = key b" if "a \<in> set (elems (table st))" "b \<in> set (elems (table st))" "a = e" "b = e" for a b
      using that(3,4) by simp
    have h: "home_of V (tablesize st) a = unat (getHashFromElement V e AND (tablesize st - 1))"
      if "a \<in> set (elems (table st))" "a = e" for a using that(2) by (simp add: home_of_def)
    obtain v d where f: "search (\<lambda>x. Inr (x = e)) (getHashFromElement V e) st = (Inr v, setCache v st)" "v < length (table st)"
      "first_halt (\<lambda>x. x = e) (table st) (unat (getHashFromElement V e AND (tablesize st - 1))) d"
      "v = pos (length (table st)) (unat (getHashFromElement V e AND (tablesize st - 1))) d"
      "\<forall>x \<in> set (elems (table st)). x = e \<longrightarrow> table st ! v = Some x"
      "\<forall>x. table st ! v = Some x \<longrightarrow> x = e \<and> x \<in> set (elems (table st))"
      by (rule search_spec [OF t, of "\<lambda>x. x = e" "getHashFromElement V e", OF q h])
    show ?thesis
    proof (rule that)
      show "doFindExact V e st = (Inr v, st\<lparr>cache := of_nat v\<rparr>)" using s f(1) by (simp add: setCache_def)
      show "e \<in> set (elems (table st)) \<longrightarrow> table st ! v = Some e" using f(5) by blast
      have "e \<notin> set (elems (table st)) \<longrightarrow> table st ! v = None" using f(6) by (cases "table st ! v") auto
      then show "e \<notin> set (elems (table st)) \<longrightarrow> table st ! v = None \<and>
        (\<exists>d. first_halt (\<lambda>x. x = e) (table st) (home_of V (tablesize st) e) d \<and> v = pos (length (table st)) (home_of V (tablesize st) e) d)"
        using f(3,4) unfolding home_of_def by blast
    qed (rule f(2))
  qed
qed

lemma findExact_spec:
  assumes "table_ok V key st"
  shows "\<exists>c. findExact V e st = (Inr (if e \<in> set (elems (table st)) then Some e else None), st\<lparr>cache := c\<rparr>)"
proof -
  obtain v c where "doFindExact V e st = (Inr v, st\<lparr>cache := c\<rparr>)" "v < length (table st)"
    "e \<in> set (elems (table st)) \<longrightarrow> table st ! v = Some e" "e \<notin> set (elems (table st)) \<longrightarrow> table st ! v = None"
    by (rule doFindExact_spec [OF assms]) blast
  then show ?thesis by (auto simp: findExact_def op_bind_def slot_def)
qed

lemma removeExact_spec:
  assumes "table_ok V key st"
  shows "e \<notin> set (elems (table st)) \<Longrightarrow> \<exists>c. removeExact V (Some e) st = (Inr False, st\<lparr>cache := c\<rparr>)"
    and "e \<in> set (elems (table st)) \<Longrightarrow> \<exists>st'. removeExact V (Some e) st = (Inr True, st') \<and> table_ok V key st' \<and>
      lookup key st' = (lookup key st)(key e := None) \<and> mset (elems (table st')) = mset (elems (table st)) - {#e#} \<and>
      events st' = events st @ [OnRemove e]"
proof -
  obtain v c where f: "doFindExact V e st = (Inr v, st\<lparr>cache := c\<rparr>)" "v < length (table st)"
    "e \<in> set (elems (table st)) \<longrightarrow> table st ! v = Some e" "e \<notin> set (elems (table st)) \<longrightarrow> table st ! v = None"
    by (rule doFindExact_spec [OF assms]) blast
  have s: "slot v (st\<lparr>cache := c\<rparr>) = (Inr (table st ! v), st\<lparr>cache := c\<rparr>)" using f(2) by (simp add: slot_def)
  show "\<exists>c. removeExact V (Some e) st = (Inr False, st\<lparr>cache := c\<rparr>)" if "e \<notin> set (elems (table st))"
    using that f(1,4) s by (auto simp: removeExact_def op_bind_Inr op_return_def)
  show "\<exists>st'. removeExact V (Some e) st = (Inr True, st') \<and> table_ok V key st' \<and>
      lookup key st' = (lookup key st)(key e := None) \<and> mset (elems (table st')) = mset (elems (table st)) - {#e#} \<and>
      events st' = events st @ [OnRemove e]" if e: "e \<in> set (elems (table st))"
  proof -
    obtain st' where "doDeleteElement V v (st\<lparr>cache := c\<rparr>) = (Inr (), st')" "table_ok V key st'"
      "lookup key st' = (lookup key (st\<lparr>cache := c\<rparr>))(key e := None)"
      "mset (elems (table st')) = mset (elems (table (st\<lparr>cache := c\<rparr>))) - {#e#}" "events st' = events (st\<lparr>cache := c\<rparr>)"
      by (rule delete_spec [of V key "st\<lparr>cache := c\<rparr>" v e]) (use assms f(2,3) e in simp_all)
    then show ?thesis using f s e by (simp add: removeExact_def op_bind_Inr)
  qed
qed

section \<open>Adding without a search\<close>

text \<open>The caller of \<^verbatim>\<open>addNew\<close> promises that the key is not there.\<close>

lemma addNew_spec:
  assumes "table_ok V key st" "lookup key st (key e) = None" "room st"
  shows "\<exists>st'. addNew V e st = (Inr (), st') \<and> table_ok V key st' \<and> lookup key st' = (lookup key st)(key e \<mapsto> e) \<and>
    events st' = events st @ [OnAdd e]"
proof -
  have ad: "\<exists>st'. op_bind (doFindNew (getHashFromElement V e)) (\<lambda>vm. store vm e) st1 = (Inr (), st') \<and>
      table_ok V key st' \<and> lookup key st' = (lookup key st1)(key e \<mapsto> e) \<and> events st' = events st1 @ [OnAdd e]"
    if a: "table_ok V key st1" "lookup key st1 (key e) = None" "Suc (unat (tablecount st1)) < unat (tablesize st1)" for st1
  proof -
    have t: "tab_ok V key (table st1) (tablesize st1)" using a(1) by (simp add: table_ok_def)
    obtain v d where f: "search (\<lambda>_. Inr False) (getHashFromElement V e) st1 = (Inr v, setCache v st1)" "table st1 ! v = None"
      "first_halt (\<lambda>_. False) (table st1) (home_of V (tablesize st1) e) d"
      "v = pos (length (table st1)) (home_of V (tablesize st1) e) d"
      by (rule search_spec [OF t, of "\<lambda>_. False" "getHashFromElement V e"]) (auto simp: home_of_def)
    obtain st' where "store v e (setCache v st1) = (Inr (), st')" "table_ok V key st'"
      "lookup key st' = (lookup key (setCache v st1))(key e \<mapsto> e)" "events st' = events (setCache v st1) @ [OnAdd e]"
      by (rule store_spec [of V key "setCache v st1" "\<lambda>_. False" e d v]) (use a f(2-4) in simp_all)
    then show ?thesis using f(1) by (simp add: op_bind_def doFindNew_def)
  qed
  show ?thesis
  proof (cases "needs_expand V st")
    case False
    then show ?thesis using ad [OF assms(1,2) no_expand [OF assms(1) False]]
      by (simp add: addNew_def addNew_hash_def op_bind_def)
  next
    case True
    then have "tablesize st \<noteq> 2 ^ 31" using assms(3) by (simp add: room_def)
    then obtain st1 where "expand V st = (Inr (), st1)" "table_ok V key st1" "lookup key st1 = lookup key st" "events st1 = events st"
      "Suc (unat (tablecount st1)) < unat (tablesize st1)" by (rule expand_room [OF assms(1)])
    then show ?thesis using ad [of st1] assms(2) True by (simp add: addNew_def addNew_hash_def op_bind_def [of "\<lambda>st. if _ st then _ st else _ st"])
  qed
qed

lemma addOrFindExact_spec:
  assumes "table_ok V key st"
  shows "e \<in> set (elems (table st)) \<Longrightarrow> \<exists>c. addOrFindExact V e st = (Inr e, st\<lparr>cache := c\<rparr>)"
    and "lookup key st (key e) = None \<Longrightarrow> room st \<Longrightarrow> \<exists>st'. addOrFindExact V e st = (Inr e, st') \<and> table_ok V key st' \<and>
      lookup key st' = (lookup key st)(key e \<mapsto> e) \<and> events st' = events st @ [OnAdd e]"
proof -
  obtain v c where f: "doFindExact V e st = (Inr v, st\<lparr>cache := c\<rparr>)" "v < length (table st)"
    "e \<in> set (elems (table st)) \<longrightarrow> table st ! v = Some e" "e \<notin> set (elems (table st)) \<longrightarrow> table st ! v = None"
    by (rule doFindExact_spec [OF assms]) blast
  have s: "slot v (st\<lparr>cache := c\<rparr>) = (Inr (table st ! v), st\<lparr>cache := c\<rparr>)" using f(2) by (simp add: slot_def)
  show "\<exists>c. addOrFindExact V e st = (Inr e, st\<lparr>cache := c\<rparr>)" if "e \<in> set (elems (table st))"
    using that f(1,3) s by (auto simp: addOrFindExact_def op_bind_Inr op_return_def)
  have ad: "\<exists>st'. op_bind (doFindExact V e) (\<lambda>vm. op_bind (store vm e) (\<lambda>_. op_return e)) st1 = (Inr e, st') \<and>
      table_ok V key st' \<and> lookup key st' = (lookup key st1)(key e \<mapsto> e) \<and> events st' = events st1 @ [OnAdd e]"
    if a: "table_ok V key st1" "lookup key st1 (key e) = None" "Suc (unat (tablecount st1)) < unat (tablesize st1)" for st1
  proof -
    have n: "e \<notin> set (elems (table st1))" using a(2) by (auto simp: lookup_None_iff)
    obtain v c d where g: "doFindExact V e st1 = (Inr v, st1\<lparr>cache := c\<rparr>)" "table st1 ! v = None"
      "first_halt (\<lambda>x. x = e) (table st1) (home_of V (tablesize st1) e) d" "v = pos (length (table st1)) (home_of V (tablesize st1) e) d"
      by (rule doFindExact_spec [OF a(1), of e]) (use n in blast)
    obtain st' where "store v e (st1\<lparr>cache := c\<rparr>) = (Inr (), st')" "table_ok V key st'"
      "lookup key st' = (lookup key (st1\<lparr>cache := c\<rparr>))(key e \<mapsto> e)" "events st' = events (st1\<lparr>cache := c\<rparr>) @ [OnAdd e]"
      by (rule store_spec [of V key "st1\<lparr>cache := c\<rparr>" "\<lambda>x. x = e" e d v]) (use a g(2-4) in simp_all)
    then show ?thesis using g(1) by (simp add: op_bind_def op_return_def)
  qed
  show "\<exists>st'. addOrFindExact V e st = (Inr e, st') \<and> table_ok V key st' \<and>
      lookup key st' = (lookup key st)(key e \<mapsto> e) \<and> events st' = events st @ [OnAdd e]" if l: "lookup key st (key e) = None" "room st"
  proof -
    have n: "table st ! v = None" using f(4) l(1) by (auto simp: lookup_None_iff)
    show ?thesis
    proof (cases "needs_expand V st")
      case False
      then have "\<not> needs_expand V (st\<lparr>cache := c\<rparr>)" by (simp add: needs_expand_def)
      then show ?thesis using ad [OF assms l(1) no_expand [OF assms False]] f(1) s n
        by (simp add: addOrFindExact_def op_bind_def)
    next
      case True
      then have ts: "tablesize (st\<lparr>cache := c\<rparr>) \<noteq> 2 ^ 31" "needs_expand V (st\<lparr>cache := c\<rparr>)"
        using l(2) by (auto simp: room_def needs_expand_def)
      obtain st1 where "expand V (st\<lparr>cache := c\<rparr>) = (Inr (), st1)" "table_ok V key st1" "lookup key st1 = lookup key st"
        "events st1 = events st" "Suc (unat (tablecount st1)) < unat (tablesize st1)"
        by (rule expand_room [OF _ ts(1)]) (use assms in simp_all)
      then show ?thesis using ad [of st1] l(1) f(1) s n ts(2) by (simp add: addOrFindExact_def op_bind_def)
    qed
  qed
qed

end

end
