(* ===== verification/Jsuperhash_Iter.thy ===== *)
theory Jsuperhash_Iter
  imports Jsuperhash_Exact
begin

text \<open>
  Iteration over the elements of a hash table, clearing it, and making room ahead of time.
\<close>

section \<open>The order of the table\<close>

lemma elems_split:
  "i < length tab \<Longrightarrow> tab ! i = Some e \<Longrightarrow> elems tab = elems (take i tab) @ e # elems (drop (Suc i) tab)"
proof -
  assume a: "i < length tab" "tab ! i = Some e"
  have "elems tab = elems (take i tab @ tab ! i # drop (Suc i) tab)" using id_take_nth_drop [OF a(1)] by simp
  then show ?thesis using a(2) by simp
qed

lemma distinct_split: "distinct (xs @ e # ys) \<Longrightarrow> xs @ e # ys = us @ e # vs \<Longrightarrow> ys = vs"
proof (induction xs arbitrary: us)
  case Nil
  then show ?case by (cases us) auto
next
  case step: (Cons x xs)
  show ?case
  proof (cases us)
    case Nil
    then show ?thesis using step.prems by auto
  next
    case (Cons u us')
    have "distinct (xs @ e # ys)" using step.prems(1) by simp
    moreover have "xs @ e # ys = us' @ e # vs" using step.prems(2) Cons by simp
    ultimately show ?thesis by (rule step.IH)
  qed
qed

lemma valid_loop_spec:
  "case elems tab of
     [] \<Rightarrow> valid_loop tab i = i + length tab
   | y # ys \<Rightarrow> (\<exists>j<length tab. valid_loop tab i = i + j \<and> tab ! j = Some y)"
proof (induction tab i rule: valid_loop.induct)
  case (2 tab i)
  then show ?case by (auto split: list.splits)
qed auto

lemma next_from_spec:
  assumes "i \<le> length (table st)"
  shows "\<exists>c. next_from i st = (Inr (case elems (drop i (table st)) of [] \<Rightarrow> None | y # _ \<Rightarrow> Some y), st\<lparr>cache := c\<rparr>)"
proof (cases "elems (drop i (table st))")
  case Nil
  then have "validIdx st i = length (table st)" using valid_loop_spec [of "drop i (table st)" i] assms by (simp add: validIdx_def)
  then show ?thesis using Nil by (auto simp: next_from_def intro!: exI [of _ "cache st"])
next
  case (Cons y ys)
  then obtain j where "j < length (drop i (table st))" "validIdx st i = i + j" "drop i (table st) ! j = Some y"
    using valid_loop_spec [of "drop i (table st)" i] by (auto simp: validIdx_def)
  then show ?thesis using Cons by (auto simp: next_from_def Let_def setCache_def)
qed

lemma empty_ok: "size_ok n \<Longrightarrow> tab_ok V key (replicate (unat n) None) n"
  by (auto simp: tab_ok_def probe_ok_def elim: size_okD)

lemma size_ok_16: "size_ok InitialTableSize"
  unfolding size_ok_def by (rule exI [of _ 4]) simp

section \<open>Iteration\<close>

context hashed
begin

lemma iter_first_spec:
  assumes "table_ok V key st"
  shows "\<exists>c. iter_first V st = (Inr (case elems (table st) of [] \<Rightarrow> None | x # _ \<Rightarrow> Some x), st\<lparr>cache := c\<rparr>)"
proof (cases "elems (table st)")
  case Nil
  then have "tablecount st = 0" using assms by (simp add: table_ok_def unat_eq_0)
  then show ?thesis using Nil by (auto simp: iter_first_def next_element_def intro!: exI [of _ "cache st"])
next
  case (Cons x xs)
  then have "tablecount st \<noteq> 0" using assms by (auto simp: table_ok_def)
  then show ?thesis using next_from_spec [of 0 st] Cons by (auto simp: iter_first_def next_element_def)
qed

lemma next_element_spec:
  assumes "table_ok V key st" "elems (table st) = xs @ e # ys"
  shows "\<exists>c. next_element V (Some e) st = (Inr (case ys of [] \<Rightarrow> None | y # _ \<Rightarrow> Some y), st\<lparr>cache := c\<rparr>)"
proof -
  have e: "e \<in> set (elems (table st))" using assms(2) by simp
  obtain v c where f: "doFindExact V e st = (Inr v, st\<lparr>cache := c\<rparr>)" "v < length (table st)" "table st ! v = Some e"
    by (rule doFindExact_spec [OF assms(1), of e]) (use e in blast)
  have "distinct (map key (elems (table st)))" using assms(1) by (simp add: table_ok_def tab_ok_def)
  then have "distinct (elems (table st))" by (simp add: distinct_map)
  then have ys: "elems (drop (Suc v) (table st)) = ys"
    using elems_split [OF f(2,3)] assms(2) distinct_split [of xs e ys "elems (take v (table st))"] by simp
  obtain c' where "next_from (Suc v) (st\<lparr>cache := c\<rparr>) = (Inr (case ys of [] \<Rightarrow> None | y # _ \<Rightarrow> Some y), st\<lparr>cache := c'\<rparr>)"
    using next_from_spec [of "Suc v" "st\<lparr>cache := c\<rparr>"] ys f(2) by auto
  then show ?thesis using f by (auto simp: next_element_def op_bind_def slot_def)
qed

lemma next_element_absent:
  assumes "table_ok V key st" "e \<notin> set (elems (table st))"
  shows "fst (next_element V (Some e) st) = Inl AssertFailed"
proof -
  obtain v c where f: "doFindExact V e st = (Inr v, st\<lparr>cache := c\<rparr>)" "v < length (table st)" "table st ! v = None"
    by (rule doFindExact_spec [OF assms(1), of e]) (use assms(2) in blast)
  then show ?thesis by (simp add: next_element_def op_bind_def slot_def op_throw_def)
qed

lemma iterate_spec:
  assumes "table_ok V key st" "elems (table st) = xs @ e # ys" "Suc (length ys) < fuel"
  shows "\<exists>c. iterate V fuel (Some e) st = (Inr (e # ys), st\<lparr>cache := c\<rparr>)"
  using assms
proof (induction fuel arbitrary: st xs e ys)
  case (Suc fuel)
  obtain c where n: "iter_next V (Some e) st = (Inr (case ys of [] \<Rightarrow> None | y # _ \<Rightarrow> Some y), st\<lparr>cache := c\<rparr>)"
    using next_element_spec [OF Suc.prems(1,2)] by (auto simp: iter_next_def)
  show ?case
  proof (cases ys)
    case Nil
    then show ?thesis using n Suc.prems(3) by (cases fuel) (auto simp: op_bind_def op_return_def)
  next
    case (Cons y zs)
    then obtain c' where "iterate V fuel (Some y) (st\<lparr>cache := c\<rparr>) = (Inr (y # zs), st\<lparr>cache := c'\<rparr>)"
      using Suc.IH [of "st\<lparr>cache := c\<rparr>" "xs @ [e]" y zs] Suc.prems by auto
    then show ?thesis using n Cons by (auto simp: op_bind_def op_return_def)
  qed
qed simp

lemma iterate_all_spec:
  assumes "table_ok V key st"
  shows "\<exists>c. iterate_all V st = (Inr (elems (table st)), st\<lparr>cache := c\<rparr>)"
proof -
  have n: "unat (tablecount st) = length (elems (table st))" using assms by (simp add: table_ok_def)
  obtain c where f: "iter_first V st = (Inr (case elems (table st) of [] \<Rightarrow> None | x # _ \<Rightarrow> Some x), st\<lparr>cache := c\<rparr>)"
    using iter_first_spec [OF assms] by blast
  show ?thesis
  proof (cases "elems (table st)")
    case Nil
    then show ?thesis using f by (auto simp: iterate_all_def op_bind_def op_return_def)
  next
    case (Cons y zs)
    then show ?thesis using iterate_spec [of "st\<lparr>cache := c\<rparr>" "[]" y zs "Suc (unat (tablecount st))"] assms f n
      by (auto simp: iterate_all_def op_bind_def)
  qed
qed

section \<open>Clearing\<close>

lemma new_spec: "table_ok V key SuperHashTable_new \<and> lookup key SuperHashTable_new = Map.empty"
  using empty_ok [OF size_ok_16] by (simp add: SuperHashTable_new_def table_ok_def lookup_def)

lemma releaseAll_spec:
  assumes "table_ok V key st"
  shows "table_ok V key (releaseAll st) \<and> lookup key (releaseAll st) = Map.empty \<and>
    events (releaseAll st) = events st @ map OnRemove (elems (table st)) \<and> tablesize (releaseAll st) = tablesize st"
proof (cases "tablecount st = 0")
  case True
  then have "elems (table st) = []" using assms by (auto simp: table_ok_def)
  then show ?thesis using True assms by (simp add: releaseAll_def lookup_def)
next
  case False
  have "length (table st) = unat (tablesize st)" "size_ok (tablesize st)" using assms by (auto simp: table_ok_def tab_ok_def)
  then show ?thesis using False empty_ok [of "tablesize st"]
    by (simp add: releaseAll_def lookup_def table_ok_def elems_def [of "table st"])
qed

lemma kill_spec:
  assumes "table_ok V key st"
  shows "table_ok V key (kill st) \<and> lookup key (kill st) = Map.empty \<and> tablesize (kill st) = InitialTableSize \<and>
    events (kill st) = events st @ map OnRemove (elems (table st))"
proof -
  note r = releaseAll_spec [OF assms]
  have "tablecount (releaseAll st) = 0"
    using assms by (cases "tablecount st = 0") (auto simp: releaseAll_def)
  then show ?thesis using r empty_ok [OF size_ok_16] by (auto simp: kill_def Let_def table_ok_def lookup_def)
qed

end

end
