(* ===== verification/Jsuperhash_Grow.thy ===== *)
theory Jsuperhash_Grow
  imports Jsuperhash_Iter
begin

text \<open>
  The sizes of a hash table: the bit trick that rounds a requested size up to a power of two, and
  making room ahead of time.
\<close>

section \<open>Rounding up to a power of two\<close>

lemma ex_less_double: "(\<exists>j<n. P j) \<or> (\<exists>j<n. P (n + j)) \<longleftrightarrow> (\<exists>j<n + n. P j)" for n :: nat
proof
  assume "\<exists>j<n + n. P j"
  then obtain j where j: "j < n + n" "P j" by blast
  show "(\<exists>j<n. P j) \<or> (\<exists>j<n. P (n + j))"
  proof (cases "j < n")
    case False
    then show ?thesis using j by (intro disjI2 exI [of _ "j - n"]) auto
  qed (use j in blast)
next
  assume "(\<exists>j<n. P j) \<or> (\<exists>j<n. P (n + j))"
  then show "\<exists>j<n + n. P j" by (metis add_strict_left_mono trans_less_add1)
qed

lemma smear_step:
  assumes "\<And>i. bit s i \<longleftrightarrow> (\<exists>j<n. bit w (i + j))"
  shows "bit (s OR drop_bit n s) i \<longleftrightarrow> (\<exists>j<n + n. bit (w :: 32 word) (i + j))"
proof -
  have "bit (s OR drop_bit n s) i \<longleftrightarrow> (\<exists>j<n. bit w (i + j)) \<or> (\<exists>j<n. bit w (i + (n + j)))"
    using assms [of i] assms [of "n + i"] by (simp add: bit_or_iff bit_drop_bit_eq ac_simps)
  also have "\<dots> \<longleftrightarrow> (\<exists>j<n + n. bit w (i + j))"
    by (rule ex_less_double)
  finally show ?thesis .
qed

definition smear :: "32 word \<Rightarrow> 32 word" where
  "smear v =
     (let v = v OR drop_bit 1 v; v = v OR drop_bit 2 v; v = v OR drop_bit 4 v; v = v OR drop_bit 8 v
      in v OR drop_bit 16 v)"

lemma nextPowerOf2_smear: "nextPowerOf2 v = smear (v - 1) + 1"
  by (simp add: nextPowerOf2_def smear_def Let_def)

lemma bit_smear: "bit (smear w) i \<longleftrightarrow> (\<exists>j<32. bit w (i + j))"
proof -
  have 0: "bit w i \<longleftrightarrow> (\<exists>j<1. bit w (i + j))" for i by simp
  note 1 = smear_step [OF 0]
  note 2 = smear_step [OF 1, unfolded one_add_one]
  show ?thesis using smear_step [OF smear_step [OF smear_step [OF 2, simplified], simplified], simplified] 
    unfolding smear_def Let_def by simp
qed

lemma smear_mask:
  assumes "w \<noteq> 0"
  obtains m where "bit w m" "m < 32" "smear w = mask (Suc m)" "2 ^ m \<le> unat w" "unat w < 2 ^ Suc m"
proof -
  have fin: "finite {j. bit w j}" by (rule finite_subset [of _ "{..<32}"]) (auto dest: bit_imp_le_length)
  have ne: "{j. bit w j} \<noteq> {}" using assms by (auto simp: bit_eq_iff)
  define m where "m = Max {j. bit w j}"
  have m: "bit w m" "\<And>j. bit w j \<Longrightarrow> j \<le> m" using Max_in [OF fin ne] Max_ge [OF fin] by (auto simp: m_def)
  have m32: "m < 32" using bit_imp_le_length [OF m(1)] by simp
  have "smear w = mask (Suc m)"
  proof (rule bit_word_eqI)
    fix i assume "i < LENGTH(32)"
    show "bit (smear w) i \<longleftrightarrow> bit (mask (Suc m) :: 32 word) i"
    proof
      assume "bit (smear w) i"
      then obtain j where "bit w (i + j)" by (auto simp: bit_smear)
      then show "bit (mask (Suc m) :: 32 word) i" using m(2) m32 by (force simp: bit_mask_iff)
    next
      assume "bit (mask (Suc m) :: 32 word) i"
      then have "i \<le> m" by (simp add: bit_mask_iff)
      then show "bit (smear w) i" using m(1) m32 by (auto simp: bit_smear intro!: exI [of _ "m - i"])
    qed
  qed
  moreover have "take_bit (Suc m) w = w" by (rule bit_word_eqI) (use m(2) in \<open>force simp: bit_take_bit_iff\<close>)
  then have "unat w < 2 ^ Suc m" by (metis unsigned_take_bit_eq take_bit_nat_less_exp)
  moreover have "2 ^ m \<le> unat w"
  proof (rule ccontr)
    assume "\<not> 2 ^ m \<le> unat w"
    then have "\<not> bit (unat w) m" by (simp add: bit_iff_odd)
    then show False using m(1) by (simp add: bit_unsigned_iff)
  qed
  ultimately show ?thesis using that m(1) m32 by blast
qed

lemma nextPowerOf2_spec:
  assumes "1 \<le> unat v" "unat v \<le> 2 ^ 31"
  shows "\<exists>k<32. nextPowerOf2 v = 2 ^ k \<and> unat v \<le> 2 ^ k \<and> (2 :: nat) ^ k < 2 * unat v"
proof (cases "v = 1")
  case True
  then show ?thesis by (intro exI [of _ 0]) (simp add: nextPowerOf2_smear smear_def)
next
  case False
  then have "v - 1 \<noteq> 0" by simp
  then obtain m where m: "m < 32" "smear (v - 1) = mask (Suc m)" "2 ^ m \<le> unat (v - 1)" "unat (v - 1) < 2 ^ Suc m"
    using smear_mask by blast
  have "v \<noteq> 0" using assms(1) by auto
  then have u: "unat (v - 1) = unat v - 1" by (rule unat_minus_one)
  have "(2 :: nat) ^ m < 2 ^ 31" using m(3) u assms by linarith
  then have "m < 31" by (simp only: power_less_imp_less_exp power_strict_increasing_iff)
  moreover have "nextPowerOf2 v = 2 ^ Suc m" using m(2) by (simp add: nextPowerOf2_smear mask_eq_exp_minus_1)
  ultimately show ?thesis using m(3,4) u assms(1) by (intro exI [of _ "Suc m"]) auto
qed

section \<open>Initial size and room ahead of time\<close>

lemma init_size:
  assumes "unat n \<le> 2 ^ 31"
  shows "size_ok (tablesize (init n st))" "unat n \<le> unat (tablesize (init n st))"
proof -
  let ?n = "if n = 0 then InitialTableSize else n"
  have "1 \<le> unat ?n" by (simp add: Suc_le_eq unat_gt_0)
  then obtain k where k: "k < 32" "nextPowerOf2 ?n = 2 ^ k" "unat ?n \<le> 2 ^ k" using nextPowerOf2_spec [of ?n] assms by (auto split: if_splits)
  have e: "tablesize (init n st) = 2 ^ k" using k(2) by (simp add: init_def Let_def)
  then show "size_ok (tablesize (init n st))" using k(1) by (auto simp: size_ok_def)
  show "unat n \<le> unat (tablesize (init n st))" using e k(3) unat_pow2 [OF k(1)] by (auto split: if_splits)
qed

lemma init_spec:
  assumes "unat n \<le> 2 ^ 31"
  shows "table_ok V key (init n st)" "lookup key (init n st) = Map.empty"
proof -
  have "table (init n st) = replicate (unat (tablesize (init n st))) None" "tablecount (init n st) = 0"
    by (simp_all add: init_def Let_def)
  then show "table_ok V key (init n st)" "lookup key (init n st) = Map.empty"
    using empty_ok [OF init_size(1) [OF assms]] by (simp_all add: table_ok_def lookup_def)
qed

text \<open>The loop of \<^verbatim>\<open>ensure\<close> ends: the size doubles until it is enough or wraps to zero.\<close>

lemma ensure_loop_spec:
  assumes "size_ok oldsize" "oldsize \<le> n" "n = 2 ^ k" "k < 32" "32 - k < fuel"
  shows "(\<exists>m. ensure_loop V mincount oldsize fuel n = Inr m \<and> size_ok m \<and> oldsize \<le> m \<and> mincount \<le> getTableLimit V m) \<or>
    ensure_loop V mincount oldsize fuel n = Inl (Thrown 0)"
  using assms(2-5)
proof (induction fuel arbitrary: n k)
  case (Suc fuel)
  show ?case
  proof (cases "k = 31")
    case True
    then have "n + n = 0" using Suc.prems(2) by simp
    moreover have "0 < oldsize" using assms(1) by (auto simp: word_gt_0 elim: size_okD)
    ultimately show ?thesis by simp
  next
    case False
    then have k: "Suc k < 32" using Suc.prems(3) by simp
    have n: "n + n = 2 ^ Suc k" using Suc.prems(2) by simp
    have "n \<noteq> 2 ^ 31"
    proof
      assume "n = 2 ^ 31"
      then have "(2 :: nat) ^ k = 2 ^ 31" using Suc.prems(2,3) unat_pow2 [of k] unat_pow2 [of 31] by simp
      then have "k = 31" by (simp only: power_inject_exp)
      then show False using False by simp
    qed
    moreover have "size_ok n" using Suc.prems(2,3) by (auto simp: size_ok_def)
    ultimately have s: "size_ok (n + n)" "oldsize \<le> n + n" using size_ok_double [of n] Suc.prems(1) by auto
    show ?thesis
    proof (cases "mincount \<le> getTableLimit V (n + n)")
      case True
      then show ?thesis using s by (simp add: Let_def not_less)
    next
      case False
      have "32 - Suc k < fuel" using Suc.prems(4) k by linarith
      then show ?thesis using False Suc.IH [OF s(2) n k] s(2) by (simp add: Let_def not_less)
    qed
  qed
qed simp

lemma ensure_spec:
  assumes "table_ok V key st"
  shows "(\<exists>st'. ensure V mincount st = (Inr (), st') \<and> table_ok V key st' \<and> lookup key st' = lookup key st \<and>
      mincount \<le> getTableLimit V (tablesize st') \<and> events st' = events st) \<or>
    ensure V mincount st = (Inl (Thrown 0), st)"
proof (cases "mincount \<le> getTableLimit V (tablesize st)")
  case True
  then show ?thesis using assms by (simp add: ensure_def)
next
  case False
  have s: "size_ok (tablesize st)" and d: "distinct (map key (elems (table st)))" using assms by (auto simp: table_ok_def tab_ok_def)
  obtain k where k: "k < 32" "tablesize st = 2 ^ k" by (rule size_okD [OF s])
  have fuel: "32 - k < 33" by linarith
  consider (ok) m where "ensure_loop V mincount (tablesize st) 33 (tablesize st) = Inr m" "size_ok m" "tablesize st \<le> m" "mincount \<le> getTableLimit V m"
    | (thrown) "ensure_loop V mincount (tablesize st) 33 (tablesize st) = Inl (Thrown 0)"
    using ensure_loop_spec [OF s order.refl k(2,1), of 33 V mincount] fuel by blast
  then show ?thesis
  proof cases
    case ok
    obtain tab where e: "expand_to V m st = (Inr (), st\<lparr>table := tab, tablesize := m\<rparr>)"
      "table_ok V key (st\<lparr>table := tab, tablesize := m\<rparr>)" "mset (elems tab) = mset (elems (table st))"
      by (rule expand_to_spec [OF assms ok(2,3)])
    have "lookup key (st\<lparr>table := tab, tablesize := m\<rparr>) = lookup key st"
      using lookup_cong [of st "st\<lparr>table := tab, tablesize := m\<rparr>" key] e(3) d by simp
    then show ?thesis using False ok e by (simp add: ensure_def op_bind_def op_res_def)
  next
    case thrown
    then show ?thesis using False by (simp add: ensure_def op_bind_def op_res_def)
  qed
qed

end
