(* ===== verification/Jhash.thy ===== *)
theory Jhash
  imports Jsuperhash_Grow
begin

text \<open>
  The hash functions of system/jlib/jhash.cpp, the key comparison and key hash of class \<^verbatim>\<open>HashTable\<close>, and
  the virtual methods of the table of elements with a string key (\<^verbatim>\<open>StringSuperHashTableOf\<close> in
  jsuperhash.hpp), which satisfy the contract of the hash table.

  A pointer to bytes is the list of the bytes from it on; what follows the list is zero bytes, so the
  list of a C string needs no terminator.
\<close>

section \<open>Hash functions\<close>

type_synonym bytes = "8 word list"

definition HASHONE :: "32 word \<Rightarrow> 8 word \<Rightarrow> 32 word" where
  "HASHONE hash c = (hash * 0x01000193) XOR ucast c"

definition byte_at :: "bytes \<Rightarrow> 8 word" where
  "byte_at k = (case k of [] \<Rightarrow> 0 | c # _ \<Rightarrow> c)"

text \<open>The switch that falls through, and the unrolled loop before it; \<open>f\<close> is what is done to a byte.\<close>

primrec hash_switch :: "(8 word \<Rightarrow> 8 word) \<Rightarrow> nat \<Rightarrow> bytes \<Rightarrow> 32 word \<Rightarrow> 32 word" where
  "hash_switch f 0 k hash = hash"
| "hash_switch f (Suc n) k hash = hash_switch f n (tl k) (HASHONE hash (f (byte_at k)))"

function hash_block :: "(8 word \<Rightarrow> 8 word) \<Rightarrow> nat \<Rightarrow> bytes \<Rightarrow> 32 word \<Rightarrow> 32 word" where
  "hash_block f len k hash =
     (if 8 \<le> len
      then let hash = HASHONE hash (f (byte_at k)); k = tl k;
               hash = HASHONE hash (f (byte_at k)); k = tl k;
               hash = HASHONE hash (f (byte_at k)); k = tl k;
               hash = HASHONE hash (f (byte_at k)); k = tl k
           in hash_block f (len - 4) k hash
      else hash_switch f len k hash)"
  by auto
termination
  by (relation "measure (\<lambda>(f, len, k, hash). len)") auto

declare hash_block.simps [simp del]

definition hashc :: "bytes \<Rightarrow> nat \<Rightarrow> 32 word \<Rightarrow> 32 word" where
  "hashc k len initval = hash_block (\<lambda>c. c) len k initval"

definition hashnc :: "bytes \<Rightarrow> nat \<Rightarrow> 32 word \<Rightarrow> 32 word" where
  "hashnc k len initval = hash_block (\<lambda>c. c AND 0xdf) len k initval"

fun hashcz :: "bytes \<Rightarrow> 32 word \<Rightarrow> 32 word" where
  "hashcz [] hash = hash"
| "hashcz (c # k) hash = (if c = 0 then hash else hashcz k (HASHONE hash c))"

fun hashncz :: "bytes \<Rightarrow> 32 word \<Rightarrow> 32 word" where
  "hashncz [] hash = hash"
| "hashncz (c # k) hash = (if c = 0 then hash else hashncz k (HASHONE hash (c AND 0xdf)))"

primrec doHashValue :: "nat \<Rightarrow> 64 word \<Rightarrow> 32 word \<Rightarrow> 32 word" where
  "doHashValue 0 v hash = hash"
| "doHashValue (Suc n) v hash = doHashValue n (drop_bit 8 v) (HASHONE hash (ucast v))"

definition hashvalue32 :: "32 word \<Rightarrow> 32 word \<Rightarrow> 32 word" where
  "hashvalue32 v initval = doHashValue 4 (ucast v) initval"

definition hashvalue64 :: "64 word \<Rightarrow> 32 word \<Rightarrow> 32 word" where
  "hashvalue64 v initval = doHashValue 8 v initval"

section \<open>Keys of class HashTable\<close>

abbreviation PSTRINGDATA :: int where "PSTRINGDATA \<equiv> - (2 ^ 31)"

definition toupper :: "8 word \<Rightarrow> 8 word" where
  "toupper c = (if 0x61 \<le> c \<and> c \<le> 0x7a then c - 0x20 else c)"

primrec mem_bytes :: "bytes \<Rightarrow> nat \<Rightarrow> bytes" where
  "mem_bytes k 0 = []"
| "mem_bytes k (Suc n) = byte_at k # mem_bytes (tl k) n"

definition cstr :: "bytes \<Rightarrow> bytes" where
  "cstr k = takeWhile (\<lambda>c. c \<noteq> 0) k"

fun keyeq_nocase :: "bytes \<Rightarrow> bytes \<Rightarrow> bool" where
  "keyeq_nocase k1 k2 =
     (let c1 = toupper (byte_at k1) in
      if c1 \<noteq> toupper (byte_at k2) then False
      else if c1 = 0 then True
      else case k1 of [] \<Rightarrow> True | _ # k1 \<Rightarrow> keyeq_nocase k1 (tl k2))"

declare keyeq_nocase.simps [simp del]

definition keyeq :: "bool \<Rightarrow> bytes \<Rightarrow> bytes \<Rightarrow> int \<Rightarrow> bool" where
  "keyeq ignorecase key1 key2 ksize =
     (if ksize \<le> 0 then
        if ksize = PSTRINGDATA then mem_bytes key1 (unat (byte_at key1)) = mem_bytes key2 (unat (byte_at key1))
        else
          let ksm = nat (- ksize) in
          if ksize < 0 \<and> mem_bytes key1 ksm \<noteq> mem_bytes key2 ksm then False
          else
            let key1 = drop ksm key1; key2 = drop ksm key2 in
            if ignorecase then keyeq_nocase key1 key2 else cstr key1 = cstr key2
      else mem_bytes key1 (nat ksize) = mem_bytes key2 (nat ksize))"

definition hash_key :: "bool \<Rightarrow> bytes \<Rightarrow> int \<Rightarrow> 32 word" where
  "hash_key ignorecase key ksize =
     (let h = 0x811C9DC5;
          h = (if ksize \<le> 0 \<and> ksize \<noteq> PSTRINGDATA
               then let h = (if ksize < 0 then hashc key (nat (- ksize)) h else h);
                        ks = drop (nat (- ksize)) key
                    in if ignorecase then hashncz ks h else hashcz ks h
               else let ksize = (if ksize = PSTRINGDATA then unat (byte_at key) + 1 else nat ksize)
                    in if ignorecase then hashnc key ksize h else hashc key ksize h)
      in h * 0x01000193)"

section \<open>Tables of elements with string keys\<close>

text \<open>The element's \<^verbatim>\<open>queryFindString\<close> is the argument.\<close>

definition StringSuperHashTableOf :: "('e \<Rightarrow> bytes) \<Rightarrow> ('e, bytes) vtable" where
  "StringSuperHashTableOf queryFindString =
     \<lparr>getHashFromElement = (\<lambda>et. hashcz (queryFindString et) 0),
      getHashFromFindParam = (\<lambda>fp. hashcz fp 0),
      getFindParam = queryFindString,
      getTableLimit = base_getTableLimit,
      matchesFindParam = (\<lambda>et fp fphash. cstr (queryFindString et) = cstr fp),
      matchesElement = base_matchesElement\<rparr>"

section \<open>Reference definitions\<close>

lemma byte_at_simps [simp]: "byte_at [] = 0" "byte_at (c # k) = c"
  by (simp_all add: byte_at_def)

lemma hash_switch_fold: "hash_switch f n k h = foldl (\<lambda>h c. HASHONE h (f c)) h (mem_bytes k n)"
  by (induction n arbitrary: k h) simp_all

lemma hash_block_fold: "hash_block f len k h = foldl (\<lambda>h c. HASHONE h (f c)) h (mem_bytes k len)"
proof (induction f len k h rule: hash_block.induct)
  case (1 f len k h)
  show ?case
  proof (cases "8 \<le> len")
    case True
    then have "len = Suc (Suc (Suc (Suc (len - 4))))" by simp
    then have "mem_bytes k len = byte_at k # byte_at (tl k) # byte_at (tl (tl k)) # byte_at (tl (tl (tl k))) #
        mem_bytes (tl (tl (tl (tl k)))) (len - 4)" by (metis mem_bytes.simps(2))
    then show ?thesis using True 1 by (subst hash_block.simps) (simp add: Let_def)
  next
    case False
    then show ?thesis by (subst hash_block.simps) (simp add: hash_switch_fold)
  qed
qed

lemma hashcz_fold: "hashcz k h = foldl HASHONE h (cstr k)"
  by (induction k h rule: hashcz.induct) (simp_all add: cstr_def)

lemma hashncz_fold: "hashncz k h = foldl HASHONE h (map (\<lambda>c. c AND 0xdf) (cstr k))"
  by (induction k h rule: hashncz.induct) (simp_all add: cstr_def)

text \<open>Upper case decides the byte that is hashed.\<close>

lemma toupper_zero: "toupper c = 0 \<longleftrightarrow> c = 0"
  by (auto simp: toupper_def word_le_nat_alt)

lemma toupper_0 [simp]: "toupper 0 = 0"
  by (simp add: toupper_zero)

lemma toupper_mask: "toupper c AND 0xdf = c AND 0xdf"
proof -
  have "\<forall>c\<in>set (map word_of_nat [0..<256]). toupper (c :: 8 word) AND 0xdf = c AND 0xdf" by code_simp
  moreover have "c \<in> set (map word_of_nat [0..<256])"
    using unsigned_less [of c] by (auto intro!: image_eqI [of _ _ "unat c"])
  ultimately show ?thesis by blast
qed

lemma keyeq_nocase_iff: "keyeq_nocase k1 k2 \<longleftrightarrow> map toupper (cstr k1) = map toupper (cstr k2)"
proof (induction k1 arbitrary: k2)
  case Nil
  then show ?case by (cases k2) (auto simp: keyeq_nocase.simps [of "[]"] cstr_def toupper_zero eq_commute [of 0 "toupper _"] Let_def)
next
  case (Cons c k1)
  then show ?case
    by (cases k2) (auto simp: keyeq_nocase.simps [of "c # k1"] cstr_def toupper_zero Let_def)
qed

section \<open>The contract of the hash table\<close>

text \<open>Keys that class \<^verbatim>\<open>HashTable\<close> takes for equal have the same hash, except for length-prefixed strings.\<close>

lemma nocase_bytes:
  assumes "map toupper xs = map toupper ys"
  shows "map (\<lambda>c. c AND 0xdf) xs = map (\<lambda>c. c AND 0xdf) ys"
proof -
  have "map (\<lambda>c. c AND 0xdf) zs = map (\<lambda>c. c AND 0xdf) (map toupper zs)" for zs by (simp add: toupper_mask)
  then show ?thesis using assms by metis
qed

lemma keyeq_hash:
  assumes "ksize \<noteq> PSTRINGDATA" "keyeq ignorecase k1 k2 ksize"
  shows "hash_key ignorecase k1 ksize = hash_key ignorecase k2 ksize"
proof (cases "ksize \<le> 0")
  case False
  then have "mem_bytes k1 (nat ksize) = mem_bytes k2 (nat ksize)" using assms by (simp add: keyeq_def)
  then show ?thesis using False assms(1) by (simp add: hash_key_def Let_def hashc_def hashnc_def hash_block_fold)
next
  case True
  let ?n = "nat (- ksize)"
  have m: "mem_bytes k1 ?n = mem_bytes k2 ?n" if "ksize < 0"
    using assms True that by (auto simp: keyeq_def Let_def split: if_splits)
  have "if ignorecase then keyeq_nocase (drop ?n k1) (drop ?n k2) else cstr (drop ?n k1) = cstr (drop ?n k2)"
    using assms True by (auto simp: keyeq_def Let_def split: if_splits)
  then have "if ignorecase then hashncz (drop ?n k1) h = hashncz (drop ?n k2) h else hashcz (drop ?n k1) h = hashcz (drop ?n k2) h" for h
    by (auto simp: keyeq_nocase_iff hashncz_fold hashcz_fold dest: nocase_bytes split: if_splits)
  then show ?thesis using True assms(1) m by (auto simp: hash_key_def Let_def hashc_def hash_block_fold split: if_splits)
qed

lemma base_limit: "size_ok n \<Longrightarrow> base_getTableLimit n < n"
proof -
  assume "size_ok n"
  then obtain k where k: "unat n = 2 ^ k" "0 < unat n" by (rule size_okD)
  have "unat (n * 3) \<le> unat n * 3" by (simp add: unat_word_ariths)
  then have "unat (n * 3) div 4 \<le> unat n * 3 div 4" by (rule div_le_mono)
  also have "\<dots> < unat n" using k(2) by linarith
  finally show ?thesis by (simp add: base_getTableLimit_def word_less_nat_alt unat_div)
qed

interpretation strtab: hashed "StringSuperHashTableOf q" "\<lambda>e. cstr (q e)" cstr for q
  by unfold_locales (simp_all add: StringSuperHashTableOf_def hashcz_fold base_limit)

end
