(* ===== verification/Jsuperhash_Theorems.thy ===== *)
theory Jsuperhash_Theorems
  imports Jhash
begin

text \<open>
  What the hash table promises: it implements a finite map from keys to elements, for any sequence
  of its operations, and its iterators visit every element once.
\<close>

section \<open>Sequences of operations\<close>

datatype ('e, 'p) hcmd =
  CAdd 'e | CReplace 'e | CAddOrFind 'e | CFind 'p | CRemove 'p | CRemoveExact 'e | CReleaseAll | CKill

datatype 'e hres = RBool bool | RElem "'e option" | RUnit

fun run_cmd :: "('e, 'p) vtable \<Rightarrow> ('e, 'p) hcmd \<Rightarrow> ('e, 'e hres) hop" where
  "run_cmd V (CAdd e) = op_bind (add V e) (\<lambda>b. op_return (RBool b))"
| "run_cmd V (CReplace e) = op_bind (replace V e) (\<lambda>b. op_return (RBool b))"
| "run_cmd V (CAddOrFind e) = op_bind (addOrFind V e) (\<lambda>x. op_return (RElem (Some x)))"
| "run_cmd V (CFind p) = op_bind (find_param V p) (\<lambda>x. op_return (RElem x))"
| "run_cmd V (CRemove p) = op_bind (remove V p) (\<lambda>b. op_return (RBool b))"
| "run_cmd V (CRemoveExact e) = op_bind (removeExact V (Some e)) (\<lambda>b. op_return (RBool b))"
| "run_cmd V CReleaseAll = (\<lambda>st. (Inr RUnit, releaseAll st))"
| "run_cmd V CKill = (\<lambda>st. (Inr RUnit, kill st))"

text \<open>The map that the table stands for.\<close>

fun abs_cmd :: "('e \<Rightarrow> 'k) \<Rightarrow> ('p \<Rightarrow> 'k) \<Rightarrow> ('e, 'p) hcmd \<Rightarrow> ('k \<Rightarrow> 'e option) \<Rightarrow> 'e hres \<times> ('k \<Rightarrow> 'e option)" where
  "abs_cmd key pkey (CAdd e) m = (case m (key e) of None \<Rightarrow> (RBool True, m(key e \<mapsto> e)) | Some _ \<Rightarrow> (RBool False, m))"
| "abs_cmd key pkey (CReplace e) m = (RBool True, m(key e \<mapsto> e))"
| "abs_cmd key pkey (CAddOrFind e) m =
     (case m (key e) of None \<Rightarrow> (RElem (Some e), m(key e \<mapsto> e)) | Some x \<Rightarrow> (RElem (Some x), m))"
| "abs_cmd key pkey (CFind p) m = (RElem (m (pkey p)), m)"
| "abs_cmd key pkey (CRemove p) m = (RBool (m (pkey p) \<noteq> None), m(pkey p := None))"
| "abs_cmd key pkey (CRemoveExact e) m = (if m (key e) = Some e then (RBool True, m(key e := None)) else (RBool False, m))"
| "abs_cmd key pkey CReleaseAll m = (RUnit, Map.empty)"
| "abs_cmd key pkey CKill m = (RUnit, Map.empty)"

inductive reachable :: "('e, 'p) vtable \<Rightarrow> 'e SuperHashTable \<Rightarrow> bool" for V where
  reach_new: "reachable V SuperHashTable_new"
| reach_init: "unat n \<le> 2 ^ 31 \<Longrightarrow> reachable V (init n SuperHashTable_new)"
| reach_cmd: "reachable V st \<Longrightarrow> reachable V (snd (run_cmd V c st))"

context hashed
begin

text \<open>What a step may do: the step of the map, or the exception of a full table of the largest size.\<close>

definition refines :: "('e, 'p) hcmd \<Rightarrow> 'e SuperHashTable \<Rightarrow> bool" where
  "refines c st \<longleftrightarrow> (\<exists>st'. run_cmd V c st = (Inr (fst (abs_cmd key pkey c (lookup key st))), st') \<and> table_ok V key st' \<and>
      lookup key st' = snd (abs_cmd key pkey c (lookup key st))) \<or>
    (\<exists>st'. run_cmd V c st = (Inl (Thrown 0), st') \<and> table_ok V key st' \<and> lookup key st' = lookup key st \<and> tablesize st = 2 ^ 31)"

lemma in_elems_iff: "table_ok V key st \<Longrightarrow> e \<in> set (elems (table st)) \<longleftrightarrow> lookup key st (key e) = Some e"
  using lookup_iff [of key st "key e" e] by (simp add: table_ok_def tab_ok_def)

lemma add_refines:
  assumes "table_ok V key st"
  shows "refines (CAdd e) st" "refines (CReplace e) st"
proof -
  have full: "\<exists>st'. doAdd V e r st = (Inl (Thrown 0), st') \<and> table_ok V key st' \<and> lookup key st' = lookup key st \<and> tablesize st = 2 ^ 31"
    if "lookup key st (key e) = None" "\<not> room st" for r
    using add_full_spec(1) [OF assms that] assms that(2) by (force simp: room_def)
  show "refines (CAdd e) st"
  proof (cases "lookup key st (key e)")
    case None
    then show ?thesis using add_new_spec(1) [OF assms None, of False] full [OF None, of False]
      by (cases "room st") (auto simp: refines_def add_def op_bind_def op_return_def)
  next
    case (Some x)
    then show ?thesis using add_old_spec(1) [OF assms Some] assms by (auto simp: refines_def add_def op_bind_def op_return_def)
  qed
  show "refines (CReplace e) st"
  proof (cases "lookup key st (key e)")
    case None
    then show ?thesis using add_new_spec(1) [OF assms None, of True] full [OF None, of True]
      by (cases "room st") (auto simp: refines_def replace_def op_bind_def op_return_def)
  next
    case (Some x)
    then show ?thesis using add_old_spec(3) [OF assms Some] by (auto simp: refines_def replace_def op_bind_def op_return_def)
  qed
qed

lemma addOrFind_refines:
  assumes "table_ok V key st"
  shows "refines (CAddOrFind e) st"
proof (cases "lookup key st (key e)")
  case None
  show ?thesis
  proof (cases "room st")
    case True
    then show ?thesis using add_new_spec(2) [OF assms None] None by (auto simp: refines_def op_bind_def op_return_def)
  next
    case False
    then show ?thesis using add_full_spec(2) [OF assms None False] None assms by (auto simp: refines_def room_def op_bind_def)
  qed
next
  case (Some x)
  then show ?thesis using add_old_spec(2) [OF assms Some] assms by (auto simp: refines_def op_bind_def op_return_def)
qed

lemma remove_refines:
  assumes "table_ok V key st"
  shows "refines (CRemove p) st" "refines (CRemoveExact e) st"
proof -
  show "refines (CRemove p) st"
  proof (cases "lookup key st (pkey p)")
    case None
    then show ?thesis using remove_spec(1) [OF assms None] assms
      by (auto simp: refines_def op_bind_def op_return_def fun_upd_idem)
  next
    case (Some x)
    then show ?thesis using remove_spec(2) [OF assms Some] by (auto simp: refines_def op_bind_def op_return_def)
  qed
  show "refines (CRemoveExact e) st"
    using removeExact_spec [OF assms, of e] in_elems_iff [OF assms, of e] assms
    by (cases "lookup key st (key e) = Some e") (auto simp: refines_def op_bind_def op_return_def)
qed

lemma cmd_refines:
  assumes "table_ok V key st"
  shows "refines c st"
proof (cases c)
  case (CFind p)
  then show ?thesis using find_spec(1) [OF assms, of p] assms by (auto simp: refines_def op_bind_def op_return_def)
next
  case CReleaseAll
  then show ?thesis using releaseAll_spec [OF assms] by (simp add: refines_def)
next
  case CKill
  then show ?thesis using kill_spec [OF assms] by (simp add: refines_def)
qed (simp_all add: add_refines addOrFind_refines remove_refines assms)

lemma reachable_ok: "reachable V st \<Longrightarrow> table_ok V key st"
proof (induction rule: reachable.induct)
  case (reach_cmd st c)
  then show ?case using cmd_refines [of st c] by (auto simp: refines_def)
qed (simp_all add: new_spec init_spec)

end

section \<open>Theorems\<close>

text \<open>
  C1. A table of elements with string keys, after any sequence of operations, is a finite map: the next
  operation returns what the map gives and leaves the table of the updated map, or throws because a
  table of the largest size, 2 to the 31, is full, and leaves the map as it is. In particular every
  search and every closing of a gap ends, and no access leaves the table.
\<close>

theorem string_table_refines:
  assumes "reachable (StringSuperHashTableOf q) st"
  shows "(\<exists>st'. run_cmd (StringSuperHashTableOf q) c st = (Inr (fst (abs_cmd (\<lambda>e. cstr (q e)) cstr c (lookup (\<lambda>e. cstr (q e)) st))), st') \<and>
      lookup (\<lambda>e. cstr (q e)) st' = snd (abs_cmd (\<lambda>e. cstr (q e)) cstr c (lookup (\<lambda>e. cstr (q e)) st))) \<or>
    (\<exists>st'. run_cmd (StringSuperHashTableOf q) c st = (Inl (Thrown 0), st') \<and> lookup (\<lambda>e. cstr (q e)) st' = lookup (\<lambda>e. cstr (q e)) st \<and>
      tablesize st = 2 ^ 31)"
  using strtab.cmd_refines [OF strtab.reachable_ok [OF assms], of c] unfolding strtab.refines_def by blast

theorem string_table_refines_witness:
  "\<exists>st'. run_cmd (StringSuperHashTableOf snd) (CAdd (7 :: nat, [65, 66])) SuperHashTable_new = (Inr (RBool True), st') \<and>
    lookup (\<lambda>e. cstr (snd e)) st' [65, 66] = Some (7, [65, 66])"
proof -
  have "lookup (\<lambda>e. cstr (snd e)) (SuperHashTable_new :: (nat \<times> bytes) SuperHashTable) = Map.empty" using strtab.new_spec by blast
  moreover have "tablesize (SuperHashTable_new :: (nat \<times> bytes) SuperHashTable) \<noteq> 2 ^ 31" by (simp add: SuperHashTable_new_def)
  ultimately show ?thesis using string_table_refines [OF reach_new, of snd "CAdd (7 :: nat, [65, 66])"]
    by (auto simp: cstr_def)
qed

text \<open>
  C10. The invariant of a table of elements with string keys, in every state that any sequence of
  operations reaches: the size is a power of two, the count is the number of elements and leaves a
  slot empty, the keys are distinct, and there is no gap between an element and its home slot.
\<close>

theorem string_table_invariant:
  assumes "reachable (StringSuperHashTableOf q) st"
  shows "table_ok (StringSuperHashTableOf q) (\<lambda>e. cstr (q e)) st"
  using assms by (rule strtab.reachable_ok)

theorem string_table_invariant_witness:
  "table_ok (StringSuperHashTableOf snd) (\<lambda>e. cstr (snd e))
     (snd (run_cmd (StringSuperHashTableOf snd) (CRemove [65]) (snd (run_cmd (StringSuperHashTableOf snd) (CAdd (7 :: nat, [65])) SuperHashTable_new))))"
  by (rule string_table_invariant, intro reach_cmd reach_new)

text \<open>
  C11. The loop over an iterator ends after visiting every element of the table exactly once, and
  leaves the table as it was but for its cached index.
\<close>

theorem string_table_iterates:
  assumes "reachable (StringSuperHashTableOf q) st"
  shows "\<exists>es c. iterate_all (StringSuperHashTableOf q) st = (Inr es, st\<lparr>cache := c\<rparr>) \<and> distinct es \<and>
    set es = ran (lookup (\<lambda>e. cstr (q e)) st) \<and> length es = unat (tablecount st)"
proof -
  have ok: "table_ok (StringSuperHashTableOf q) (\<lambda>e. cstr (q e)) st" by (rule strtab.reachable_ok [OF assms])
  have d: "distinct (map (\<lambda>e. cstr (q e)) (elems (table st)))" using ok by (simp add: table_ok_def tab_ok_def)
  have "ran (lookup (\<lambda>e. cstr (q e)) st) = set (elems (table st))"
    using lookup_iff [OF d] by (auto simp: ran_def)
  then show ?thesis using strtab.iterate_all_spec [OF ok] d ok by (auto simp: distinct_map table_ok_def)
qed

theorem string_table_iterates_witness:
  "\<exists>es c. iterate_all (StringSuperHashTableOf snd) (snd (run_cmd (StringSuperHashTableOf snd) (CAdd (7 :: nat, [65])) SuperHashTable_new)) =
     (Inr es, c) \<and> distinct es"
  using string_table_iterates [OF reach_cmd [OF reach_new], of snd "CAdd (7 :: nat, [65])"] by blast

text \<open>
  C32. \<^verbatim>\<open>nextPowerOf2\<close> of a number from 1 to 2 to the 31 is the least power of two that is not smaller; the
  shifts and ors set exactly the bits below the highest one.
\<close>

theorem nextPowerOf2_correct:
  assumes "1 \<le> unat v" "unat v \<le> 2 ^ 31"
  shows "\<exists>k<32. nextPowerOf2 v = 2 ^ k \<and> unat v \<le> 2 ^ k \<and> (2 :: nat) ^ k < 2 * unat v"
  using assms by (rule nextPowerOf2_spec)

theorem nextPowerOf2_correct_witness: "nextPowerOf2 2000 = 2048"
proof -
  obtain k where k: "nextPowerOf2 2000 = 2 ^ k" "(2000 :: nat) \<le> 2 ^ k" "(2 :: nat) ^ k < 4000"
    using nextPowerOf2_correct [of 2000] by auto
  have "(2 :: nat) ^ 10 < 2 ^ k" "(2 :: nat) ^ k < 2 ^ 12" using k(2,3) by simp_all
  then have "k = 11" by (simp only: power_strict_increasing_iff)
  then show ?thesis using k(1) by simp
qed

text \<open>
  The unrolled hash functions on blocks hash the bytes one after the other: four at a time, then
  the last seven or fewer in a switch that falls through.
\<close>

lemma hashc_correct:
  "hashc k len initval = foldl HASHONE initval (mem_bytes k len) \<and>
   hashnc k len initval = foldl HASHONE initval (map (\<lambda>c. c AND 0xdf) (mem_bytes k len))"
  by (simp add: hashc_def hashnc_def hash_block_fold foldl_map)

text \<open>
  Class \<^verbatim>\<open>HashTable\<close>: keys that compare equal have the same hash, whatever the key size and with or
  without case, except for keys that are length-prefixed strings.
\<close>

lemma keyeq_hash_correct:
  assumes "ksize \<noteq> PSTRINGDATA" "keyeq ignorecase k1 k2 ksize"
  shows "hash_key ignorecase k1 ksize = hash_key ignorecase k2 ksize"
  using assms by (rule keyeq_hash)






end
