(* ===== verification/Rtlint.thy ===== *)
theory Rtlint
  imports Jhash
begin

text \<open>
  Integers of one to eight bytes in memory (rtl/eclrtl/rtlint.cpp, eclrtl.hpp, jmisc.hpp): reading,
  writing and casting, in the byte order of the machine, little endian, and in the other order.

  Memory is the list of bytes from the pointer on. A read or write through a wider pointer is a load
  or a store of the little endian bytes; a value that does not fit the result type of a C++ function
  is converted as C++ does. The branch for other compilers than MSVC is the one modelled.
\<close>

section \<open>Loads and stores\<close>

definition mem :: "bytes \<Rightarrow> nat \<Rightarrow> 8 word" where
  "mem data i = (if i < length data then data ! i else 0)"

definition load16 :: "bytes \<Rightarrow> nat \<Rightarrow> 16 word" where
  "load16 data i = ucast (mem data i) OR push_bit 8 (ucast (mem data (i + 1)))"

definition load32 :: "bytes \<Rightarrow> nat \<Rightarrow> 32 word" where
  "load32 data i = ucast (load16 data i) OR push_bit 16 (ucast (load16 data (i + 2)))"

definition load64 :: "bytes \<Rightarrow> nat \<Rightarrow> 64 word" where
  "load64 data i = ucast (load32 data i) OR push_bit 32 (ucast (load32 data (i + 4)))"

definition store8 :: "bytes \<Rightarrow> nat \<Rightarrow> 8 word \<Rightarrow> bytes" where
  "store8 data i v = data[i := v]"

definition store16 :: "bytes \<Rightarrow> nat \<Rightarrow> 16 word \<Rightarrow> bytes" where
  "store16 data i v = store8 (store8 data i (ucast v)) (i + 1) (ucast (drop_bit 8 v))"

definition store32 :: "bytes \<Rightarrow> nat \<Rightarrow> 32 word \<Rightarrow> bytes" where
  "store32 data i v = store16 (store16 data i (ucast v)) (i + 2) (ucast (drop_bit 16 v))"

definition store64 :: "bytes \<Rightarrow> nat \<Rightarrow> 64 word \<Rightarrow> bytes" where
  "store64 data i v = store32 (store32 data i (ucast v)) (i + 4) (ucast (drop_bit 32 v))"

text \<open>A local variable of the given size, as memory.\<close>

definition var16 :: "16 word \<Rightarrow> bytes" where "var16 v = store16 (replicate 2 0) 0 v"

definition var32 :: "32 word \<Rightarrow> bytes" where "var32 v = store32 (replicate 4 0) 0 v"

definition var64 :: "64 word \<Rightarrow> bytes" where "var64 v = store64 (replicate 8 0) 0 v"

section \<open>Reversed copies\<close>

definition cpyrev2 :: "bytes \<Rightarrow> bytes \<Rightarrow> bytes" where
  "cpyrev2 tgt src = tgt[1 := mem src 0, 0 := mem src 1]"

definition cpyrev3 :: "bytes \<Rightarrow> bytes \<Rightarrow> bytes" where
  "cpyrev3 tgt src = tgt[2 := mem src 0, 1 := mem src 1, 0 := mem src 2]"

definition cpyrev4 :: "bytes \<Rightarrow> bytes \<Rightarrow> bytes" where
  "cpyrev4 tgt src = tgt[3 := mem src 0, 2 := mem src 1, 1 := mem src 2, 0 := mem src 3]"

definition cpyrev5 :: "bytes \<Rightarrow> bytes \<Rightarrow> bytes" where
  "cpyrev5 tgt src = tgt[4 := mem src 0, 3 := mem src 1, 2 := mem src 2, 1 := mem src 3, 0 := mem src 4]"

definition cpyrev6 :: "bytes \<Rightarrow> bytes \<Rightarrow> bytes" where
  "cpyrev6 tgt src = tgt[5 := mem src 0, 4 := mem src 1, 3 := mem src 2, 2 := mem src 3, 1 := mem src 4, 0 := mem src 5]"

definition cpyrev7 :: "bytes \<Rightarrow> bytes \<Rightarrow> bytes" where
  "cpyrev7 tgt src = tgt[6 := mem src 0, 5 := mem src 1, 4 := mem src 2, 3 := mem src 3, 2 := mem src 4, 1 := mem src 5, 0 := mem src 6]"

definition cpyrev8 :: "bytes \<Rightarrow> bytes \<Rightarrow> bytes" where
  "cpyrev8 tgt src = tgt[7 := mem src 0, 6 := mem src 1, 5 := mem src 2, 4 := mem src 3, 3 := mem src 4, 2 := mem src 5, 1 := mem src 6, 0 := mem src 7]"

section \<open>Reading\<close>

definition rtlReadInt1 :: "bytes \<Rightarrow> 32 word" where
  "rtlReadInt1 data = scast (mem data 0)"

definition rtlReadInt2 :: "bytes \<Rightarrow> 32 word" where
  "rtlReadInt2 data = scast (load16 data 0)"

definition rtlReadInt4 :: "bytes \<Rightarrow> 32 word" where
  "rtlReadInt4 data = load32 data 0"

definition rtlReadInt8 :: "bytes \<Rightarrow> 64 word" where
  "rtlReadInt8 data = load64 data 0"

definition rtlReadUInt1 :: "bytes \<Rightarrow> 32 word" where
  "rtlReadUInt1 data = ucast (mem data 0)"

definition rtlReadUInt2 :: "bytes \<Rightarrow> 32 word" where
  "rtlReadUInt2 data = ucast (load16 data 0)"

definition rtlReadUInt4 :: "bytes \<Rightarrow> 32 word" where
  "rtlReadUInt4 data = load32 data 0"

definition rtlReadUInt8 :: "bytes \<Rightarrow> 64 word" where
  "rtlReadUInt8 data = load64 data 0"

definition rtlReadInt3 :: "bytes \<Rightarrow> 32 word" where
  "rtlReadInt3 data = push_bit 16 (scast (mem data 2)) OR ucast (load16 data 0)"

definition rtlReadUInt3 :: "bytes \<Rightarrow> 32 word" where
  "rtlReadUInt3 data = push_bit 16 (ucast (mem data 2)) OR ucast (load16 data 0)"

definition rtlReadInt5 :: "bytes \<Rightarrow> 64 word" where
  "rtlReadInt5 data = push_bit 32 (scast (mem data 4)) OR ucast (load32 data 0)"

definition rtlReadInt6 :: "bytes \<Rightarrow> 64 word" where
  "rtlReadInt6 data = push_bit 32 (scast (load16 data 4)) OR ucast (load32 data 0)"

definition rtlReadInt7 :: "bytes \<Rightarrow> 64 word" where
  "rtlReadInt7 data = push_bit 48 (scast (mem data 6)) OR push_bit 32 (ucast (load16 data 4)) OR ucast (load32 data 0)"

definition rtlReadUInt5 :: "bytes \<Rightarrow> 64 word" where
  "rtlReadUInt5 data = push_bit 32 (ucast (mem data 4)) OR ucast (load32 data 0)"

definition rtlReadUInt6 :: "bytes \<Rightarrow> 64 word" where
  "rtlReadUInt6 data = push_bit 32 (ucast (load16 data 4)) OR ucast (load32 data 0)"

definition rtlReadUInt7 :: "bytes \<Rightarrow> 64 word" where
  "rtlReadUInt7 data = push_bit 48 (ucast (mem data 6)) OR push_bit 32 (ucast (load16 data 4)) OR ucast (load32 data 0)"

section \<open>Writing\<close>

definition rtlWriteInt1 :: "bytes \<Rightarrow> 32 word \<Rightarrow> bytes" where
  "rtlWriteInt1 data v = store8 data 0 (ucast v)"

definition rtlWriteInt2 :: "bytes \<Rightarrow> 32 word \<Rightarrow> bytes" where
  "rtlWriteInt2 data v = store16 data 0 (ucast v)"

definition rtlWriteInt4 :: "bytes \<Rightarrow> 32 word \<Rightarrow> bytes" where
  "rtlWriteInt4 data v = store32 data 0 v"

definition rtlWriteInt8 :: "bytes \<Rightarrow> 64 word \<Rightarrow> bytes" where
  "rtlWriteInt8 data v = store64 data 0 v"

definition rtlWriteInt3 :: "bytes \<Rightarrow> 32 word \<Rightarrow> bytes" where
  "rtlWriteInt3 data v = store16 (store8 data 2 (ucast (drop_bit 16 v))) 0 (ucast v)"

definition rtlWriteInt5 :: "bytes \<Rightarrow> 64 word \<Rightarrow> bytes" where
  "rtlWriteInt5 data v = store32 (store8 data 4 (ucast (drop_bit 32 v))) 0 (ucast v)"

definition rtlWriteInt6 :: "bytes \<Rightarrow> 64 word \<Rightarrow> bytes" where
  "rtlWriteInt6 data v = store32 (store16 data 4 (ucast (drop_bit 32 v))) 0 (ucast v)"

definition rtlWriteInt7 :: "bytes \<Rightarrow> 64 word \<Rightarrow> bytes" where
  "rtlWriteInt7 data v =
     store32 (store16 (store8 data 6 (ucast (drop_bit 48 v))) 4 (ucast (drop_bit 32 v))) 0 (ucast v)"

section \<open>Reading in the other byte order\<close>

text \<open>\<^verbatim>\<open>rtlReadSwapInt3\<close> and \<^verbatim>\<open>rtlReadSwapInt5\<close> read the leading byte as an unsigned char.\<close>

definition rtlReadSwapInt1 :: "bytes \<Rightarrow> 32 word" where
  "rtlReadSwapInt1 data = scast (mem data 0)"

definition rtlReadSwapInt2 :: "bytes \<Rightarrow> 32 word" where
  "rtlReadSwapInt2 data = scast (load16 (cpyrev2 (var16 0) data) 0)"

definition rtlReadSwapInt3 :: "bytes \<Rightarrow> 32 word" where
  "rtlReadSwapInt3 data = load32 (cpyrev2 (var32 (push_bit 16 (ucast (mem data 0)))) (drop 1 data)) 0"

definition rtlReadSwapInt4 :: "bytes \<Rightarrow> 32 word" where
  "rtlReadSwapInt4 data = load32 (cpyrev4 (var32 0) data) 0"

definition rtlReadSwapInt5 :: "bytes \<Rightarrow> 64 word" where
  "rtlReadSwapInt5 data = load64 (cpyrev4 (var64 (push_bit 32 (ucast (mem data 0)))) (drop 1 data)) 0"

definition rtlReadSwapInt6 :: "bytes \<Rightarrow> 64 word" where
  "rtlReadSwapInt6 data = load64 (cpyrev5 (var64 (push_bit 40 (scast (mem data 0)))) (drop 1 data)) 0"

definition rtlReadSwapInt7 :: "bytes \<Rightarrow> 64 word" where
  "rtlReadSwapInt7 data = load64 (cpyrev6 (var64 (push_bit 48 (scast (mem data 0)))) (drop 1 data)) 0"

definition rtlReadSwapInt8 :: "bytes \<Rightarrow> 64 word" where
  "rtlReadSwapInt8 data = load64 (cpyrev8 (var64 0) data) 0"

definition rtlReadSwapUInt1 :: "bytes \<Rightarrow> 32 word" where
  "rtlReadSwapUInt1 data = ucast (mem data 0)"

definition rtlReadSwapUInt2 :: "bytes \<Rightarrow> 32 word" where
  "rtlReadSwapUInt2 data = ucast (load16 (cpyrev2 (var16 0) data) 0)"

definition rtlReadSwapUInt3 :: "bytes \<Rightarrow> 32 word" where
  "rtlReadSwapUInt3 data = load32 (cpyrev3 (var32 0) data) 0"

definition rtlReadSwapUInt4 :: "bytes \<Rightarrow> 32 word" where
  "rtlReadSwapUInt4 data = load32 (cpyrev4 (var32 0) data) 0"

definition rtlReadSwapUInt5 :: "bytes \<Rightarrow> 64 word" where
  "rtlReadSwapUInt5 data = load64 (cpyrev5 (var64 0) data) 0"

definition rtlReadSwapUInt6 :: "bytes \<Rightarrow> 64 word" where
  "rtlReadSwapUInt6 data = load64 (cpyrev6 (var64 0) data) 0"

definition rtlReadSwapUInt7 :: "bytes \<Rightarrow> 64 word" where
  "rtlReadSwapUInt7 data = load64 (cpyrev7 (var64 0) data) 0"

definition rtlReadSwapUInt8 :: "bytes \<Rightarrow> 64 word" where
  "rtlReadSwapUInt8 data = load64 (cpyrev8 (var64 0) data) 0"

section \<open>Writing in the other byte order\<close>

definition rtlWriteSwapInt1 :: "bytes \<Rightarrow> 32 word \<Rightarrow> bytes" where
  "rtlWriteSwapInt1 data v = store8 data 0 (ucast v)"

definition rtlWriteSwapInt2 :: "bytes \<Rightarrow> 32 word \<Rightarrow> bytes" where
  "rtlWriteSwapInt2 data v = cpyrev2 data (var32 v)"

definition rtlWriteSwapInt3 :: "bytes \<Rightarrow> 32 word \<Rightarrow> bytes" where
  "rtlWriteSwapInt3 data v = cpyrev3 data (var32 v)"

definition rtlWriteSwapInt4 :: "bytes \<Rightarrow> 32 word \<Rightarrow> bytes" where
  "rtlWriteSwapInt4 data v = cpyrev4 data (var32 v)"

definition rtlWriteSwapInt5 :: "bytes \<Rightarrow> 64 word \<Rightarrow> bytes" where
  "rtlWriteSwapInt5 data v = cpyrev5 data (var64 v)"

definition rtlWriteSwapInt6 :: "bytes \<Rightarrow> 64 word \<Rightarrow> bytes" where
  "rtlWriteSwapInt6 data v = cpyrev6 data (var64 v)"

definition rtlWriteSwapInt7 :: "bytes \<Rightarrow> 64 word \<Rightarrow> bytes" where
  "rtlWriteSwapInt7 data v = cpyrev7 data (var64 v)"

definition rtlWriteSwapInt8 :: "bytes \<Rightarrow> 64 word \<Rightarrow> bytes" where
  "rtlWriteSwapInt8 data v = cpyrev8 data (var64 v)"

section \<open>Reversing\<close>

definition rtlRevInt2 :: "bytes \<Rightarrow> 16 word" where
  "rtlRevInt2 data = load16 (cpyrev2 (var16 0) data) 0"

definition rtlRevInt3 :: "bytes \<Rightarrow> 32 word" where
  "rtlRevInt3 data = load32 (cpyrev2 (var32 (push_bit 16 (scast (mem data 0)))) (drop 1 data)) 0"

definition rtlRevInt4 :: "bytes \<Rightarrow> 32 word" where
  "rtlRevInt4 data = load32 (cpyrev4 (var32 0) data) 0"

definition rtlRevInt5 :: "bytes \<Rightarrow> 64 word" where
  "rtlRevInt5 data = load64 (cpyrev4 (var64 (push_bit 32 (scast (mem data 0)))) (drop 1 data)) 0"

definition rtlRevInt6 :: "bytes \<Rightarrow> 64 word" where
  "rtlRevInt6 data = load64 (cpyrev5 (var64 (push_bit 40 (scast (mem data 0)))) (drop 1 data)) 0"

definition rtlRevInt7 :: "bytes \<Rightarrow> 64 word" where
  "rtlRevInt7 data = load64 (cpyrev6 (var64 (push_bit 48 (scast (mem data 0)))) (drop 1 data)) 0"

definition rtlRevInt8 :: "bytes \<Rightarrow> 64 word" where
  "rtlRevInt8 data = load64 (cpyrev8 (var64 0) data) 0"

definition rtlRevUInt2 :: "bytes \<Rightarrow> 16 word" where
  "rtlRevUInt2 data = load16 (cpyrev2 (var16 0) data) 0"

definition rtlRevUInt3 :: "bytes \<Rightarrow> 32 word" where
  "rtlRevUInt3 data = load32 (cpyrev3 (var32 0) data) 0"

definition rtlRevUInt4 :: "bytes \<Rightarrow> 32 word" where
  "rtlRevUInt4 data = load32 (cpyrev4 (var32 0) data) 0"

definition rtlRevUInt5 :: "bytes \<Rightarrow> 64 word" where
  "rtlRevUInt5 data = load64 (cpyrev5 (var64 0) data) 0"

definition rtlRevUInt6 :: "bytes \<Rightarrow> 64 word" where
  "rtlRevUInt6 data = load64 (cpyrev6 (var64 0) data) 0"

definition rtlRevUInt7 :: "bytes \<Rightarrow> 64 word" where
  "rtlRevUInt7 data = load64 (cpyrev7 (var64 0) data) 0"

definition rtlRevUInt8 :: "bytes \<Rightarrow> 64 word" where
  "rtlRevUInt8 data = load64 (cpyrev8 (var64 0) data) 0"

section \<open>Casts\<close>

text \<open>A right shift of a signed value keeps the sign.\<close>

definition rtlCastUInt3 :: "32 word \<Rightarrow> 32 word" where
  "rtlCastUInt3 v = v AND 0xffffff"

definition rtlCastUInt5 :: "64 word \<Rightarrow> 64 word" where
  "rtlCastUInt5 v = v AND 0xffffffffff"

definition rtlCastUInt6 :: "64 word \<Rightarrow> 64 word" where
  "rtlCastUInt6 v = v AND 0xffffffffffff"

definition rtlCastUInt7 :: "64 word \<Rightarrow> 64 word" where
  "rtlCastUInt7 v = v AND 0xffffffffffffff"

definition rtlCastInt3 :: "32 word \<Rightarrow> 32 word" where
  "rtlCastInt3 v = signed_drop_bit 8 (push_bit 8 v)"

definition rtlCastInt5 :: "64 word \<Rightarrow> 64 word" where
  "rtlCastInt5 v = signed_drop_bit 24 (push_bit 24 v)"

definition rtlCastInt6 :: "64 word \<Rightarrow> 64 word" where
  "rtlCastInt6 v = signed_drop_bit 16 (push_bit 16 v)"

definition rtlCastInt7 :: "64 word \<Rightarrow> 64 word" where
  "rtlCastInt7 v = signed_drop_bit 8 (push_bit 8 v)"

section \<open>Any length\<close>

text \<open>Any other length throws the exception of \<^verbatim>\<open>rtlFailUnexpected\<close>.\<close>

definition rtlReadUInt :: "bytes \<Rightarrow> nat \<Rightarrow> 64 word res" where
  "rtlReadUInt data len =
     (if len = 1 then Inr (ucast (rtlReadUInt1 data))
      else if len = 2 then Inr (ucast (rtlReadUInt2 data))
      else if len = 3 then Inr (ucast (rtlReadUInt3 data))
      else if len = 4 then Inr (ucast (rtlReadUInt4 data))
      else if len = 5 then Inr (rtlReadUInt5 data)
      else if len = 6 then Inr (rtlReadUInt6 data)
      else if len = 7 then Inr (rtlReadUInt7 data)
      else if len = 8 then Inr (rtlReadUInt8 data)
      else Inl (Thrown (- 1)))"

definition rtlReadInt :: "bytes \<Rightarrow> nat \<Rightarrow> 64 word res" where
  "rtlReadInt data len =
     (if len = 1 then Inr (scast (rtlReadInt1 data))
      else if len = 2 then Inr (scast (rtlReadInt2 data))
      else if len = 3 then Inr (scast (rtlReadInt3 data))
      else if len = 4 then Inr (scast (rtlReadInt4 data))
      else if len = 5 then Inr (rtlReadInt5 data)
      else if len = 6 then Inr (rtlReadInt6 data)
      else if len = 7 then Inr (rtlReadInt7 data)
      else if len = 8 then Inr (rtlReadInt8 data)
      else Inl (Thrown (- 1)))"

definition rtlReadSwapUInt :: "bytes \<Rightarrow> nat \<Rightarrow> 64 word res" where
  "rtlReadSwapUInt data len =
     (if len = 1 then Inr (ucast (rtlReadSwapUInt1 data))
      else if len = 2 then Inr (ucast (rtlReadSwapUInt2 data))
      else if len = 3 then Inr (ucast (rtlReadSwapUInt3 data))
      else if len = 4 then Inr (ucast (rtlReadSwapUInt4 data))
      else if len = 5 then Inr (rtlReadSwapUInt5 data)
      else if len = 6 then Inr (rtlReadSwapUInt6 data)
      else if len = 7 then Inr (rtlReadSwapUInt7 data)
      else if len = 8 then Inr (rtlReadSwapUInt8 data)
      else Inl (Thrown (- 1)))"

definition rtlReadSwapInt :: "bytes \<Rightarrow> nat \<Rightarrow> 64 word res" where
  "rtlReadSwapInt data len =
     (if len = 1 then Inr (scast (rtlReadSwapInt1 data))
      else if len = 2 then Inr (scast (rtlReadSwapInt2 data))
      else if len = 3 then Inr (scast (rtlReadSwapInt3 data))
      else if len = 4 then Inr (scast (rtlReadSwapInt4 data))
      else if len = 5 then Inr (rtlReadSwapInt5 data)
      else if len = 6 then Inr (rtlReadSwapInt6 data)
      else if len = 7 then Inr (rtlReadSwapInt7 data)
      else if len = 8 then Inr (rtlReadSwapInt8 data)
      else Inl (Thrown (- 1)))"

definition rtlWriteInt :: "bytes \<Rightarrow> 64 word \<Rightarrow> nat \<Rightarrow> bytes res" where
  "rtlWriteInt data val len =
     (if len = 1 then Inr (rtlWriteInt1 data (ucast val))
      else if len = 2 then Inr (rtlWriteInt2 data (ucast val))
      else if len = 3 then Inr (rtlWriteInt3 data (ucast val))
      else if len = 4 then Inr (rtlWriteInt4 data (ucast val))
      else if len = 5 then Inr (rtlWriteInt5 data val)
      else if len = 6 then Inr (rtlWriteInt6 data val)
      else if len = 7 then Inr (rtlWriteInt7 data val)
      else if len = 8 then Inr (rtlWriteInt8 data val)
      else Inl (Thrown (- 1)))"

definition rtlWriteSwapInt :: "bytes \<Rightarrow> 64 word \<Rightarrow> nat \<Rightarrow> bytes res" where
  "rtlWriteSwapInt data val len =
     (if len = 1 then Inr (rtlWriteSwapInt1 data (ucast val))
      else if len = 2 then Inr (rtlWriteSwapInt2 data (ucast val))
      else if len = 3 then Inr (rtlWriteSwapInt3 data (ucast val))
      else if len = 4 then Inr (rtlWriteSwapInt4 data (ucast val))
      else if len = 5 then Inr (rtlWriteSwapInt5 data val)
      else if len = 6 then Inr (rtlWriteSwapInt6 data val)
      else if len = 7 then Inr (rtlWriteSwapInt7 data val)
      else if len = 8 then Inr (rtlWriteSwapInt8 data val)
      else Inl (Thrown (- 1)))"

end
