(* ===== verification/Rtlint_Proofs.thy ===== *)
theory Rtlint_Proofs
  imports Rtlint
begin

text \<open>
  What the reads, writes and casts of \<open>Rtlint\<close> compute: the reference is the number \<open>le\<close> of a list of
  bytes, least significant first, and the list \<open>le_bytes\<close> of the bytes of a number.
\<close>

section \<open>Little endian numbers\<close>

fun le :: "bytes \<Rightarrow> 64 word" where
  "le [] = 0"
| "le (b # bs) = ucast b OR push_bit 8 (le bs)"

primrec le_bytes :: "nat \<Rightarrow> 64 word \<Rightarrow> bytes" where
  "le_bytes 0 v = []"
| "le_bytes (Suc n) v = ucast v # le_bytes n (drop_bit 8 v)"

lemma le_append: "le (xs @ ys) = le xs OR push_bit (8 * length xs) (le ys)"
proof (induction xs)
  case (Cons b xs)
  have "push_bit 8 (push_bit (8 * length xs) (le ys)) = push_bit (8 * length (b # xs)) (le ys)"
    by (simp add: push_bit_push_bit)
  then show ?case using Cons by (simp add: push_bit_or or.assoc)
qed simp

lemma take_bit_le: "take_bit (8 * length xs) (le xs) = le xs"
proof (induction xs)
  case (Cons b xs)
  have "bit (take_bit (8 * length (b # xs)) (le (b # xs))) k = bit (le (b # xs)) k" for k
    using arg_cong [OF Cons, of "\<lambda>w. bit w (k - 8)"]
    by (auto simp: bit_or_iff bit_push_bit_iff bit_ucast_iff bit_take_bit_iff dest: bit_imp_le_length)
  then show ?case by (simp add: bit_eq_iff)
qed simp

lemma le_le_bytes: "le (le_bytes n v) = take_bit (8 * n) v"
proof (induction n arbitrary: v)
  case (Suc n)
  have "bit (le (le_bytes (Suc n) v)) k = bit (take_bit (8 * Suc n) v) k" for k
    by (cases "k < 8") (auto simp: Suc bit_or_iff bit_push_bit_iff bit_ucast_iff bit_take_bit_iff bit_drop_bit_eq dest: bit_imp_le_length)
  then show ?case by (simp add: bit_eq_iff)
qed simp

lemma length_le_bytes [simp]: "length (le_bytes n v) = n"
  by (induction n arbitrary: v) simp_all

section \<open>Loads and stores\<close>

lemma ucast_cat16: "(ucast (ucast a OR push_bit 8 (ucast b) :: 16 word) :: 64 word) = ucast (a :: 8 word) OR push_bit 8 (ucast (b :: 8 word))"
  by (rule bit_word_eqI) (auto simp: bit_simps dest: bit_imp_le_length)

lemma ucast_cat32: "(ucast (ucast a OR push_bit 16 (ucast b) :: 32 word) :: 64 word) = ucast (a :: 16 word) OR push_bit 16 (ucast (b :: 16 word))"
  by (rule bit_word_eqI) (auto simp: bit_simps dest: bit_imp_le_length)

lemma load16_le: "(ucast (load16 data i) :: 64 word) = le [mem data i, mem data (i + 1)]"
  by (simp add: load16_def ucast_cat16)

lemma load32_le: "(ucast (load32 data i) :: 64 word) = le [mem data i, mem data (i + 1), mem data (i + 2), mem data (i + 3)]"
  using le_append [of "[mem data i, mem data (i + 1)]" "[mem data (i + 2), mem data (i + 3)]"]
  by (simp add: load32_def ucast_cat32 load16_le numeral_3_eq_3 del: le.simps)

lemma load64_le: "load64 data i = le [mem data i, mem data (i + 1), mem data (i + 2), mem data (i + 3), mem data (i + 4), mem data (i + 5), mem data (i + 6), mem data (i + 7)]"
  using le_append [of "[mem data i, mem data (i + 1), mem data (i + 2), mem data (i + 3)]" "[mem data (i + 4), mem data (i + 5), mem data (i + 6), mem data (i + 7)]"]
  by (simp add: load64_def load32_le ac_simps del: le.simps)

lemma signed_cat:
  assumes "take_bit n x = x" "n + 8 \<le> 64"
  shows "x OR push_bit n (scast (b :: 8 word)) = signed_take_bit (n + 7) (x OR push_bit n (ucast b) :: 64 word)"
proof (rule bit_word_eqI)
  fix k assume k: "k < LENGTH(64)"
  have x: "bit x j \<Longrightarrow> j < n" for j using assms(1) by (metis bit_take_bit_iff)
  show "bit (x OR push_bit n (scast b)) k = bit (signed_take_bit (n + 7) (x OR push_bit n (ucast b) :: 64 word)) k"
  proof (cases "k < n + 8")
    case True
    then have "k < n + 7 \<or> k = n + 7" by linarith
    then show ?thesis using k assms(2) x [of k] x [of "n + 7"]
      by (auto simp: bit_or_iff bit_push_bit_iff bit_signed_take_bit_iff bit_ucast_iff bit_word_scast_iff min_def dest: bit_imp_le_length)
  next
    case False
    then have "\<not> bit b (k - n)" using bit_imp_le_length [of b "k - n"] by auto
    then show ?thesis using False k assms(2) x [of k] x [of "n + 7"]
      by (auto simp: bit_or_iff bit_push_bit_iff bit_signed_take_bit_iff bit_ucast_iff bit_word_scast_iff min_def)
  qed
qed

section \<open>Reading\<close>

definition le_mem :: "bytes \<Rightarrow> nat \<Rightarrow> 64 word" where
  "le_mem data n = le (map (mem data) [0..<n])"

lemma le_mem_take: "n \<le> length data \<Longrightarrow> le_mem data n = le (take n data)"
  unfolding le_mem_def by (rule arg_cong [of _ _ le]) (rule nth_equalityI, auto simp: mem_def)

lemma take_bit_le_mem: "take_bit (8 * n) (le_mem data n) = le_mem data n"
  unfolding le_mem_def using take_bit_le [of "map (mem data) [0..<n]"] by simp

lemma le_mem_Suc: "le_mem data (Suc n) = le_mem data n OR push_bit (8 * n) (ucast (mem data n))"
  by (simp add: le_mem_def le_append)

lemma le_mem_add: "le_mem data (n + m) = le_mem data n OR push_bit (8 * n) (le (map (mem data) [n..<n + m]))"
  unfolding le_mem_def by (subst upt_add_eq_append) (simp_all add: le_append)

lemma le_mem_signed:
  "n < 8 \<Longrightarrow> le_mem data n OR push_bit (8 * n) (scast (mem data n)) = signed_take_bit (8 * n + 7) (le_mem data (Suc n))"
  using signed_cat [OF take_bit_le_mem [of n data], of "mem data n"] by (simp add: le_mem_Suc)

lemma upt_numerals: "[0..<2] = [0, 1]" "[0..<4] = [0, 1, 2, 3]" "[0..<8] = [0, 1, 2, 3, 4, 5, 6, 7]"
  by (simp_all add: upt_rec)

lemma load_le_mem:
  "(ucast (load16 data 0) :: 64 word) = le_mem data 2" "(ucast (load32 data 0) :: 64 word) = le_mem data 4" "load64 data 0 = le_mem data 8"
  by (simp_all add: load16_le load32_le load64_le le_mem_def upt_numerals numeral_2_eq_2 del: le.simps)

lemma ucast_cat3: "(ucast (push_bit 16 (ucast b) OR ucast h :: 32 word) :: 64 word) = ucast (h :: 16 word) OR push_bit 16 (ucast (b :: 8 word))"
  by (rule bit_word_eqI) (auto simp: bit_simps dest: bit_imp_le_length)

lemma scast_cat3: "(scast (push_bit 16 (scast b) OR ucast h :: 32 word) :: 64 word) = ucast (h :: 16 word) OR push_bit 16 (scast (b :: 8 word))"
  by (rule bit_word_eqI) (auto simp: bit_or_iff bit_push_bit_iff bit_ucast_iff bit_word_scast_iff dest: bit_imp_le_length)

lemma scast_cat16: "(scast (ucast a OR push_bit 8 (ucast b) :: 16 word) :: 64 word) = ucast (a :: 8 word) OR push_bit 8 (scast (b :: 8 word))"
  by (rule bit_word_eqI) (auto simp: bit_or_iff bit_push_bit_iff bit_ucast_iff bit_word_scast_iff dest: bit_imp_le_length)

lemma scast_cat32: "(scast (ucast a OR push_bit 16 (ucast b) :: 32 word) :: 64 word) = ucast (a :: 16 word) OR push_bit 16 (scast (b :: 16 word))"
  by (rule bit_word_eqI) (auto simp: bit_or_iff bit_push_bit_iff bit_ucast_iff bit_word_scast_iff dest: bit_imp_le_length)

lemma scast_scast8: "(scast (scast (b :: 8 word) :: 32 word) :: 64 word) = scast b"
  by (rule bit_word_eqI) (auto simp: bit_word_scast_iff dest: bit_imp_le_length)

lemma scast_scast16: "(scast (scast (b :: 16 word) :: 32 word) :: 64 word) = scast b"
  by (rule bit_word_eqI) (auto simp: bit_word_scast_iff dest: bit_imp_le_length)

lemma load16_at4: "(ucast (load16 data 4) :: 64 word) = ucast (mem data 4) OR push_bit 8 (ucast (mem data 5))"
  by (simp add: load16_def ucast_cat16)

lemma scast16_at4: "(scast (load16 data 4) :: 64 word) = ucast (mem data 4) OR push_bit 8 (scast (mem data 5))"
  by (simp add: load16_def scast_cat16)

lemma scast16_at2: "(scast (load16 data 2) :: 64 word) = ucast (mem data 2) OR push_bit 8 (scast (mem data 3))"
  by (simp add: load16_def scast_cat16)

lemma le_mem_steps:
  "le_mem data 1 = ucast (mem data 0)" "le_mem data 3 = le_mem data 2 OR push_bit 16 (ucast (mem data 2))"
  "le_mem data 5 = le_mem data 4 OR push_bit 32 (ucast (mem data 4))"
  "le_mem data 6 = le_mem data 4 OR push_bit 32 (ucast (mem data 4)) OR push_bit 40 (ucast (mem data 5))"
  "le_mem data 7 = le_mem data 4 OR push_bit 32 (ucast (mem data 4)) OR push_bit 40 (ucast (mem data 5)) OR push_bit 48 (ucast (mem data 6))"
  "le_mem data 2 = ucast (mem data 0) OR push_bit 8 (ucast (mem data 1))"
  "le_mem data 4 = le_mem data 2 OR push_bit 16 (ucast (mem data 2)) OR push_bit 24 (ucast (mem data 3))"
  using le_mem_Suc [of data 0] le_mem_Suc [of data 1] le_mem_Suc [of data 2] le_mem_Suc [of data 3] le_mem_Suc [of data 4]
    le_mem_Suc [of data 5] le_mem_Suc [of data 6]
  by (simp_all add: le_mem_def [of _ 0] eval_nat_numeral or.assoc)

lemma ucast_ucast8: "(ucast (ucast (b :: 8 word) :: 32 word) :: 64 word) = ucast b"
  by (rule bit_word_eqI) (auto simp: bit_ucast_iff dest: bit_imp_le_length)

lemma ucast_ucast16: "(ucast (ucast (b :: 16 word) :: 32 word) :: 64 word) = ucast b"
  by (rule bit_word_eqI) (auto simp: bit_ucast_iff dest: bit_imp_le_length)

lemma read_unsigned:
  "(ucast (rtlReadUInt1 data) :: 64 word) = le_mem data 1" "(ucast (rtlReadUInt2 data) :: 64 word) = le_mem data 2"
  "(ucast (rtlReadUInt3 data) :: 64 word) = le_mem data 3" "(ucast (rtlReadUInt4 data) :: 64 word) = le_mem data 4"
  "rtlReadUInt5 data = le_mem data 5" "rtlReadUInt6 data = le_mem data 6" "rtlReadUInt7 data = le_mem data 7" "rtlReadUInt8 data = le_mem data 8"
proof -
  show "(ucast (rtlReadUInt1 data) :: 64 word) = le_mem data 1" by (simp add: rtlReadUInt1_def le_mem_steps(1) [unfolded One_nat_def] ucast_ucast8)
  show "(ucast (rtlReadUInt2 data) :: 64 word) = le_mem data 2" by (simp only: rtlReadUInt2_def ucast_ucast16 load_le_mem(1))
  show "(ucast (rtlReadUInt3 data) :: 64 word) = le_mem data 3" by (simp only: rtlReadUInt3_def ucast_cat3 load_le_mem(1) le_mem_steps(2))
  show "(ucast (rtlReadUInt4 data) :: 64 word) = le_mem data 4" by (simp only: rtlReadUInt4_def load_le_mem(2))
  show "rtlReadUInt5 data = le_mem data 5" by (simp only: rtlReadUInt5_def load_le_mem(2) le_mem_steps(3) or.commute)
  show "rtlReadUInt6 data = le_mem data 6"
    by (simp add: rtlReadUInt6_def load_le_mem(2) load16_at4 le_mem_steps(4) push_bit_or push_bit_push_bit or.assoc or.left_commute or.commute)
  show "rtlReadUInt7 data = le_mem data 7"
    by (simp add: rtlReadUInt7_def load_le_mem(2) load16_at4 le_mem_steps(5) push_bit_or push_bit_push_bit or.assoc or.left_commute or.commute)
  show "rtlReadUInt8 data = le_mem data 8" by (simp only: rtlReadUInt8_def load_le_mem(3))
qed

lemma read_signed:
  "(scast (rtlReadInt1 data) :: 64 word) = signed_take_bit 7 (le_mem data 1)" "(scast (rtlReadInt2 data) :: 64 word) = signed_take_bit 15 (le_mem data 2)"
  "(scast (rtlReadInt3 data) :: 64 word) = signed_take_bit 23 (le_mem data 3)" "(scast (rtlReadInt4 data) :: 64 word) = signed_take_bit 31 (le_mem data 4)"
  "rtlReadInt5 data = signed_take_bit 39 (le_mem data 5)" "rtlReadInt6 data = signed_take_bit 47 (le_mem data 6)"
  "rtlReadInt7 data = signed_take_bit 55 (le_mem data 7)" "rtlReadInt8 data = signed_take_bit 63 (le_mem data 8)"
proof -
  note s = le_mem_signed [of 0 data] le_mem_signed [of 1 data] le_mem_signed [of 2 data] le_mem_signed [of 3 data]
    le_mem_signed [of 4 data] le_mem_signed [of 5 data] le_mem_signed [of 6 data]
  have z: "le_mem data 0 = 0" by (simp add: le_mem_def)
  show "(scast (rtlReadInt1 data) :: 64 word) = signed_take_bit 7 (le_mem data 1)"
    using s(1) by (simp add: rtlReadInt1_def scast_scast8 z)
  show "(scast (rtlReadInt2 data) :: 64 word) = signed_take_bit 15 (le_mem data 2)"
    using s(2) by (simp add: rtlReadInt2_def scast_scast16 load16_def scast_cat16 le_mem_steps(1) [unfolded One_nat_def] numeral_2_eq_2)
  show "(scast (rtlReadInt3 data) :: 64 word) = signed_take_bit 23 (le_mem data 3)"
    using s(3) by (simp add: rtlReadInt3_def scast_cat3 load_le_mem(1) numeral_3_eq_3 numeral_2_eq_2)
  have l: "load32 data 0 = ucast (load16 data 0) OR push_bit 16 (ucast (load16 data 2))" by (simp only: load32_def add_0)
  show "(scast (rtlReadInt4 data) :: 64 word) = signed_take_bit 31 (le_mem data 4)"
    using s(4) by (simp add: rtlReadInt4_def l scast_cat32 load_le_mem(1) scast16_at2 le_mem_steps(2) push_bit_or push_bit_push_bit or.assoc)
  show "rtlReadInt5 data = signed_take_bit 39 (le_mem data 5)"
    using s(5) by (simp add: rtlReadInt5_def load_le_mem(2) or.commute)
  show "rtlReadInt6 data = signed_take_bit 47 (le_mem data 6)"
    using s(6) by (simp add: rtlReadInt6_def load_le_mem(2) scast16_at4 le_mem_steps(3) push_bit_or push_bit_push_bit or.assoc or.left_commute or.commute)
  show "rtlReadInt7 data = signed_take_bit 55 (le_mem data 7)"
    using s(7) by (simp add: rtlReadInt7_def load_le_mem(2) load16_at4 le_mem_steps(4) push_bit_or push_bit_push_bit or.assoc or.left_commute or.commute)
  show "rtlReadInt8 data = signed_take_bit 63 (le_mem data 8)"
    unfolding rtlReadInt8_def load_le_mem(3)
  proof (rule bit_word_eqI)
    fix k assume k: "k < LENGTH(64)"
    then have "min k 63 = k" by simp
    then show "bit (le_mem data 8) k = bit (signed_take_bit 63 (le_mem data 8)) k" using k by (simp add: bit_signed_take_bit_iff)
  qed
qed

lemma read_uint: "1 \<le> n \<Longrightarrow> n \<le> 8 \<Longrightarrow> rtlReadUInt data n = Inr (le_mem data n)"
proof -
  assume "1 \<le> n" "n \<le> 8"
  then consider "n = 1" | "n = 2" | "n = 3" | "n = 4" | "n = 5" | "n = 6" | "n = 7" | "n = 8" by linarith
  then show ?thesis by cases (simp_all add: rtlReadUInt_def read_unsigned del: One_nat_def)
qed

lemma read_int: "1 \<le> n \<Longrightarrow> n \<le> 8 \<Longrightarrow> rtlReadInt data n = Inr (signed_take_bit (8 * n - 1) (le_mem data n))"
proof -
  assume "1 \<le> n" "n \<le> 8"
  then consider "n = 1" | "n = 2" | "n = 3" | "n = 4" | "n = 5" | "n = 6" | "n = 7" | "n = 8" by linarith
  then show ?thesis by cases (simp_all add: rtlReadInt_def read_signed del: One_nat_def)
qed

section \<open>Writing\<close>

lemma byte_of_16: "(ucast (ucast (v :: 32 word) :: 16 word) :: 8 word) = ucast v"
  "(ucast (drop_bit 8 (ucast (v :: 32 word) :: 16 word)) :: 8 word) = ucast (drop_bit 8 v)"
  by (rule bit_word_eqI, auto simp: bit_simps dest: bit_imp_le_length)+

lemma byte_of_32: "(ucast (ucast (v :: 64 word) :: 32 word) :: 8 word) = ucast v" "(ucast (ucast (v :: 64 word) :: 16 word) :: 8 word) = ucast v"
  "(ucast (drop_bit 8 (ucast (v :: 64 word) :: 32 word)) :: 8 word) = ucast (drop_bit 8 v)"
  "(ucast (drop_bit 16 (ucast (v :: 64 word) :: 32 word)) :: 8 word) = ucast (drop_bit 16 v)"
  "(ucast (drop_bit 24 (ucast (v :: 64 word) :: 32 word)) :: 8 word) = ucast (drop_bit 24 v)"
  "(ucast (drop_bit 8 (ucast (v :: 64 word) :: 16 word)) :: 8 word) = ucast (drop_bit 8 v)"
  by (rule bit_word_eqI, auto simp: bit_simps dest: bit_imp_le_length)+

lemmas store_defs = store8_def store16_def store32_def store64_def

lemma list_Suc: "Suc n \<le> length xs \<Longrightarrow> \<exists>y ys. xs = y # ys \<and> n \<le> length ys"
  by (cases xs) auto

lemma update_numeral: "(x # xs)[numeral k := v] = x # xs[pred_numeral k := v]" "(x # xs)[Suc 0 := v] = x # xs[0 := v]"
  by (simp_all add: numeral_eq_Suc)

lemma le_bytes_numeral: "le_bytes (numeral k) v = ucast v # le_bytes (pred_numeral k) (drop_bit 8 v)"
  by (simp add: numeral_eq_Suc)

lemma write_bytes:
  "rtlWriteInt1 (b0 # r) (ucast v) = le_bytes 1 v @ r"
  "rtlWriteInt2 (b0 # b1 # r) (ucast v) = le_bytes 2 v @ r"
  "rtlWriteInt3 (b0 # b1 # b2 # r) (ucast v) = le_bytes 3 v @ r"
  "rtlWriteInt4 (b0 # b1 # b2 # b3 # r) (ucast v) = le_bytes 4 v @ r"
  "rtlWriteInt5 (b0 # b1 # b2 # b3 # b4 # r) v = le_bytes 5 v @ r"
  "rtlWriteInt6 (b0 # b1 # b2 # b3 # b4 # b5 # r) v = le_bytes 6 v @ r"
  "rtlWriteInt7 (b0 # b1 # b2 # b3 # b4 # b5 # b6 # r) v = le_bytes 7 v @ r"
  "rtlWriteInt8 (b0 # b1 # b2 # b3 # b4 # b5 # b6 # b7 # r) v = le_bytes 8 v @ r"
  by (simp_all add: rtlWriteInt1_def rtlWriteInt2_def rtlWriteInt3_def rtlWriteInt4_def rtlWriteInt5_def rtlWriteInt6_def rtlWriteInt7_def
    rtlWriteInt8_def store_defs byte_of_16 byte_of_32 update_numeral le_bytes_numeral drop_bit_drop_bit)

lemma bytes_cases:
  assumes "n \<le> length (data :: bytes)"
  shows "n = 1 \<Longrightarrow> \<exists>b0 r. data = b0 # r \<and> drop n data = r"
    "n = 2 \<Longrightarrow> \<exists>b0 b1 r. data = b0 # b1 # r \<and> drop n data = r"
    "n = 3 \<Longrightarrow> \<exists>b0 b1 b2 r. data = b0 # b1 # b2 # r \<and> drop n data = r"
    "n = 4 \<Longrightarrow> \<exists>b0 b1 b2 b3 r. data = b0 # b1 # b2 # b3 # r \<and> drop n data = r"
    "n = 5 \<Longrightarrow> \<exists>b0 b1 b2 b3 b4 r. data = b0 # b1 # b2 # b3 # b4 # r \<and> drop n data = r"
    "n = 6 \<Longrightarrow> \<exists>b0 b1 b2 b3 b4 b5 r. data = b0 # b1 # b2 # b3 # b4 # b5 # r \<and> drop n data = r"
    "n = 7 \<Longrightarrow> \<exists>b0 b1 b2 b3 b4 b5 b6 r. data = b0 # b1 # b2 # b3 # b4 # b5 # b6 # r \<and> drop n data = r"
    "n = 8 \<Longrightarrow> \<exists>b0 b1 b2 b3 b4 b5 b6 b7 r. data = b0 # b1 # b2 # b3 # b4 # b5 # b6 # b7 # r \<and> drop n data = r"
  using assms by (auto simp: eval_nat_numeral dest!: list_Suc)

lemma write_int:
  assumes "1 \<le> n" "n \<le> 8" "n \<le> length data"
  shows "rtlWriteInt data v n = Inr (le_bytes n v @ drop n data)"
proof -
  consider "n = 1" | "n = 2" | "n = 3" | "n = 4" | "n = 5" | "n = 6" | "n = 7" | "n = 8" using assms by linarith
  then show ?thesis
  proof cases
    case 1
    obtain b0 r where "data = b0 # r" "drop n data = r" using bytes_cases(1) [OF assms(3) 1] by blast
    then show ?thesis using write_bytes(1) [of b0 r v] 1 by (simp add: rtlWriteInt_def)
  next
    case 2
    obtain b0 b1 r where "data = b0 # b1 # r" "drop n data = r" using bytes_cases(2) [OF assms(3) 2] by blast
    then show ?thesis using write_bytes(2) [of b0 b1 r v] 2 by (simp add: rtlWriteInt_def)
  next
    case 3
    obtain b0 b1 b2 r where "data = b0 # b1 # b2 # r" "drop n data = r" using bytes_cases(3) [OF assms(3) 3] by blast
    then show ?thesis using write_bytes(3) [of b0 b1 b2 r v] 3 by (simp add: rtlWriteInt_def)
  next
    case 4
    obtain b0 b1 b2 b3 r where "data = b0 # b1 # b2 # b3 # r" "drop n data = r" using bytes_cases(4) [OF assms(3) 4] by blast
    then show ?thesis using write_bytes(4) [of b0 b1 b2 b3 r v] 4 by (simp add: rtlWriteInt_def)
  next
    case 5
    obtain b0 b1 b2 b3 b4 r where "data = b0 # b1 # b2 # b3 # b4 # r" "drop n data = r" using bytes_cases(5) [OF assms(3) 5] by blast
    then show ?thesis using write_bytes(5) [of b0 b1 b2 b3 b4 r v] 5 by (simp add: rtlWriteInt_def)
  next
    case 6
    obtain b0 b1 b2 b3 b4 b5 r where "data = b0 # b1 # b2 # b3 # b4 # b5 # r" "drop n data = r" using bytes_cases(6) [OF assms(3) 6] by blast
    then show ?thesis using write_bytes(6) [of b0 b1 b2 b3 b4 b5 r v] 6 by (simp add: rtlWriteInt_def)
  next
    case 7
    obtain b0 b1 b2 b3 b4 b5 b6 r where "data = b0 # b1 # b2 # b3 # b4 # b5 # b6 # r" "drop n data = r" using bytes_cases(7) [OF assms(3) 7] by blast
    then show ?thesis using write_bytes(7) [of b0 b1 b2 b3 b4 b5 b6 r v] 7 by (simp add: rtlWriteInt_def)
  next
    case 8
    obtain b0 b1 b2 b3 b4 b5 b6 b7 r where "data = b0 # b1 # b2 # b3 # b4 # b5 # b6 # b7 # r" "drop n data = r" using bytes_cases(8) [OF assms(3) 8] by blast
    then show ?thesis using write_bytes(8) [of b0 b1 b2 b3 b4 b5 b6 b7 r v] 8 by (simp add: rtlWriteInt_def)
  qed
qed

section \<open>The other byte order\<close>

definition be_mem :: "bytes \<Rightarrow> nat \<Rightarrow> 64 word" where
  "be_mem data n = le (rev (map (mem data) [0..<n]))"

lemma take_bit_be_mem: "take_bit (8 * n) (be_mem data n) = be_mem data n"
  unfolding be_mem_def using take_bit_le [of "rev (map (mem data) [0..<n])"] by simp

lemma mem_drop: "mem (drop 1 data) i = mem data (Suc i)"
  by (auto simp: mem_def)

lemma be_mem_Suc: "be_mem data (Suc n) = be_mem (drop 1 data) n OR push_bit (8 * n) (ucast (mem data 0))"
proof -
  have "map (mem data) [0..<Suc n] = mem data 0 # map (mem (drop 1 data)) [0..<n]"
    by (simp add: upt_conv_Cons del: upt_Suc) (simp add: mem_drop [unfolded One_nat_def] map_Suc_upt [symmetric] del: upt_Suc)
  then show ?thesis by (simp add: be_mem_def le_append)
qed

lemma be_mem_signed:
  "n < 8 \<Longrightarrow> be_mem (drop 1 data) n OR push_bit (8 * n) (scast (mem data 0)) = signed_take_bit (8 * n + 7) (be_mem data (Suc n))"
  using signed_cat [OF take_bit_be_mem [of n "drop 1 data"], of "mem data 0"] by (simp add: be_mem_Suc)

lemma cpyrev_bytes:
  "cpyrev2 (b0 # b1 # r) src = rev (map (mem src) [0..<2]) @ r"
  "cpyrev3 (b0 # b1 # b2 # r) src = rev (map (mem src) [0..<3]) @ r"
  "cpyrev4 (b0 # b1 # b2 # b3 # r) src = rev (map (mem src) [0..<4]) @ r"
  "cpyrev5 (b0 # b1 # b2 # b3 # b4 # r) src = rev (map (mem src) [0..<5]) @ r"
  "cpyrev6 (b0 # b1 # b2 # b3 # b4 # b5 # r) src = rev (map (mem src) [0..<6]) @ r"
  "cpyrev7 (b0 # b1 # b2 # b3 # b4 # b5 # b6 # r) src = rev (map (mem src) [0..<7]) @ r"
  "cpyrev8 (b0 # b1 # b2 # b3 # b4 # b5 # b6 # b7 # r) src = rev (map (mem src) [0..<8]) @ r"
  by (simp_all add: cpyrev2_def cpyrev3_def cpyrev4_def cpyrev5_def cpyrev6_def cpyrev7_def cpyrev8_def eval_nat_numeral)

lemma replicate_0: "replicate 4 (0 :: 8 word) = [0, 0, 0, 0]" "replicate 8 (0 :: 8 word) = [0, 0, 0, 0, 0, 0, 0, 0]"
  by (simp_all add: numeral_eq_Suc)

lemma var64_bytes: "var64 v = le_bytes 8 v"
  using write_bytes(8) [of 0 0 0 0 0 0 0 0 "[]" v] by (simp add: var64_def rtlWriteInt8_def replicate_0)

lemma var32_bytes: "var32 (ucast v) = le_bytes 4 v"
  using write_bytes(4) [of 0 0 0 0 "[]" v] by (simp add: var32_def rtlWriteInt4_def replicate_0)

lemma drop_le_bytes: "n \<le> m \<Longrightarrow> drop n (le_bytes m v) = le_bytes (m - n) (drop_bit (8 * n) v)"
proof (induction n arbitrary: m v)
  case (Suc n)
  then show ?case by (cases m) (simp_all add: drop_bit_drop_bit add.commute)
qed simp

text \<open>The reversed copy into the low bytes of a variable.\<close>

lemma le_mem_all: "length xs = n \<Longrightarrow> le_mem xs n = le xs"
  using le_mem_take [of n xs] by simp

lemma rev_low_bytes:
  assumes "n \<le> m" "m \<le> 8" "tgt = rev (map (mem src) [0..<n]) @ drop n (le_bytes m w)"
  shows "le_mem tgt m = be_mem src n OR push_bit (8 * n) (take_bit (8 * (m - n)) (drop_bit (8 * n) w))"
proof -
  have "length tgt = m" using assms by simp
  then show ?thesis using assms(1,3) by (simp add: le_mem_all le_append be_mem_def drop_le_bytes le_le_bytes)
qed

lemma list_of_8: "length (xs :: bytes) = 8 \<Longrightarrow> \<exists>b0 b1 b2 b3 b4 b5 b6 b7. xs = [b0, b1, b2, b3, b4, b5, b6, b7]"
  by (auto simp: eval_nat_numeral length_Suc_conv)

lemma list_of_4: "length (xs :: bytes) = 4 \<Longrightarrow> \<exists>b0 b1 b2 b3. xs = [b0, b1, b2, b3]"
  by (auto simp: eval_nat_numeral length_Suc_conv)

lemma cpyrev64:
  assumes "length xs = 8"
  shows "cpyrev4 xs src = rev (map (mem src) [0..<4]) @ drop 4 xs" "cpyrev5 xs src = rev (map (mem src) [0..<5]) @ drop 5 xs"
    "cpyrev6 xs src = rev (map (mem src) [0..<6]) @ drop 6 xs" "cpyrev7 xs src = rev (map (mem src) [0..<7]) @ drop 7 xs"
    "cpyrev8 xs src = rev (map (mem src) [0..<8]) @ drop 8 xs"
  using list_of_8 [OF assms] by (auto simp: cpyrev_bytes simp del: upt_rec_numeral)

lemma cpyrev32:
  assumes "length xs = 4"
  shows "cpyrev2 xs src = rev (map (mem src) [0..<2]) @ drop 2 xs" "cpyrev3 xs src = rev (map (mem src) [0..<3]) @ drop 3 xs"
    "cpyrev4 xs src = rev (map (mem src) [0..<4]) @ drop 4 xs"
  using list_of_4 [OF assms] by (auto simp: cpyrev_bytes simp del: upt_rec_numeral)

lemma swap64:
  "load64 (cpyrev4 (var64 w) src) 0 = be_mem src 4 OR push_bit 32 (drop_bit 32 w)" "load64 (cpyrev5 (var64 w) src) 0 = be_mem src 5 OR push_bit 40 (drop_bit 40 w)"
  "load64 (cpyrev6 (var64 w) src) 0 = be_mem src 6 OR push_bit 48 (drop_bit 48 w)" "load64 (cpyrev7 (var64 w) src) 0 = be_mem src 7 OR push_bit 56 (drop_bit 56 w)"
  "load64 (cpyrev8 (var64 w) src) 0 = be_mem src 8"
proof -
  have l: "length (le_bytes 8 w) = 8" by simp
  have k: "push_bit n (take_bit (64 - n) (drop_bit n w)) = push_bit n (drop_bit n w)" if "n \<le> 64" for n
    by (rule bit_word_eqI) (use that in \<open>auto simp: bit_push_bit_iff bit_take_bit_iff bit_drop_bit_eq\<close>)
  show "load64 (cpyrev4 (var64 w) src) 0 = be_mem src 4 OR push_bit 32 (drop_bit 32 w)"
    using rev_low_bytes [of 4 8 "cpyrev4 (var64 w) src" src w] k [of 32] by (simp add: load_le_mem(3) var64_bytes cpyrev64(1) [OF l])
  show "load64 (cpyrev5 (var64 w) src) 0 = be_mem src 5 OR push_bit 40 (drop_bit 40 w)"
    using rev_low_bytes [of 5 8 "cpyrev5 (var64 w) src" src w] k [of 40] by (simp add: load_le_mem(3) var64_bytes cpyrev64(2) [OF l])
  show "load64 (cpyrev6 (var64 w) src) 0 = be_mem src 6 OR push_bit 48 (drop_bit 48 w)"
    using rev_low_bytes [of 6 8 "cpyrev6 (var64 w) src" src w] k [of 48] by (simp add: load_le_mem(3) var64_bytes cpyrev64(3) [OF l])
  show "load64 (cpyrev7 (var64 w) src) 0 = be_mem src 7 OR push_bit 56 (drop_bit 56 w)"
    using rev_low_bytes [of 7 8 "cpyrev7 (var64 w) src" src w] k [of 56] by (simp add: load_le_mem(3) var64_bytes cpyrev64(4) [OF l])
  show "load64 (cpyrev8 (var64 w) src) 0 = be_mem src 8"
    using rev_low_bytes [of 8 8 "cpyrev8 (var64 w) src" src w] by (simp add: load_le_mem(3) var64_bytes cpyrev64(5) [OF l])
qed

lemma swap32:
  "(ucast (load32 (cpyrev2 (var32 (ucast w)) src) 0) :: 64 word) = be_mem src 2 OR push_bit 16 (take_bit 16 (drop_bit 16 w))"
  "(ucast (load32 (cpyrev3 (var32 (ucast w)) src) 0) :: 64 word) = be_mem src 3 OR push_bit 24 (take_bit 8 (drop_bit 24 w))"
  "(ucast (load32 (cpyrev4 (var32 (ucast w)) src) 0) :: 64 word) = be_mem src 4"
proof -
  have l: "length (le_bytes 4 w) = 4" by simp
  show "(ucast (load32 (cpyrev2 (var32 (ucast w)) src) 0) :: 64 word) = be_mem src 2 OR push_bit 16 (take_bit 16 (drop_bit 16 w))"
    using rev_low_bytes [of 2 4 "cpyrev2 (var32 (ucast w)) src" src w] by (simp add: load_le_mem(2) var32_bytes cpyrev32(1) [OF l])
  show "(ucast (load32 (cpyrev3 (var32 (ucast w)) src) 0) :: 64 word) = be_mem src 3 OR push_bit 24 (take_bit 8 (drop_bit 24 w))"
    using rev_low_bytes [of 3 4 "cpyrev3 (var32 (ucast w)) src" src w] by (simp add: load_le_mem(2) var32_bytes cpyrev32(2) [OF l])
  show "(ucast (load32 (cpyrev4 (var32 (ucast w)) src) 0) :: 64 word) = be_mem src 4"
    using rev_low_bytes [of 4 4 "cpyrev4 (var32 (ucast w)) src" src w] by (simp add: load_le_mem(2) var32_bytes cpyrev32(3) [OF l])
qed

lemma swap16: "cpyrev2 (var16 0) src = [mem src 1, mem src 0]"
  by (simp add: cpyrev2_def var16_def store_defs numeral_2_eq_2)

lemma be_mem_2: "le_mem [mem src 1, mem src 0] 2 = be_mem src 2"
  by (simp add: le_mem_def be_mem_def upt_numerals mem_def [of "[_, _]"])

lemma ucast_0: "var32 0 = var32 (ucast (0 :: 64 word))"
  by simp

lemma push_drop: "push_bit n (drop_bit n (push_bit n x)) = push_bit n (x :: 64 word)"
  by (rule bit_word_eqI) (auto simp: bit_push_bit_iff bit_drop_bit_eq)

lemma read_swap_unsigned:
  "(ucast (rtlReadSwapUInt1 data) :: 64 word) = be_mem data 1" "(ucast (rtlReadSwapUInt2 data) :: 64 word) = be_mem data 2"
  "(ucast (rtlReadSwapUInt3 data) :: 64 word) = be_mem data 3" "(ucast (rtlReadSwapUInt4 data) :: 64 word) = be_mem data 4"
  "rtlReadSwapUInt5 data = be_mem data 5" "rtlReadSwapUInt6 data = be_mem data 6" "rtlReadSwapUInt7 data = be_mem data 7" "rtlReadSwapUInt8 data = be_mem data 8"
proof -
  show "(ucast (rtlReadSwapUInt1 data) :: 64 word) = be_mem data 1" by (simp add: rtlReadSwapUInt1_def be_mem_def ucast_ucast8)
  show "(ucast (rtlReadSwapUInt2 data) :: 64 word) = be_mem data 2"
    by (simp only: rtlReadSwapUInt2_def swap16 ucast_ucast16 load_le_mem(1) be_mem_2)
  show "(ucast (rtlReadSwapUInt3 data) :: 64 word) = be_mem data 3" unfolding rtlReadSwapUInt3_def ucast_0 swap32 by simp
  show "(ucast (rtlReadSwapUInt4 data) :: 64 word) = be_mem data 4" unfolding rtlReadSwapUInt4_def ucast_0 swap32 by simp
qed (simp_all add: rtlReadSwapUInt5_def rtlReadSwapUInt6_def rtlReadSwapUInt7_def rtlReadSwapUInt8_def swap64)

lemma cast_bit31: "\<not> bit w 31 \<Longrightarrow> (scast (w :: 32 word) :: 64 word) = ucast w"
  by (rule bit_word_eqI) (auto simp: bit_word_scast_iff bit_ucast_iff dest: bit_imp_le_length)

text \<open>Three and five bytes are read without their sign.\<close>

lemma read_swap_unextended:
  "(scast (rtlReadSwapInt3 data) :: 64 word) = be_mem data 3" "rtlReadSwapInt5 data = be_mem data 5"
proof -
  define w :: "64 word" where "w = push_bit 16 (ucast (mem data 0))"
  have w: "push_bit 16 (ucast (mem data 0)) = (ucast w :: 32 word)"
    by (rule bit_word_eqI) (auto simp: w_def bit_push_bit_iff bit_ucast_iff dest: bit_imp_le_length)
  have w': "push_bit 16 (take_bit 16 (drop_bit 16 w)) = push_bit 16 (ucast (mem data 0))"
    by (rule bit_word_eqI) (auto simp: w_def bit_push_bit_iff bit_ucast_iff bit_take_bit_iff bit_drop_bit_eq dest: bit_imp_le_length)
  have u: "(ucast (rtlReadSwapInt3 data) :: 64 word) = be_mem data 3"
    using be_mem_Suc [of data 2] unfolding rtlReadSwapInt3_def w swap32(1) w' by simp
  have "\<not> bit (be_mem data 3) 31" using arg_cong [OF take_bit_be_mem [of 3 data], of "\<lambda>x. bit x 31"] by (simp add: bit_take_bit_iff)
  then have "\<not> bit (rtlReadSwapInt3 data) 31" unfolding u [symmetric] by (simp add: bit_ucast_iff)
  then show "(scast (rtlReadSwapInt3 data) :: 64 word) = be_mem data 3" using u by (simp add: cast_bit31)
  show "rtlReadSwapInt5 data = be_mem data 5" using be_mem_Suc [of data 4] by (simp add: rtlReadSwapInt5_def swap64(1) push_drop)
qed

lemma read_swap_signed:
  "(scast (rtlReadSwapInt1 data) :: 64 word) = signed_take_bit 7 (be_mem data 1)" "(scast (rtlReadSwapInt2 data) :: 64 word) = signed_take_bit 15 (be_mem data 2)"
  "(scast (rtlReadSwapInt4 data) :: 64 word) = signed_take_bit 31 (be_mem data 4)"
  "rtlReadSwapInt6 data = signed_take_bit 47 (be_mem data 6)" "rtlReadSwapInt7 data = signed_take_bit 55 (be_mem data 7)"
  "rtlReadSwapInt8 data = signed_take_bit 63 (be_mem data 8)"
proof -
  have "le_mem data 1 = be_mem data 1" by (simp add: le_mem_def be_mem_def)
  then show "(scast (rtlReadSwapInt1 data) :: 64 word) = signed_take_bit 7 (be_mem data 1)"
    using read_signed(1) [of data] by (simp only: rtlReadSwapInt1_def rtlReadInt1_def)
  show "(scast (rtlReadSwapInt2 data) :: 64 word) = signed_take_bit 15 (be_mem data 2)"
    using read_signed(2) [of "[mem data 1, mem data 0]"] by (simp only: rtlReadSwapInt2_def swap16 rtlReadInt2_def be_mem_2)
  have "le_mem (cpyrev4 (var32 0) data) 4 = be_mem data 4" using swap32(3) [of 0 data] unfolding load_le_mem(2) by simp
  then show "(scast (rtlReadSwapInt4 data) :: 64 word) = signed_take_bit 31 (be_mem data 4)"
    using read_signed(4) [of "cpyrev4 (var32 0) data"] by (simp only: rtlReadSwapInt4_def rtlReadInt4_def)
  show "rtlReadSwapInt6 data = signed_take_bit 47 (be_mem data 6)"
    using be_mem_signed [of 5 data] by (simp add: rtlReadSwapInt6_def swap64(2) push_drop)
  show "rtlReadSwapInt7 data = signed_take_bit 55 (be_mem data 7)"
    using be_mem_signed [of 6 data] by (simp add: rtlReadSwapInt7_def swap64(3) push_drop)
  have "le_mem (cpyrev8 (var64 0) data) 8 = be_mem data 8" using swap64(5) [of 0 data] unfolding load_le_mem(3) .
  then show "rtlReadSwapInt8 data = signed_take_bit 63 (be_mem data 8)"
    using read_signed(8) [of "cpyrev8 (var64 0) data"] by (simp only: rtlReadSwapInt8_def rtlReadInt8_def)
qed

text \<open>\<^verbatim>\<open>rtlRevInt3\<close> and \<^verbatim>\<open>rtlRevInt5\<close> do extend the sign.\<close>

lemma scast_signed32: "(scast (w :: 32 word) :: 64 word) = signed_take_bit 31 (ucast w)"
proof (rule bit_word_eqI)
  fix n assume n: "n < LENGTH(64)"
  show "bit (scast w :: 64 word) n = bit (signed_take_bit 31 (ucast w) :: 64 word) n"
  proof (cases "n < 32")
    case True
    then have "min n 31 = n" by simp
    then show ?thesis using n True by (auto simp: bit_word_scast_iff bit_signed_take_bit_iff bit_ucast_iff)
  next
    case False
    then show ?thesis using n bit_imp_le_length [of w n] by (auto simp: bit_word_scast_iff bit_signed_take_bit_iff bit_ucast_iff min_def)
  qed
qed

lemma take_bit_wider: "take_bit n x = x \<Longrightarrow> n \<le> m \<Longrightarrow> take_bit m x = x" for x :: "64 word"
  by (metis min.absorb2 take_bit_take_bit)

lemma rev_signed: "(scast (rtlRevInt3 data) :: 64 word) = signed_take_bit 23 (be_mem data 3)" "rtlRevInt5 data = signed_take_bit 39 (be_mem data 5)"
proof -
  define w :: "64 word" where "w = push_bit 16 (scast (mem data 0))"
  have w: "push_bit 16 (scast (mem data 0)) = (ucast w :: 32 word)"
    by (rule bit_word_eqI) (auto simp: w_def bit_push_bit_iff bit_ucast_iff bit_word_scast_iff dest: bit_imp_le_length)
  let ?y = "be_mem (drop 1 data) 2 OR push_bit 16 (scast (mem data 0)) :: 64 word"
  have "(ucast (rtlRevInt3 data) :: 64 word) = be_mem (drop 1 data) 2 OR push_bit 16 (take_bit 16 (drop_bit 16 w))"
    unfolding rtlRevInt3_def w swap32(1) ..
  also have "be_mem (drop 1 data) 2 = take_bit 32 (be_mem (drop 1 data) 2)"
    using take_bit_be_mem [of 2 "drop 1 data"] by (simp add: take_bit_wider)
  also have "push_bit 16 (take_bit 16 (drop_bit 16 w)) = take_bit 32 (push_bit 16 (scast (mem data 0)))"
    by (rule bit_word_eqI) (auto simp: w_def bit_push_bit_iff bit_take_bit_iff bit_drop_bit_eq)
  finally have u: "(ucast (rtlRevInt3 data) :: 64 word) = take_bit 32 ?y" by (simp only: take_bit_or)
  have "(scast (rtlRevInt3 data) :: 64 word) = signed_take_bit 31 (ucast (rtlRevInt3 data))" by (rule scast_signed32)
  also have "\<dots> = signed_take_bit 31 ?y" unfolding u by (subst signed_take_bit_take_bit) simp
  finally show "(scast (rtlRevInt3 data) :: 64 word) = signed_take_bit 23 (be_mem data 3)"
    using be_mem_signed [of 2 data] by (simp add: signed_take_bit_signed_take_bit)
  show "rtlRevInt5 data = signed_take_bit 39 (be_mem data 5)"
    using be_mem_signed [of 4 data] by (simp add: rtlRevInt5_def swap64(1) push_drop)
qed

section \<open>Any length\<close>

lemma read_swap_uint: "1 \<le> n \<Longrightarrow> n \<le> 8 \<Longrightarrow> rtlReadSwapUInt data n = Inr (be_mem data n)"
proof -
  assume "1 \<le> n" "n \<le> 8"
  then consider "n = 1" | "n = 2" | "n = 3" | "n = 4" | "n = 5" | "n = 6" | "n = 7" | "n = 8" by linarith
  then show ?thesis by cases (simp_all add: rtlReadSwapUInt_def read_swap_unsigned del: One_nat_def)
qed

lemma read_swap_int:
  assumes "1 \<le> n" "n \<le> 8"
  shows "rtlReadSwapInt data n = Inr (if n = 3 \<or> n = 5 then be_mem data n else signed_take_bit (8 * n - 1) (be_mem data n))"
proof -
  consider "n = 1" | "n = 2" | "n = 3" | "n = 4" | "n = 5" | "n = 6" | "n = 7" | "n = 8" using assms by linarith
  then show ?thesis by cases (simp_all add: rtlReadSwapInt_def read_swap_signed read_swap_unextended del: One_nat_def)
qed

lemma nth_le_bytes: "i < n \<Longrightarrow> le_bytes n v ! i = ucast (drop_bit (8 * i) v)"
proof (induction n arbitrary: v i)
  case (Suc n)
  then show ?case by (cases i) (simp_all add: drop_bit_drop_bit add.commute)
qed simp

lemma mem_le_bytes: "n \<le> m \<Longrightarrow> map (mem (le_bytes m v)) [0..<n] = le_bytes n v"
proof (rule nth_equalityI)
  fix i assume a: "n \<le> m" "i < length (map (mem (le_bytes m v)) [0..<n])"
  then have "mem (le_bytes m v) i = le_bytes m v ! i" by (simp add: mem_def)
  then show "map (mem (le_bytes m v)) [0..<n] ! i = le_bytes n v ! i" using a nth_le_bytes [of i n v] nth_le_bytes [of i m v] by simp
qed simp

lemma write_swap_bytes:
  "rtlWriteSwapInt1 (b0 # r) (ucast v) = rev (le_bytes 1 v) @ r"
  "rtlWriteSwapInt2 (b0 # b1 # r) (ucast v) = rev (le_bytes 2 v) @ r"
  "rtlWriteSwapInt3 (b0 # b1 # b2 # r) (ucast v) = rev (le_bytes 3 v) @ r"
  "rtlWriteSwapInt4 (b0 # b1 # b2 # b3 # r) (ucast v) = rev (le_bytes 4 v) @ r"
  "rtlWriteSwapInt5 (b0 # b1 # b2 # b3 # b4 # r) v = rev (le_bytes 5 v) @ r"
  "rtlWriteSwapInt6 (b0 # b1 # b2 # b3 # b4 # b5 # r) v = rev (le_bytes 6 v) @ r"
  "rtlWriteSwapInt7 (b0 # b1 # b2 # b3 # b4 # b5 # b6 # r) v = rev (le_bytes 7 v) @ r"
  "rtlWriteSwapInt8 (b0 # b1 # b2 # b3 # b4 # b5 # b6 # b7 # r) v = rev (le_bytes 8 v) @ r"
proof -
  show "rtlWriteSwapInt1 (b0 # r) (ucast v) = rev (le_bytes 1 v) @ r"
    by (simp add: rtlWriteSwapInt1_def store8_def byte_of_32)
qed (simp_all only: rtlWriteSwapInt2_def rtlWriteSwapInt3_def rtlWriteSwapInt4_def rtlWriteSwapInt5_def rtlWriteSwapInt6_def rtlWriteSwapInt7_def
    rtlWriteSwapInt8_def cpyrev_bytes var32_bytes var64_bytes mem_le_bytes order.refl numeral_le_iff semiring_norm)

lemma write_swap_int:
  assumes "1 \<le> n" "n \<le> 8" "n \<le> length data"
  shows "rtlWriteSwapInt data v n = Inr (rev (le_bytes n v) @ drop n data)"
proof -
  consider "n = 1" | "n = 2" | "n = 3" | "n = 4" | "n = 5" | "n = 6" | "n = 7" | "n = 8" using assms by linarith
  then show ?thesis
  proof cases
    case 1
    obtain b0 r where "data = b0 # r" "drop n data = r" using bytes_cases(1) [OF assms(3) 1] by blast
    then show ?thesis using write_swap_bytes(1) [of b0 r v] 1 by (simp add: rtlWriteSwapInt_def)
  next
    case 2
    obtain b0 b1 r where "data = b0 # b1 # r" "drop n data = r" using bytes_cases(2) [OF assms(3) 2] by blast
    then show ?thesis using write_swap_bytes(2) [of b0 b1 r v] 2 by (simp add: rtlWriteSwapInt_def)
  next
    case 3
    obtain b0 b1 b2 r where "data = b0 # b1 # b2 # r" "drop n data = r" using bytes_cases(3) [OF assms(3) 3] by blast
    then show ?thesis using write_swap_bytes(3) [of b0 b1 b2 r v] 3 by (simp add: rtlWriteSwapInt_def)
  next
    case 4
    obtain b0 b1 b2 b3 r where "data = b0 # b1 # b2 # b3 # r" "drop n data = r" using bytes_cases(4) [OF assms(3) 4] by blast
    then show ?thesis using write_swap_bytes(4) [of b0 b1 b2 b3 r v] 4 by (simp add: rtlWriteSwapInt_def)
  next
    case 5
    obtain b0 b1 b2 b3 b4 r where "data = b0 # b1 # b2 # b3 # b4 # r" "drop n data = r" using bytes_cases(5) [OF assms(3) 5] by blast
    then show ?thesis using write_swap_bytes(5) [of b0 b1 b2 b3 b4 r v] 5 by (simp add: rtlWriteSwapInt_def)
  next
    case 6
    obtain b0 b1 b2 b3 b4 b5 r where "data = b0 # b1 # b2 # b3 # b4 # b5 # r" "drop n data = r" using bytes_cases(6) [OF assms(3) 6] by blast
    then show ?thesis using write_swap_bytes(6) [of b0 b1 b2 b3 b4 b5 r v] 6 by (simp add: rtlWriteSwapInt_def)
  next
    case 7
    obtain b0 b1 b2 b3 b4 b5 b6 r where "data = b0 # b1 # b2 # b3 # b4 # b5 # b6 # r" "drop n data = r" using bytes_cases(7) [OF assms(3) 7] by blast
    then show ?thesis using write_swap_bytes(7) [of b0 b1 b2 b3 b4 b5 b6 r v] 7 by (simp add: rtlWriteSwapInt_def)
  next
    case 8
    obtain b0 b1 b2 b3 b4 b5 b6 b7 r where "data = b0 # b1 # b2 # b3 # b4 # b5 # b6 # b7 # r" "drop n data = r" using bytes_cases(8) [OF assms(3) 8] by blast
    then show ?thesis using write_swap_bytes(8) [of b0 b1 b2 b3 b4 b5 b6 b7 r v] 8 by (simp add: rtlWriteSwapInt_def)
  qed
qed

text \<open>What a written value reads back as.\<close>

lemma le_mem_write: "n \<le> 8 \<Longrightarrow> le_mem (le_bytes n v @ r) n = take_bit (8 * n) v"
  by (simp add: le_mem_take le_le_bytes)

lemma be_mem_write: "be_mem (rev (le_bytes n v) @ r) n = take_bit (8 * n) v"
proof -
  have "map (mem (rev (le_bytes n v) @ r)) [0..<n] = rev (le_bytes n v)"
    by (rule nth_equalityI) (auto simp: mem_def nth_append)
  then show ?thesis by (simp add: be_mem_def le_le_bytes)
qed

lemma signed_roundtrip: "1 \<le> n \<Longrightarrow> signed_take_bit (8 * n - 1) (take_bit (8 * n) v) = signed_take_bit (8 * n - 1) (v :: 64 word)"
proof -
  assume "1 \<le> n"
  then have "\<not> 8 * n \<le> 8 * n - 1" by linarith
  then show ?thesis by (simp only: signed_take_bit_take_bit if_False)
qed

section \<open>Casts\<close>

lemma cast_unsigned:
  "rtlCastUInt3 v3 = take_bit 24 v3" "rtlCastUInt5 v = take_bit 40 v" "rtlCastUInt6 v = take_bit 48 v" "rtlCastUInt7 v = take_bit 56 v"
  by (simp_all add: rtlCastUInt3_def rtlCastUInt5_def rtlCastUInt6_def rtlCastUInt7_def take_bit_eq_mask mask_eq_exp_minus_1)

lemma shift_signed64: "k < 64 \<Longrightarrow> signed_drop_bit k (push_bit k v) = signed_take_bit (63 - k) (v :: 64 word)"
proof (rule bit_word_eqI)
  fix n assume k: "k < 64" and n: "n < LENGTH(64)"
  consider "n < 63 - k" | "n = 63 - k" | "63 - k < n" by linarith
  then show "bit (signed_drop_bit k (push_bit k v)) n = bit (signed_take_bit (63 - k) v) n"
    by cases (use k n in \<open>auto simp: bit_signed_drop_bit_iff bit_push_bit_iff bit_signed_take_bit_iff min_def\<close>)
qed

lemma shift_signed32: "k < 32 \<Longrightarrow> signed_drop_bit k (push_bit k v) = signed_take_bit (31 - k) (v :: 32 word)"
proof (rule bit_word_eqI)
  fix n assume k: "k < 32" and n: "n < LENGTH(32)"
  consider "n < 31 - k" | "n = 31 - k" | "31 - k < n" by linarith
  then show "bit (signed_drop_bit k (push_bit k v)) n = bit (signed_take_bit (31 - k) v) n"
    by cases (use k n in \<open>auto simp: bit_signed_drop_bit_iff bit_push_bit_iff bit_signed_take_bit_iff min_def\<close>)
qed

lemma cast_signed:
  "rtlCastInt3 v3 = signed_take_bit 23 v3" "rtlCastInt5 v = signed_take_bit 39 v" "rtlCastInt6 v = signed_take_bit 47 v" "rtlCastInt7 v = signed_take_bit 55 v"
  by (simp_all add: rtlCastInt3_def rtlCastInt5_def rtlCastInt6_def rtlCastInt7_def shift_signed64 shift_signed32)

section \<open>Theorems\<close>

text \<open>
  C22. An integer written with a length of one to eight bytes reads back as its low bytes, unsigned, or
  extended from their top bit, signed; the memory behind them is unchanged. In the other byte order so do all
  unsigned reads, and signed reads of every length but three and five bytes, which lose the sign as shown below.
\<close>

theorem rtlint_roundtrip:
  assumes "1 \<le> n" "n \<le> 8" "n \<le> length data"
  shows "(\<exists>d. rtlWriteInt data v n = Inr d \<and> length d = length data \<and> drop n d = drop n data \<and>
      rtlReadUInt d n = Inr (take_bit (8 * n) v) \<and> rtlReadInt d n = Inr (signed_take_bit (8 * n - 1) v)) \<and>
    (\<exists>d. rtlWriteSwapInt data v n = Inr d \<and> length d = length data \<and> drop n d = drop n data \<and>
      rtlReadSwapUInt d n = Inr (take_bit (8 * n) v) \<and>
      (n \<noteq> 3 \<and> n \<noteq> 5 \<longrightarrow> rtlReadSwapInt d n = Inr (signed_take_bit (8 * n - 1) v)))"
  using assms by (simp add: write_int write_swap_int read_uint read_int read_swap_uint read_swap_int le_mem_write be_mem_write
      signed_roundtrip [simplified])

theorem rtlint_roundtrip_witness:
  "\<exists>d. rtlWriteInt [9, 9, 9, 9] (- 2) 3 = Inr d \<and> drop 3 d = [9] \<and> rtlReadInt d 3 = Inr (- 2)"
proof -
  have "signed_take_bit 23 (- 2 :: 64 word) = - 2" by code_simp
  then show ?thesis using rtlint_roundtrip [of 3 "[9, 9, 9, 9]" "- 2"] by auto
qed

text \<open>
  C34. Signed integers of three and five bytes in the other byte order are read without their sign, as
  the unsigned reads do, whereas \<^verbatim>\<open>rtlRevInt3\<close> and \<^verbatim>\<open>rtlRevInt5\<close> extend it: they differ on \<open>-1\<close>.
\<close>

theorem rtlReadSwapInt_unsigned:
  "rtlReadSwapInt data 3 = rtlReadSwapUInt data 3 \<and> rtlReadSwapInt data 5 = rtlReadSwapUInt data 5 \<and>
   scast (rtlRevInt3 data) = signed_take_bit 23 (be_mem data 3) \<and> rtlRevInt5 data = signed_take_bit 39 (be_mem data 5) \<and>
   rtlReadSwapInt (replicate 3 255) 3 = Inr 0xffffff \<and> rtlRevInt3 (replicate 3 255) = - 1"
proof (intro conjI)
  show "rtlReadSwapInt (replicate 3 255) 3 = Inr 0xffffff" by code_simp
  show "rtlRevInt3 (replicate 3 255) = - 1" by code_simp
qed (simp_all add: read_swap_int read_swap_uint rev_signed)

end
