(* ===== verification/Jbuff.thy ===== *)
theory Jbuff
  imports Rtlint
begin

text \<open>
  The byte buffer that data is serialised through: class \<^verbatim>\<open>MemoryBuffer\<close> (system/jlib/jbuff.cpp and
  .hpp), with its allocation, and the serialisation of strings and memory blocks.

  The block that \<^verbatim>\<open>buffer\<close> points at is a list as long as the allocation; a byte of it that was never
  written is \<open>None\<close>. Reading such a byte is an error of the model, copying it is not. Sizes are natural numbers below \<open>2 ^ 32\<close>,
  and \<open>u32\<close> is written where the arithmetic of \<^verbatim>\<open>size32_t\<close> can wrap around. The allocator never fails.
  It is the release build that is modelled, in which \<^verbatim>\<open>CHECKREADPOS\<close> and \<^verbatim>\<open>KILL_CLEARS_MEMORY\<close> are
  compiled out, on a little endian machine.
\<close>

type_synonym block = "8 word option list"

definition u32 :: "nat \<Rightarrow> nat" where
  "u32 x = x mod 2 ^ 32"

section \<open>Memory blocks\<close>

definition load_bytes :: "block \<Rightarrow> nat \<Rightarrow> nat \<Rightarrow> bytes res" where
  "load_bytes blk i n =
     (if n \<noteq> 0 \<and> length blk < i + n then Inl OutOfRange
      else if None \<in> set (take n (drop i blk)) then Inl Undefined
      else Inr (map the (take n (drop i blk))))"

definition store_block :: "block \<Rightarrow> nat \<Rightarrow> block \<Rightarrow> block res" where
  "store_block blk i xs =
     (if xs \<noteq> [] \<and> length blk < i + length xs then Inl OutOfRange
      else Inr (take i blk @ xs @ drop (i + length xs) blk))"

text \<open>\<^verbatim>\<open>realloc\<close> keeps the bytes that fit and leaves new ones unwritten.\<close>

definition realloc :: "block \<Rightarrow> nat \<Rightarrow> block" where
  "realloc blk n = take n blk @ replicate (n - length blk) None"

definition cpyrevn :: "'a list \<Rightarrow> 'a list" where
  "cpyrevn src = map (\<lambda>i. src ! (length src - 1 - i)) [0..<length src]"

section \<open>State and allocation\<close>

record MemoryBuffer =
  buffer :: block
  curLen :: nat
  maxLen :: nat
  readPos :: nat
  swapEndian :: bool
  ownBuffer :: bool

type_synonym 'a mop = "(MemoryBuffer, 'a) op"

abbreviation MEMBUFFER_MAXLEN :: nat where "MEMBUFFER_MAXLEN \<equiv> 0xffffffff"
abbreviation ChunkSize :: nat where "ChunkSize \<equiv> 0x10000"
abbreviation BUFF_DOUBLE_LIMIT :: nat where "BUFF_DOUBLE_LIMIT \<equiv> 0x7fffffff"
abbreviation BUFF_FIRST_CHUNK_SIZE :: nat where "BUFF_FIRST_CHUNK_SIZE \<equiv> 8"
abbreviation BUFF_DETACH_GRANULARITY :: nat where "BUFF_DETACH_GRANULARITY \<equiv> 16"

definition mb_init :: MemoryBuffer where
  "mb_init = \<lparr>buffer = [], curLen = 0, maxLen = 0, readPos = 0, swapEndian = False, ownBuffer = True\<rparr>"

definition checkMemoryBufferOverflow :: "nat \<Rightarrow> nat \<Rightarrow> nat res" where
  "checkMemoryBufferOverflow cur inc =
     (let newLen = cur + inc in if newLen > MEMBUFFER_MAXLEN then Inl (Thrown (- 10)) else Inr (u32 newLen))"

text \<open>The loop that doubles the allocation. From zero it would never end.\<close>

function double_loop :: "nat \<Rightarrow> nat \<Rightarrow> nat res" where
  "double_loop newLen newMax =
     (if newLen > newMax then
        if newMax = 0 then Inl NoReturn
        else case checkMemoryBufferOverflow newMax newMax of
            Inl e \<Rightarrow> Inl e
          | Inr newMaxTmp \<Rightarrow> double_loop newLen newMaxTmp
      else Inr newMax)"
  by pat_completeness auto
termination
  by (relation "measure (\<lambda>(newLen, newMax). newLen - newMax)")
    (auto simp: checkMemoryBufferOverflow_def u32_def Let_def split: if_splits)

declare double_loop.simps [simp del]

definition new_capacity :: "nat \<Rightarrow> nat \<Rightarrow> nat res" where
  "new_capacity cap newLen =
     (if newLen < BUFF_DOUBLE_LIMIT then
        double_loop newLen (if cap = 0 then BUFF_FIRST_CHUNK_SIZE else cap)
      else checkMemoryBufferOverflow (newLen div ChunkSize * ChunkSize) ChunkSize)"

definition mb_realloc :: "nat \<Rightarrow> unit mop" where
  "mb_realloc newLen mb =
     (if newLen > maxLen mb then
        if \<not> ownBuffer mb then (Inl AssertFailed, mb)
        else case new_capacity (maxLen mb) newLen of
            Inl e \<Rightarrow> (Inl e, mb)
          | Inr newMax \<Rightarrow> (Inr (), mb\<lparr>buffer := realloc (buffer mb) newMax, maxLen := newMax\<rparr>)
      else (Inr (), mb))"

definition mb_reallocExact :: "nat \<Rightarrow> unit mop" where
  "mb_reallocExact newLen mb =
     (if newLen > maxLen mb then
        if \<not> ownBuffer mb then (Inl AssertFailed, mb)
        else (Inr (), mb\<lparr>buffer := realloc (buffer mb) newLen, maxLen := newLen\<rparr>)
      else (Inr (), mb))"

text \<open>Writing a block at an offset of the buffer.\<close>

definition mb_store :: "nat \<Rightarrow> block \<Rightarrow> unit mop" where
  "mb_store i xs mb =
     (case store_block (buffer mb) i xs of Inl e \<Rightarrow> (Inl e, mb) | Inr blk \<Rightarrow> (Inr (), mb\<lparr>buffer := blk\<rparr>))"

definition mb_modify :: "(MemoryBuffer \<Rightarrow> MemoryBuffer) \<Rightarrow> unit mop" where
  "mb_modify f mb = (Inr (), f mb)"

text \<open>
  The steps that every append has: check the new length, make room, write at the end, and advance
  the length.
\<close>

definition write_end :: "block \<Rightarrow> unit mop" where
  "write_end xs mb =
     op_bind (op_res (checkMemoryBufferOverflow (curLen mb) (length xs)))
       (\<lambda>newLen. op_bind (mb_realloc newLen)
       (\<lambda>_. op_bind (mb_store (curLen mb) xs)
       (\<lambda>_. mb_modify (\<lambda>mb. mb\<lparr>curLen := u32 (curLen mb + length xs)\<rparr>)))) mb"

definition insertDirect :: "nat \<Rightarrow> nat \<Rightarrow> nat mop" where
  "insertDirect offset insertLen mb =
     (if \<not> offset \<le> curLen mb then (Inl AssertFailed, mb)
      else op_bind (op_res (checkMemoryBufferOverflow (curLen mb) insertLen))
        (\<lambda>newLen. op_bind (mb_realloc newLen)
        (\<lambda>_ mb. op_bind (mb_store (offset + insertLen) (take (curLen mb - offset) (drop offset (buffer mb))))
        (\<lambda>_. op_bind (mb_modify (\<lambda>mb. mb\<lparr>curLen := u32 (curLen mb + insertLen)\<rparr>))
        (\<lambda>_. op_return offset)) mb)) mb)"

definition ensureCapacity :: "nat \<Rightarrow> nat mop" where
  "ensureCapacity mx mb =
     op_bind (if u32 (maxLen mb + 2 ^ 32 - curLen mb) < mx
              then op_bind (op_res (checkMemoryBufferOverflow (curLen mb) mx)) mb_realloc
              else op_return ())
       (\<lambda>_. op_return (curLen mb)) mb"

definition mb_kill :: "MemoryBuffer \<Rightarrow> MemoryBuffer" where
  "mb_kill mb = (if ownBuffer mb then mb\<lparr>buffer := []\<rparr> else mb)"

definition setLength :: "nat \<Rightarrow> unit mop" where
  "setLength len mb =
     op_bind (if len > curLen mb
              then op_bind (mb_realloc len) (\<lambda>_. mb_store (curLen mb) (replicate (len - curLen mb) (Some 0)))
              else op_return ())
       (\<lambda>_. mb_modify (\<lambda>mb. mb\<lparr>curLen := len\<rparr>)) mb"

definition setWritePos :: "nat \<Rightarrow> unit mop" where
  "setWritePos len mb =
     op_bind (if len > curLen mb then mb_realloc len else op_return ())
       (\<lambda>_. mb_modify (\<lambda>mb. mb\<lparr>curLen := len\<rparr>)) mb"

definition mb_remove :: "nat \<Rightarrow> nat \<Rightarrow> unit mop" where
  "mb_remove start len mb =
     (let start = (if start > curLen mb then curLen mb else start);
          len = (if u32 (start + len) > curLen mb then curLen mb - start else len);
          start2 = u32 (start + len)
      in op_bind (mb_store start (take (curLen mb - start2) (drop start2 (buffer mb))))
           (\<lambda>_. setLength (u32 (curLen mb + 2 ^ 32 - len))) mb)"

definition reserve :: "nat \<Rightarrow> nat mop" where
  "reserve sz mb =
     op_bind (op_res (checkMemoryBufferOverflow (curLen mb) sz))
       (\<lambda>newLen. op_bind (mb_realloc newLen)
       (\<lambda>_. op_bind (mb_modify (\<lambda>mb. mb\<lparr>curLen := u32 (curLen mb + sz)\<rparr>))
       (\<lambda>_. op_return (curLen mb)))) mb"

text \<open>\<^verbatim>\<open>truncate\<close> does not look at \<^verbatim>\<open>ownBuffer\<close> before it frees or reallocates the block.\<close>

definition mb_truncate :: "unit mop" where
  "mb_truncate mb =
     (if maxLen mb > curLen mb then
        if \<not> ownBuffer mb then (Inl Undefined, mb)
        else (Inr (), mb\<lparr>buffer := (if curLen mb = 0 then [] else realloc (buffer mb) (curLen mb)), maxLen := curLen mb\<rparr>)
      else (Inr (), mb))"

definition reserveTruncate :: "nat \<Rightarrow> nat mop" where
  "reserveTruncate sz mb =
     op_bind (op_res (checkMemoryBufferOverflow (curLen mb) sz))
       (\<lambda>newLen. op_bind (mb_modify (\<lambda>mb. mb\<lparr>curLen := u32 (curLen mb + sz)\<rparr>))
       (\<lambda>_. op_bind (mb_reallocExact newLen)
       (\<lambda>_. op_bind mb_truncate
       (\<lambda>_ mb. (Inr (curLen mb - sz), mb))))) mb"

definition resetBuffer :: "unit mop" where
  "resetBuffer = mb_modify (\<lambda>mb. mb_init)"

text \<open>The loop of \<^verbatim>\<open>_reverse\<close> swaps the ends of the buffer, from the outside in.\<close>

fun reverse_loop :: "nat \<Rightarrow> nat \<Rightarrow> nat \<Rightarrow> block \<Rightarrow> block" where
  "reverse_loop 0 idx e blk = blk"
| "reverse_loop (Suc n) idx e blk =
     reverse_loop n (idx + 1) (e - 1) (blk[idx := blk ! (e - 1), e - 1 := blk ! idx])"

definition mb_reverse :: "unit mop" where
  "mb_reverse = mb_modify (\<lambda>mb. mb\<lparr>buffer := reverse_loop (curLen mb div 2) 0 (curLen mb) (buffer mb)\<rparr>)"

text \<open>A null pointer is \<open>None\<close>; the block of another pointer has the length that is passed with it.\<close>

definition setBuffer :: "nat \<Rightarrow> block option \<Rightarrow> bool \<Rightarrow> unit mop" where
  "setBuffer len blk takeOwnership mb =
     (if u32 len \<noteq> len then (Inl AssertFailed, mb)
      else let mb = (mb_kill mb)\<lparr>buffer := (case blk of None \<Rightarrow> [] | Some b \<Rightarrow> b)\<rparr>
        in if len \<noteq> 0 \<and> blk = None then (Inl AssertFailed, mb)
           else (Inr (), mb\<lparr>curLen := len, maxLen := len, ownBuffer := takeOwnership, readPos := 0\<rparr>))"

definition mb_detach :: "block mop" where
  "mb_detach mb =
     (let ret = (if ownBuffer mb
                 then if maxLen mb > u32 (curLen mb + BUFF_DETACH_GRANULARITY) then realloc (buffer mb) (curLen mb) else buffer mb
                 else take (curLen mb) (buffer mb))
      in (Inr ret, mb_init))"

definition detachOwn :: "block mop" where
  "detachOwn mb = (if \<not> ownBuffer mb then (Inl AssertFailed, mb) else (Inr (buffer mb), mb_init))"

definition swapWith :: "MemoryBuffer \<times> MemoryBuffer \<Rightarrow> MemoryBuffer \<times> MemoryBuffer" where
  "swapWith = (\<lambda>(mb, other).
     (mb\<lparr>buffer := buffer other, curLen := curLen other, maxLen := maxLen other, readPos := readPos other,
         swapEndian := swapEndian other, ownBuffer := ownBuffer other\<rparr>,
      other\<lparr>buffer := buffer mb, curLen := curLen mb, maxLen := maxLen mb, readPos := readPos mb,
         swapEndian := swapEndian mb, ownBuffer := ownBuffer mb\<rparr>))"

definition mb_matches :: "MemoryBuffer \<Rightarrow> MemoryBuffer \<Rightarrow> bool res" where
  "mb_matches mb other =
     (if curLen mb \<noteq> curLen other then Inr False
      else res_bind (load_bytes (buffer mb) 0 (curLen mb))
        (\<lambda>xs. res_bind (load_bytes (buffer other) 0 (curLen mb)) (\<lambda>ys. Inr (xs = ys))))"

definition mb_clear :: "unit mop" where
  "mb_clear = mb_modify (\<lambda>mb. mb\<lparr>curLen := 0, readPos := 0\<rparr>)"

definition capacity :: "MemoryBuffer \<Rightarrow> nat" where
  "capacity mb = u32 (maxLen mb + 2 ^ 32 - curLen mb)"

definition remaining :: "MemoryBuffer \<Rightarrow> nat" where
  "remaining mb = u32 (curLen mb + 2 ^ 32 - readPos mb)"

section \<open>Construction and appending\<close>

definition MemoryBuffer_sized :: "nat \<Rightarrow> unit res \<times> MemoryBuffer" where
  "MemoryBuffer_sized initial = (if u32 initial \<noteq> initial then (Inl AssertFailed, mb_init) else mb_realloc initial mb_init)"

definition append_uchar :: "8 word \<Rightarrow> unit mop" where
  "append_uchar value = write_end [Some value]"

definition append_char :: "8 word \<Rightarrow> unit mop" where
  "append_char value = write_end [Some value]"

definition append_bool :: "bool \<Rightarrow> unit mop" where
  "append_bool value = write_end [Some (if \<not> value then 0 else 1)]"

definition append_mem :: "bytes \<Rightarrow> unit mop" where
  "append_mem value = (if value \<noteq> [] then write_end (map Some value) else op_return ())"

definition MemoryBuffer_copy :: "bytes \<Rightarrow> unit res \<times> MemoryBuffer" where
  "MemoryBuffer_copy newBuffer =
     (if u32 (length newBuffer) \<noteq> length newBuffer then (Inl AssertFailed, mb_init) else append_mem newBuffer mb_init)"

text \<open>A C string is the list of its bytes before the terminating zero.\<close>

definition append_cstr :: "bytes option \<Rightarrow> unit mop" where
  "append_cstr value = (case value of Some s \<Rightarrow> append_mem (s @ [0]) | None \<Rightarrow> append_char 0)"

definition appendEndian :: "bytes \<Rightarrow> unit mop" where
  "appendEndian value mb =
     (if value \<noteq> [] then write_end (map Some (if swapEndian mb then cpyrevn value else value)) mb else (Inr (), mb))"

definition append_short :: "16 word \<Rightarrow> unit mop" where "append_short value = appendEndian (var16 value)"
definition append_ushort :: "16 word \<Rightarrow> unit mop" where "append_ushort value = appendEndian (var16 value)"
definition append_int :: "32 word \<Rightarrow> unit mop" where "append_int value = appendEndian (var32 value)"
definition append_unsigned :: "32 word \<Rightarrow> unit mop" where "append_unsigned value = appendEndian (var32 value)"
definition append_int64 :: "64 word \<Rightarrow> unit mop" where "append_int64 value = appendEndian (var64 value)"
definition append_uint64 :: "64 word \<Rightarrow> unit mop" where "append_uint64 value = appendEndian (var64 value)"

lemma drop7_less: "0x80 \<le> x \<Longrightarrow> unat (drop_bit 7 x) < unat (x :: 64 word)"
proof -
  assume "0x80 \<le> x"
  then have "0 < unat x" by (simp add: word_le_nat_alt)
  then show ?thesis by (simp add: unat_drop_bit_eq del: drop_bit_eq_div) (simp add: drop_bit_eq_div)
qed

function appendPacked :: "64 word \<Rightarrow> unit mop" where
  "appendPacked value =
     (if value \<ge> 0x80
      then op_bind (append_uchar (ucast value OR 0x80)) (\<lambda>_. appendPacked (drop_bit 7 value))
      else append_uchar (ucast value))"
  by pat_completeness auto
termination
  by (relation "measure unat") (simp_all add: drop7_less del: drop_bit_eq_div)

declare appendPacked.simps [simp del]

definition append_buffer :: "MemoryBuffer \<Rightarrow> unit mop" where
  "append_buffer value =
     (let xs = take (curLen value) (buffer value) in if curLen value \<noteq> 0 then write_end xs else op_return ())"

definition appendBytes :: "8 word \<Rightarrow> nat \<Rightarrow> unit mop" where
  "appendBytes value cnt = (if cnt \<noteq> 0 then write_end (replicate cnt (Some value)) else op_return ())"

definition appendSwap :: "bytes \<Rightarrow> unit mop" where
  "appendSwap value = (if value \<noteq> [] then write_end (map Some (cpyrevn value)) else op_return ())"

section \<open>Reading\<close>

text \<open>The bytes at the read position, and the position after them.\<close>

definition take_bytes :: "nat \<Rightarrow> bytes mop" where
  "take_bytes n mb =
     (case load_bytes (buffer mb) (readPos mb) n of
        Inl e \<Rightarrow> (Inl e, mb)
      | Inr xs \<Rightarrow> (Inr xs, mb\<lparr>readPos := u32 (readPos mb + n)\<rparr>))"

definition read_uchar :: "8 word mop" where
  "read_uchar = op_bind (take_bytes 1) (\<lambda>xs. op_return (hd xs))"

definition read_char :: "8 word mop" where
  "read_char = op_bind (take_bytes 1) (\<lambda>xs. op_return (hd xs))"

definition read_bool :: "bool mop" where
  "read_bool = op_bind (take_bytes 1) (\<lambda>xs. op_return (if hd xs = 0 then False else True))"

text \<open>\<^verbatim>\<open>strlen\<close> looks for a zero byte and runs over the end of the block if there is none.\<close>

fun strlen :: "block \<Rightarrow> nat res" where
  "strlen [] = Inl OutOfRange"
| "strlen (None # blk) = Inl Undefined"
| "strlen (Some c # blk) = (if c = 0 then Inr 0 else res_bind (strlen blk) (\<lambda>n. Inr (Suc n)))"

definition read_cstr :: "bytes mop" where
  "read_cstr mb =
     op_bind (op_res (strlen (drop (readPos mb) (buffer mb))))
       (\<lambda>len. op_bind (op_res (load_bytes (buffer mb) (readPos mb) len))
       (\<lambda>s. op_bind (mb_modify (\<lambda>mb. mb\<lparr>readPos := u32 (readPos mb + (len + 1))\<rparr>))
       (\<lambda>_. op_return s))) mb"

definition read_StringBuffer :: "bytes \<Rightarrow> bytes mop" where
  "read_StringBuffer value mb =
     op_bind (op_res (strlen (drop (readPos mb) (buffer mb))))
       (\<lambda>len. op_bind (op_res (load_bytes (buffer mb) (readPos mb) len))
       (\<lambda>s. op_bind (mb_modify (\<lambda>mb. mb\<lparr>readPos := u32 (readPos mb + (len + 1))\<rparr>))
       (\<lambda>_. op_return (value @ s)))) mb"

text \<open>The pointer that is returned is given as its offset in the buffer.\<close>

definition read_cstr_direct :: "nat mop" where
  "read_cstr_direct mb =
     op_bind (op_res (strlen (drop (readPos mb) (buffer mb))))
       (\<lambda>len. op_bind (mb_modify (\<lambda>mb. mb\<lparr>readPos := u32 (readPos mb + (len + 1))\<rparr>))
       (\<lambda>_. op_return (readPos mb))) mb"

definition read_mem :: "nat \<Rightarrow> bytes mop" where
  "read_mem len = (if len \<noteq> 0 then take_bytes len else op_return [])"

definition readEndian :: "nat \<Rightarrow> bytes mop" where
  "readEndian len mb = op_bind (take_bytes len) (\<lambda>xs. op_return (if swapEndian mb then cpyrevn xs else xs)) mb"

definition readSwap :: "nat \<Rightarrow> bytes mop" where
  "readSwap len = op_bind (take_bytes len) (\<lambda>xs. op_return (cpyrevn xs))"

definition read_short :: "16 word mop" where "read_short = op_bind (readEndian 2) (\<lambda>xs. op_return (load16 xs 0))"
definition read_ushort :: "16 word mop" where "read_ushort = op_bind (readEndian 2) (\<lambda>xs. op_return (load16 xs 0))"
definition read_int :: "32 word mop" where "read_int = op_bind (readEndian 4) (\<lambda>xs. op_return (load32 xs 0))"
definition read_unsigned :: "32 word mop" where "read_unsigned = op_bind (readEndian 4) (\<lambda>xs. op_return (load32 xs 0))"
definition read_uint64 :: "64 word mop" where "read_uint64 = op_bind (readEndian 8) (\<lambda>xs. op_return (load64 xs 0))"
definition read_int64 :: "64 word mop" where "read_int64 = op_bind (readEndian 8) (\<lambda>xs. op_return (load64 xs 0))"

definition readDirect :: "nat \<Rightarrow> nat mop" where
  "readDirect len mb = (Inr (readPos mb), mb\<lparr>readPos := u32 (readPos mb + len)\<rparr>)"

text \<open>
  A packed number: seven bits at a time, least significant first. A shift by 64 or more is undefined,
  which ends the loop after ten bytes at the latest.
\<close>

function readPacked_loop :: "64 word \<Rightarrow> nat \<Rightarrow> 64 word mop" where
  "readPacked_loop value shift =
     op_bind read_uchar
       (\<lambda>nxt. if shift \<ge> 64 then op_throw Undefined
         else let value = value OR push_bit shift (ucast (nxt AND 0x7f))
           in if nxt AND 0x80 = 0 then op_return value else readPacked_loop value (shift + 7))"
  by pat_completeness auto
termination
  by (relation "measure (\<lambda>(value, shift). 64 - shift)") auto

declare readPacked_loop.simps [simp del]

definition readPacked :: "64 word mop" where
  "readPacked = readPacked_loop 0 0"

definition readPacked_unsigned :: "32 word mop" where
  "readPacked_unsigned = op_bind readPacked (\<lambda>serializedValue. op_return (ucast serializedValue))"

definition skip :: "nat \<Rightarrow> unit mop" where
  "skip len = mb_modify (\<lambda>mb. mb\<lparr>readPos := u32 (readPos mb + len)\<rparr>)"

section \<open>Writing in place and positions\<close>

definition writeDirect :: "nat \<Rightarrow> bytes \<Rightarrow> unit mop" where
  "writeDirect p buf mb =
     (if \<not> u32 (p + length buf) \<le> curLen mb then (Inl AssertFailed, mb) else mb_store p (map Some buf) mb)"

definition writeEndianDirect :: "nat \<Rightarrow> bytes \<Rightarrow> unit mop" where
  "writeEndianDirect p buf mb =
     (if \<not> u32 (p + length buf) \<le> curLen mb then (Inl AssertFailed, mb)
      else mb_store p (map Some (if swapEndian mb then cpyrevn buf else buf)) mb)"

definition rewrite :: "nat \<Rightarrow> unit mop" where
  "rewrite p mb =
     (if \<not> p \<le> maxLen mb then (Inl AssertFailed, mb)
      else (Inr (), mb\<lparr>curLen := p, readPos := (if readPos mb > p then p else readPos mb)\<rparr>))"

definition mb_reset :: "nat \<Rightarrow> unit mop" where
  "mb_reset p = mb_modify (\<lambda>mb. mb\<lparr>readPos := p\<rparr>)"

definition setSwapEndian :: "bool \<Rightarrow> bool mop" where
  "setSwapEndian swap mb = (Inr (swapEndian mb), mb\<lparr>swapEndian := swap\<rparr>)"

text \<open>The values of \<^verbatim>\<open>__LITTLE_ENDIAN\<close> and \<^verbatim>\<open>__BIG_ENDIAN\<close>; the machine is little endian.\<close>

abbreviation LITTLE_ENDIAN :: int where "LITTLE_ENDIAN \<equiv> 1234"
abbreviation BIG_ENDIAN :: int where "BIG_ENDIAN \<equiv> 4321"

definition setEndian :: "int \<Rightarrow> int mop" where
  "setEndian endian =
     (if \<not> (endian = LITTLE_ENDIAN \<or> endian = BIG_ENDIAN) then op_throw AssertFailed
      else op_bind (setSwapEndian (endian \<noteq> LITTLE_ENDIAN))
        (\<lambda>wasSwapped. op_return (if wasSwapped then LITTLE_ENDIAN XOR LITTLE_ENDIAN XOR BIG_ENDIAN else LITTLE_ENDIAN)))"

section \<open>Strings and memory blocks with their length\<close>

definition serialize_attr :: "bytes \<Rightarrow> unit mop" where
  "serialize_attr value =
     (let len = u32 (length value)
      in op_bind (append_unsigned (of_nat len)) (\<lambda>_. append_mem (take len value)))"

definition deserialize_attr :: "bytes mop" where
  "deserialize_attr = op_bind read_unsigned (\<lambda>len. read_mem (unat len))"

definition serialize_cstr :: "bytes option \<Rightarrow> unit mop" where
  "serialize_cstr value =
     (case value of
        Some s \<Rightarrow> (let len = u32 (length s) in op_bind (append_unsigned (of_nat len)) (\<lambda>_. append_mem (take len s)))
      | None \<Rightarrow> append_unsigned (- 1))"

definition deserialize_string :: "bytes option mop" where
  "deserialize_string =
     op_bind read_unsigned
       (\<lambda>len. if len = - 1 then op_return None
         else op_bind (read_mem (unat len)) (\<lambda>s. op_return (Some s)))"

end
