(* ===== verification/Jset.thy ===== *)
theory Jset
  imports Jbuff
begin

text \<open>
  Bit sets (system/jlib/jset.cpp and .hpp): the template \<^verbatim>\<open>CBitSetBase\<close> over a helper class that holds
  the bits, the two helpers, and the two classes built from them, \<^verbatim>\<open>CBitSetThreadSafe\<close> over an array and
  \<^verbatim>\<open>CBitSet\<close> over memory of the client or over a \<^verbatim>\<open>MemoryBuffer\<close>.

  The template parameter is the record \<open>helper\<close> of the four methods the template calls, an argument of each of
  its operations. A bit number is a natural number below \<open>2 ^ 32\<close>, \<open>u32\<close> is written where the
  arithmetic of \<^verbatim>\<open>unsigned\<close> can wrap around. The critical sections of \<^verbatim>\<open>CBitSetThreadSafe\<close> make its operations
  atomic, so that they are modelled one at a time.
\<close>

type_synonym bits_t = "32 word"

abbreviation BitsPerItem :: nat where "BitsPerItem \<equiv> 32"

section \<open>Least significant bit\<close>

function ctz_loop :: "bits_t \<Rightarrow> bits_t \<Rightarrow> nat \<Rightarrow> nat" where
  "ctz_loop val msk i =
     (if i < 32 then if val AND msk \<noteq> 0 then i else ctz_loop val (push_bit 1 msk) (i + 1) else i)"
  by pat_completeness auto
termination
  by (relation "measure (\<lambda>(val, msk, i). 32 - i)") auto

declare ctz_loop.simps [simp del]

definition countTrailingUnsetBits :: "bits_t \<Rightarrow> nat" where
  "countTrailingUnsetBits val = ctz_loop val 1 0"

section \<open>The helpers\<close>

record 'h helper =
  getBits :: "nat \<Rightarrow> ('h, bits_t) op"
  setBits :: "nat \<Rightarrow> bits_t \<Rightarrow> ('h, unit) op"
  addBitSet :: "bits_t \<Rightarrow> ('h, unit) op"
  getWidth :: "'h \<Rightarrow> nat"

record CBitSetArrayHelper =
  bits :: "bits_t list"

definition array_helper :: "CBitSetArrayHelper helper" where
  "array_helper =
     \<lparr>getBits = (\<lambda>i h. (if i < length (bits h) then Inr (bits h ! i) else Inl AssertFailed, h)),
      setBits = (\<lambda>i m h. if i < length (bits h) then (Inr (), h\<lparr>bits := (bits h)[i := m]\<rparr>) else (Inl AssertFailed, h)),
      addBitSet = (\<lambda>m h. (Inr (), h\<lparr>bits := bits h @ [m]\<rparr>)),
      getWidth = (\<lambda>h. length (bits h))\<rparr>"

text \<open>
  What \<^verbatim>\<open>mem\<close> points at: nothing, the memory of the client (\<open>extern\<close>), or the block of \<^verbatim>\<open>mb\<close> (\<open>membuf\<close>).
\<close>

datatype mem_ptr = NullMem | ExternMem | MbMem

record CBitSetMemoryHelper =
  mem_at :: mem_ptr
  extern :: block
  bitSetUnits :: nat
  membuf :: MemoryBuffer
  fixedMemory :: bool

definition CBitSetMemoryHelper_new :: CBitSetMemoryHelper where
  "CBitSetMemoryHelper_new = \<lparr>mem_at = NullMem, extern = [], bitSetUnits = 0, membuf = mb_init, fixedMemory = False\<rparr>"

definition mem_block :: "CBitSetMemoryHelper \<Rightarrow> block" where
  "mem_block h = (case mem_at h of NullMem \<Rightarrow> [] | ExternMem \<Rightarrow> extern h | MbMem \<Rightarrow> buffer (membuf h))"

definition set_block :: "block \<Rightarrow> CBitSetMemoryHelper \<Rightarrow> CBitSetMemoryHelper" where
  "set_block blk h =
     (case mem_at h of NullMem \<Rightarrow> h | ExternMem \<Rightarrow> h\<lparr>extern := blk\<rparr> | MbMem \<Rightarrow> h\<lparr>membuf := (membuf h)\<lparr>buffer := blk\<rparr>\<rparr>)"

definition memory_getBits :: "nat \<Rightarrow> (CBitSetMemoryHelper, bits_t) op" where
  "memory_getBits i h = (res_bind (load_bytes (mem_block h) (4 * i) 4) (\<lambda>xs. Inr (load32 xs 0)), h)"

definition memory_setBits :: "nat \<Rightarrow> bits_t \<Rightarrow> (CBitSetMemoryHelper, unit) op" where
  "memory_setBits i m h =
     (case store_block (mem_block h) (4 * i) (map Some (var32 m)) of
        Inl e \<Rightarrow> (Inl e, h)
      | Inr blk \<Rightarrow> (Inr (), set_block blk h))"

definition memory_addBitSet :: "bits_t \<Rightarrow> (CBitSetMemoryHelper, unit) op" where
  "memory_addBitSet m h =
     (if fixedMemory h then (Inl (Thrown (- 1)), h)
      else case append_unsigned m (membuf h) of
          (Inl e, mb) \<Rightarrow> (Inl e, h\<lparr>membuf := mb\<rparr>)
        | (Inr _, mb) \<Rightarrow> (Inr (), h\<lparr>membuf := mb, mem_at := MbMem, bitSetUnits := u32 (bitSetUnits h + 1)\<rparr>))"

definition memory_helper :: "CBitSetMemoryHelper helper" where
  "memory_helper =
     \<lparr>getBits = memory_getBits, setBits = memory_setBits, addBitSet = memory_addBitSet, getWidth = bitSetUnits\<rparr>"

section \<open>Single bits\<close>

text \<open>
  \<^verbatim>\<open>while (i > getWidth()) addBitSet(0)\<close>. Each round adds an item, so that \<open>i\<close> rounds are enough.
\<close>

fun widen_loop :: "'h helper \<Rightarrow> nat \<Rightarrow> nat \<Rightarrow> ('h, unit) op" where
  "widen_loop H i 0 h = (if i > getWidth H h then (Inl NoReturn, h) else (Inr (), h))"
| "widen_loop H i (Suc fuel) h =
     (if i > getWidth H h then op_bind (addBitSet H 0) (\<lambda>_. widen_loop H i fuel) h else (Inr (), h))"

definition bs_set :: "'h helper \<Rightarrow> nat \<Rightarrow> bool \<Rightarrow> ('h, unit) op" where
  "bs_set H n val h =
     (let t = push_bit (n mod BitsPerItem) 1; i = n div BitsPerItem
      in if i \<ge> getWidth H h then
           if \<not> val then (Inr (), h) else op_bind (widen_loop H i i) (\<lambda>_. addBitSet H t) h
         else op_bind (getBits H i) (\<lambda>m. setBits H i (if val then m OR t else m AND NOT t)) h)"

definition bs_invert :: "'h helper \<Rightarrow> nat \<Rightarrow> ('h, bool) op" where
  "bs_invert H n h =
     (let t = push_bit (n mod BitsPerItem) 1; i = n div BitsPerItem
      in if i \<ge> getWidth H h then
           op_bind (widen_loop H i i) (\<lambda>_. op_bind (addBitSet H t) (\<lambda>_. op_return True)) h
         else op_bind (getBits H i)
           (\<lambda>m. let ret = (0 = m AND t)
             in op_bind (setBits H i (if ret then m OR t else m AND NOT t)) (\<lambda>_. op_return ret)) h)"

definition bs_test :: "'h helper \<Rightarrow> nat \<Rightarrow> ('h, bool) op" where
  "bs_test H n h =
     (let t = push_bit (n mod BitsPerItem) 1; i = n div BitsPerItem
      in if i < getWidth H h then op_bind (getBits H i) (\<lambda>m. op_return (m AND t \<noteq> 0)) h else (Inr False, h))"

definition bs_testSet :: "'h helper \<Rightarrow> nat \<Rightarrow> bool \<Rightarrow> ('h, bool) op" where
  "bs_testSet H n val h =
     (let t = push_bit (n mod BitsPerItem) 1; i = n div BitsPerItem
      in if i \<ge> getWidth H h then
           op_bind (if val then op_bind (widen_loop H i i) (\<lambda>_. addBitSet H t) else op_return ()) (\<lambda>_. op_return False) h
         else op_bind (getBits H i)
           (\<lambda>m. if m AND t \<noteq> 0
             then op_bind (if \<not> val then setBits H i (m AND NOT t) else op_return ()) (\<lambda>_. op_return True)
             else op_bind (if val then setBits H i (m OR t) else op_return ()) (\<lambda>_. op_return False)) h)"

section \<open>Searching\<close>

text \<open>A match at bit \<open>p\<close> of item \<open>i\<close>, which is inverted if \<^verbatim>\<open>scninv\<close> says so.\<close>

definition scan_hit :: "'h helper \<Rightarrow> nat \<Rightarrow> bits_t \<Rightarrow> nat \<Rightarrow> bool \<Rightarrow> ('h, nat) op" where
  "scan_hit H i m p scninv =
     op_bind (if scninv then setBits H i (m XOR push_bit p 1) else op_return ())
       (\<lambda>_. op_return (u32 (i * BitsPerItem + p)))"

text \<open>The main loop; \<open>None\<close> when no item has a match.\<close>

function scan_loop :: "'h helper \<Rightarrow> bits_t \<Rightarrow> bool \<Rightarrow> nat \<Rightarrow> nat \<Rightarrow> ('h, nat option) op" where
  "scan_loop H noMatchMask scninv n i =
     (if i < n then
        op_bind (getBits H i)
          (\<lambda>m. if m \<noteq> noMatchMask
            then op_bind (scan_hit H i m (countTrailingUnsetBits (m XOR noMatchMask)) scninv) (\<lambda>r. op_return (Some r))
            else scan_loop H noMatchMask scninv n (i + 1))
      else op_return None)"
  by pat_completeness auto
termination
  by (relation "measure (\<lambda>(H, noMatchMask, scninv, n, i). n - i)") auto

declare scan_loop.simps [simp del]

text \<open>The first item, when the search starts inside it; \<open>None\<close> when it has no match from bit \<open>j\<close> on.\<close>

definition scan_first :: "'h helper \<Rightarrow> bits_t \<Rightarrow> bool \<Rightarrow> nat \<Rightarrow> nat \<Rightarrow> ('h, nat option) op" where
  "scan_first H noMatchMask scninv i j =
     op_bind (getBits H i)
       (\<lambda>m. let testMask = (m XOR noMatchMask) AND NOT (push_bit j 1 - 1)
         in if m \<noteq> noMatchMask \<and> testMask \<noteq> 0
            then op_bind (scan_hit H i m (countTrailingUnsetBits testMask) scninv) (\<lambda>r. op_return (Some r))
            else op_return None)"

definition bs_scan :: "'h helper \<Rightarrow> nat \<Rightarrow> bool \<Rightarrow> bool \<Rightarrow> ('h, nat) op" where
  "bs_scan H from tst scninv h =
     (let noMatchMask = (if tst then 0 else - 1);
          j = from mod BitsPerItem;
          n = getWidth H h;
          i = from div BitsPerItem;
          inside = (j \<noteq> 0 \<and> i < n)
      in op_bind (if inside then scan_first H noMatchMask scninv i j else op_return None)
           (\<lambda>r. case r of Some k \<Rightarrow> op_return k
             | None \<Rightarrow> op_bind (scan_loop H noMatchMask scninv n (if inside then i + 1 else i))
                 (\<lambda>r. case r of Some k \<Rightarrow> op_return k
                   | None \<Rightarrow> if tst then op_return (2 ^ 32 - 1)
                     else let ret = (if u32 (n * BitsPerItem) < from then from else u32 (n * BitsPerItem))
                       in op_bind (if scninv then bs_set H ret True else op_return ()) (\<lambda>_. op_return ret))) h)"

section \<open>Ranges\<close>

text \<open>The bits of one item from bit \<open>j\<close> on; \<open>nb\<close> is the number of bits still to do.\<close>

function fill_bits :: "bool \<Rightarrow> nat \<Rightarrow> bits_t \<Rightarrow> bits_t \<Rightarrow> nat \<Rightarrow> bits_t \<times> nat" where
  "fill_bits val j t m nb =
     (if j < BitsPerItem then
        let m = (if val then m OR t else m AND NOT t); nb = u32 (nb + 2 ^ 32 - 1)
        in if nb = 0 then (m, nb) else fill_bits val (j + 1) (push_bit 1 t) m nb
      else (m, nb))"
  by pat_completeness auto
termination
  by (relation "measure (\<lambda>(val, j, t, m, nb). BitsPerItem - j)") auto

declare fill_bits.simps [simp del]

primrec add_zeros :: "'h helper \<Rightarrow> nat \<Rightarrow> ('h, unit) op" where
  "add_zeros H 0 = op_return ()"
| "add_zeros H (Suc k) = op_bind (addBitSet H 0) (\<lambda>_. add_zeros H k)"

text \<open>The loop over the items that exist; the result is the number of bits still to do.\<close>

function incl_loop :: "'h helper \<Rightarrow> bool \<Rightarrow> nat \<Rightarrow> nat \<Rightarrow> nat \<Rightarrow> nat \<Rightarrow> ('h, nat) op" where
  "incl_loop H val n i j nb =
     (if i < n then
        op_bind
          (if nb \<ge> BitsPerItem \<and> j = 0 then op_return (if val then - 1 else 0, nb - BitsPerItem)
           else op_bind (getBits H i) (\<lambda>m. op_return (fill_bits val j (push_bit j 1) m nb)))
          (\<lambda>(m, nb). op_bind (setBits H i m)
            (\<lambda>_. if nb = 0 then op_return 0 else incl_loop H val n (i + 1) 0 nb))
      else op_return nb)"
  by pat_completeness auto
termination
  by (relation "measure (\<lambda>(H, val, n, i, j, nb). n - i)") auto

declare incl_loop.simps [simp del]

function add_full :: "'h helper \<Rightarrow> nat \<Rightarrow> ('h, nat) op" where
  "add_full H nb =
     (if nb \<ge> BitsPerItem then op_bind (addBitSet H (- 1)) (\<lambda>_. add_full H (nb - BitsPerItem)) else op_return nb)"
  by pat_completeness auto
termination
  by (relation "measure (\<lambda>(H, nb). nb)") auto

declare add_full.simps [simp del]

definition bs_incl :: "'h helper \<Rightarrow> nat \<Rightarrow> nat \<Rightarrow> bool \<Rightarrow> ('h, unit) op" where
  "bs_incl H lo hi val h =
     (if hi < lo then (Inr (), h)
      else
        let j = lo mod BitsPerItem; nb = u32 ((hi - lo) + 1); n = getWidth H h; i = lo div BitsPerItem
        in if n \<le> i \<and> \<not> val then (Inr (), h)
           else op_bind
             (if n \<le> i
              then op_bind (add_zeros H (i - n))
                (\<lambda>_. if j > 0
                  then let (m, nb) = fill_bits True j (push_bit j 1) 0 nb in op_bind (addBitSet H m) (\<lambda>_. op_return nb)
                  else op_return nb)
              else incl_loop H val n i j nb)
             (\<lambda>nb. if nb = 0 \<or> \<not> val then op_return ()
               else op_bind (add_full H nb)
                 (\<lambda>nb. if nb > 0 then addBitSet H (fst (fill_bits True 0 (push_bit 0 1) 0 nb)) else op_return ())) h)"

section \<open>The classes\<close>

definition bs_scan_only :: "'h helper \<Rightarrow> nat \<Rightarrow> bool \<Rightarrow> ('h, nat) op" where
  "bs_scan_only H from tst = bs_scan H from tst False"

definition bs_scanInvert :: "'h helper \<Rightarrow> nat \<Rightarrow> bool \<Rightarrow> ('h, nat) op" where
  "bs_scanInvert H from tst = bs_scan H from tst True"

definition bs_include :: "'h helper \<Rightarrow> nat \<Rightarrow> nat \<Rightarrow> ('h, unit) op" where
  "bs_include H lo hi = bs_incl H lo hi True"

definition bs_exclude :: "'h helper \<Rightarrow> nat \<Rightarrow> nat \<Rightarrow> ('h, unit) op" where
  "bs_exclude H lo hi = bs_incl H lo hi False"

definition getBitSetMemoryRequirement :: "nat \<Rightarrow> nat" where
  "getBitSetMemoryRequirement numBits = u32 (u32 (numBits + (BitsPerItem - 1)) div BitsPerItem * 4)"

subsection \<open>The thread-safe class\<close>

definition CBitSetThreadSafe_new :: CBitSetArrayHelper where
  "CBitSetThreadSafe_new = \<lparr>bits = []\<rparr>"

definition threadsafe_reset :: "(CBitSetArrayHelper, unit) op" where
  "threadsafe_reset h = (Inr (), h\<lparr>bits := []\<rparr>)"

fun append_items :: "bits_t list \<Rightarrow> unit mop" where
  "append_items [] = op_return ()"
| "append_items (b # bs) = op_bind (append_unsigned b) (\<lambda>_. append_items bs)"

definition threadsafe_serialize :: "CBitSetArrayHelper \<Rightarrow> unit mop" where
  "threadsafe_serialize h = op_bind (append_unsigned (of_nat (length (bits h)))) (\<lambda>_. append_items (bits h))"

fun read_items :: "nat \<Rightarrow> bits_t list \<Rightarrow> bits_t list mop" where
  "read_items 0 acc = op_return acc"
| "read_items (Suc k) acc = op_bind read_unsigned (\<lambda>b. read_items k (acc @ [b]))"

definition threadsafe_deserialize :: "CBitSetArrayHelper mop" where
  "threadsafe_deserialize =
     op_bind read_unsigned
       (\<lambda>cnt. op_bind (if cnt \<noteq> 0 then read_items (unat cnt) [] else op_return []) (\<lambda>bs. op_return \<lparr>bits = bs\<rparr>))"

subsection \<open>The class over memory\<close>

text \<open>A pointer that is passed with the size of its memory.\<close>

definition CBitSet_extern :: "block \<Rightarrow> bool \<Rightarrow> CBitSetMemoryHelper" where
  "CBitSet_extern blk reset =
     (let units = length blk div 4
      in CBitSetMemoryHelper_new\<lparr>bitSetUnits := units, mem_at := ExternMem,
           extern := (if reset then replicate (units * 4) (Some 0) @ drop (units * 4) blk else blk), fixedMemory := True\<rparr>)"

definition CBitSet_sized :: "nat \<Rightarrow> unit res \<times> CBitSetMemoryHelper" where
  "CBitSet_sized initialBits =
     (let memRequired = getBitSetMemoryRequirement initialBits
      in case appendBytes 0 memRequired mb_init of
           (Inl e, mb) \<Rightarrow> (Inl e, CBitSetMemoryHelper_new\<lparr>membuf := mb\<rparr>)
         | (Inr _, mb) \<Rightarrow> (Inr (), CBitSetMemoryHelper_new\<lparr>membuf := mb, mem_at := MbMem, bitSetUnits := memRequired div 4\<rparr>))"

definition bitset_reset :: "(CBitSetMemoryHelper, unit) op" where
  "bitset_reset h =
     (case store_block (mem_block h) 0 (replicate (4 * bitSetUnits h) (Some 0)) of
        Inl e \<Rightarrow> (Inl e, h)
      | Inr blk \<Rightarrow> (Inr (), set_block blk h))"

definition bitset_serialize :: "CBitSetMemoryHelper \<Rightarrow> unit mop" where
  "bitset_serialize h =
     op_bind (append_unsigned (of_nat (BitsPerItem * bitSetUnits h)))
       (\<lambda>_. let len = u32 (bitSetUnits h * 4)
         in if len = 0 then op_return ()
            else if length (mem_block h) < len then op_throw OutOfRange
            else write_end (take len (mem_block h)))"

text \<open>
  The memory is reserved in the set's own buffer; nothing but the number of bits is read from the buffer that is passed.
\<close>

definition bitset_deserialize :: "CBitSetMemoryHelper mop" where
  "bitset_deserialize =
     op_bind read_unsigned
       (\<lambda>cnt. if cnt \<noteq> 0 then
           let bitSets = unat cnt div BitsPerItem
           in case reserveTruncate (u32 (bitSets * 4)) mb_init of
                (Inl e, _) \<Rightarrow> op_throw e
              | (Inr _, mb) \<Rightarrow> op_return (CBitSetMemoryHelper_new\<lparr>bitSetUnits := bitSets, membuf := mb, mem_at := MbMem\<rparr>)
         else op_return CBitSetMemoryHelper_new)"

end
