(* ===== verification/Jbuff_Proofs.thy ===== *)
theory Jbuff_Proofs
  imports Jbuff Rtlint_Proofs
begin

text \<open>
  \<^verbatim>\<open>MemoryBuffer\<close>: the growth of its allocation ends with enough room, an append adds its bytes after
  those the buffer holds or throws and leaves the buffer alone, and whatever sequence of values is
  written is read back, in either byte order. \<open>mb_inv\<close> is the invariant of a buffer and \<open>mb_bytes\<close> the bytes it holds.
\<close>

definition mb_inv :: "MemoryBuffer \<Rightarrow> bool" where
  "mb_inv mb \<longleftrightarrow> length (buffer mb) = maxLen mb \<and> curLen mb \<le> maxLen mb \<and> maxLen mb < 2 ^ 32"

definition mb_bytes :: "MemoryBuffer \<Rightarrow> block" where
  "mb_bytes mb = take (curLen mb) (buffer mb)"

lemma length_mb_bytes: "mb_inv mb \<Longrightarrow> length (mb_bytes mb) = curLen mb"
  by (simp add: mb_inv_def mb_bytes_def)

lemma u32_id [simp]: "x < 2 ^ 32 \<Longrightarrow> u32 x = x"
  by (simp add: u32_def)

lemma op_bind_res [simp]: "op_bind (op_res (Inr x)) f mb = f x mb" "op_bind (op_res (Inl e)) f mb = (Inl e, mb)"
  by (simp_all add: op_bind_def op_res_def)

lemma op_bind_return [simp]: "op_bind (op_return x) f = f x"
  by (simp add: op_bind_def op_return_def fun_eq_iff)

lemma op_bind_modify [simp]: "op_bind (mb_modify g) f mb = f () (g mb)"
  by (simp add: op_bind_def mb_modify_def)

section \<open>Allocation\<close>

lemma check_ok: "cur + inc \<le> MEMBUFFER_MAXLEN \<Longrightarrow> checkMemoryBufferOverflow cur inc = Inr (cur + inc)"
  by (simp add: checkMemoryBufferOverflow_def)

lemma check_throws: "MEMBUFFER_MAXLEN < cur + inc \<Longrightarrow> checkMemoryBufferOverflow cur inc = Inl (Thrown (- 10))"
  by (simp add: checkMemoryBufferOverflow_def)

lemma double_loop_spec:
  "0 < m \<Longrightarrow> n < BUFF_DOUBLE_LIMIT \<Longrightarrow> m < 2 ^ 32 \<Longrightarrow>
    \<exists>c. double_loop n m = Inr c \<and> n \<le> c \<and> m \<le> c \<and> c < 2 ^ 32 \<and> (c = m \<or> c < 2 * n)"
proof (induction n m rule: double_loop.induct)
  case (1 n m)
  show ?case
  proof (cases "m < n")
    case True
    then have c: "checkMemoryBufferOverflow m m = Inr (m + m)" using "1.prems" by (intro check_ok) simp
    have "\<exists>c. double_loop n (m + m) = Inr c \<and> n \<le> c \<and> m + m \<le> c \<and> c < 2 ^ 32 \<and> (c = m + m \<or> c < 2 * n)"
      using "1.IH" [OF True _ c] "1.prems" True by auto
    then show ?thesis using True "1.prems" c by (subst double_loop.simps) auto
  qed (use 1 in \<open>simp add: double_loop.simps\<close>)
qed

lemma new_capacity_spec:
  assumes "cap < n" "n < 0xffff0000"
  shows "\<exists>c. new_capacity cap n = Inr c \<and> n \<le> c \<and> cap \<le> c \<and> c < 2 ^ 32 \<and> (c < 2 * n \<or> c = BUFF_FIRST_CHUNK_SIZE)"
proof (cases "n < BUFF_DOUBLE_LIMIT")
  case True
  define m where "m = (if cap = 0 then BUFF_FIRST_CHUNK_SIZE else cap)"
  have "0 < m" "m < 2 ^ 32" using True assms by (auto simp: m_def)
  then obtain c where "double_loop n m = Inr c" "n \<le> c" "m \<le> c" "c < 2 ^ 32" "c = m \<or> c < 2 * n"
    using double_loop_spec [of m n] True by auto
  then show ?thesis using True assms by (auto simp: new_capacity_def m_def split: if_splits)
next
  case False
  have "n div ChunkSize \<le> 65534" using assms(2) by (simp add: div_le_mono [of n _ ChunkSize, simplified])
  moreover have "n < n div ChunkSize * ChunkSize + ChunkSize" by (simp add: dividend_less_div_times)
  moreover have "n div ChunkSize * ChunkSize \<le> n" by simp
  ultimately show ?thesis using False assms(1) by (simp add: new_capacity_def check_ok)
qed

lemma new_capacity_throws:
  assumes "0xffff0000 \<le> n"
  shows "new_capacity cap n = Inl (Thrown (- 10))"
proof -
  have "65535 \<le> n div ChunkSize" using assms div_le_mono [of "0xffff0000" n ChunkSize] by simp
  then show ?thesis using assms by (simp add: new_capacity_def check_throws)
qed

lemma realloc_grow: "length blk \<le> n \<Longrightarrow> realloc blk n = blk @ replicate (n - length blk) None"
  by (simp add: realloc_def)

lemma mb_realloc_spec:
  assumes "mb_inv mb" "n \<le> maxLen mb \<or> ownBuffer mb \<and> n < 0xffff0000"
  shows "\<exists>k. mb_realloc n mb = (Inr (), mb\<lparr>buffer := buffer mb @ replicate k None, maxLen := maxLen mb + k\<rparr>) \<and>
    n \<le> maxLen mb + k \<and> maxLen mb + k < 2 ^ 32 \<and> (k = 0 \<or> maxLen mb + k < 2 * n \<or> maxLen mb + k = BUFF_FIRST_CHUNK_SIZE)"
proof (cases "n \<le> maxLen mb")
  case True
  then show ?thesis using assms(1) by (intro exI [of _ 0]) (simp add: mb_realloc_def mb_inv_def)
next
  case False
  with assms(2) obtain c where "new_capacity (maxLen mb) n = Inr c" "n \<le> c" "maxLen mb \<le> c" "c < 2 ^ 32"
    "c < 2 * n \<or> c = BUFF_FIRST_CHUNK_SIZE"
    using new_capacity_spec [of "maxLen mb" n] by auto
  then show ?thesis using False assms
    by (intro exI [of _ "c - maxLen mb"]) (simp add: mb_realloc_def mb_inv_def realloc_grow)
qed

section \<open>Appending\<close>

definition appended :: "MemoryBuffer \<Rightarrow> block \<Rightarrow> MemoryBuffer \<Rightarrow> bool" where
  "appended mb xs mb' \<longleftrightarrow> mb_inv mb' \<and> maxLen mb \<le> maxLen mb' \<and> mb_bytes mb' = mb_bytes mb @ xs \<and>
     readPos mb' = readPos mb \<and> swapEndian mb' = swapEndian mb \<and> ownBuffer mb' = ownBuffer mb"

definition mb_room :: "MemoryBuffer \<Rightarrow> nat \<Rightarrow> bool" where
  "mb_room mb n \<longleftrightarrow> curLen mb + n \<le> maxLen mb \<or> ownBuffer mb \<and> curLen mb + n < 0xffff0000"

lemma appended_curLen: "mb_inv mb \<Longrightarrow> appended mb xs mb' \<Longrightarrow> curLen mb' = curLen mb + length xs"
  using length_mb_bytes [of mb'] by (simp add: appended_def length_mb_bytes)

lemma appended_trans: "appended mb xs mb' \<Longrightarrow> appended mb' ys mb'' \<Longrightarrow> appended mb (xs @ ys) mb''"
  by (simp add: appended_def)

lemma write_end_spec:
  assumes inv: "mb_inv mb" and mb_room: "mb_room mb (length xs)"
  shows "\<exists>mb'. write_end xs mb = (Inr (), mb') \<and> appended mb xs mb' \<and>
    (maxLen mb' = maxLen mb \<or> maxLen mb' < 2 * curLen mb' \<or> maxLen mb' = BUFF_FIRST_CHUNK_SIZE)"
proof -
  let ?n = "curLen mb + length xs"
  have le: "?n \<le> MEMBUFFER_MAXLEN" using inv mb_room by (auto simp: mb_inv_def mb_room_def)
  obtain k where k: "mb_realloc ?n mb = (Inr (), mb\<lparr>buffer := buffer mb @ replicate k None, maxLen := maxLen mb + k\<rparr>)"
    "?n \<le> maxLen mb + k" "maxLen mb + k < 2 ^ 32" "k = 0 \<or> maxLen mb + k < 2 * ?n \<or> maxLen mb + k = BUFF_FIRST_CHUNK_SIZE"
    using mb_realloc_spec [OF inv, of ?n] mb_room by (auto simp: mb_room_def)
  let ?b = "buffer mb @ replicate k None"
  have "store_block ?b (curLen mb) xs = Inr (take (curLen mb) ?b @ xs @ drop ?n ?b)"
    using inv k by (simp add: store_block_def mb_inv_def)
  then have "write_end xs mb = (Inr (), mb\<lparr>buffer := take (curLen mb) ?b @ xs @ drop ?n ?b,
      maxLen := maxLen mb + k, curLen := ?n\<rparr>)"
    using le k(1) by (simp add: write_end_def check_ok mb_store_def op_bind_def mb_modify_def op_res_def)
  then show ?thesis using inv k by (auto simp: appended_def mb_inv_def mb_bytes_def)
qed

lemma mb_room_appended:
  assumes "mb_inv mb" "appended mb xs mb'" "mb_room mb (length xs + n)"
  shows "mb_room mb' n"
  using appended_curLen [OF assms(1,2)] assms(2,3) by (auto simp: mb_room_def appended_def)

section \<open>Writers and readers\<close>

text \<open>
  \<open>appends f b xs\<close>: in byte order \<open>b\<close>, the operation \<open>f\<close> adds \<open>xs\<close> to any buffer with room for it.
  \<open>reads f b xs x\<close>: where a buffer holds \<open>xs\<close> at the read position, \<open>f\<close> gives \<open>x\<close> and moves the position behind \<open>xs\<close>.
\<close>

definition appends :: "unit mop \<Rightarrow> bool \<Rightarrow> bytes \<Rightarrow> bool" where
  "appends f b xs \<longleftrightarrow> (\<forall>mb. mb_inv mb \<longrightarrow> swapEndian mb = b \<longrightarrow> mb_room mb (length xs) \<longrightarrow>
     (\<exists>mb'. f mb = (Inr (), mb') \<and> appended mb (map Some xs) mb'))"

definition reads :: "'a mop \<Rightarrow> bool \<Rightarrow> bytes \<Rightarrow> 'a \<Rightarrow> bool" where
  "reads f b xs x \<longleftrightarrow> (\<forall>mb rest. mb_inv mb \<longrightarrow> swapEndian mb = b \<longrightarrow> readPos mb \<le> curLen mb \<longrightarrow>
     drop (readPos mb) (mb_bytes mb) = map Some xs @ rest \<longrightarrow> f mb = (Inr x, mb\<lparr>readPos := readPos mb + length xs\<rparr>))"

lemma appends_write_end: "appends (write_end (map Some xs)) b xs"
  using write_end_spec [where xs = "map Some xs"] by (fastforce simp: appends_def)

lemma appends_return: "appends (op_return ()) b []"
  by (simp add: appends_def appended_def op_return_def)

lemma appends_bind:
  assumes f: "appends f b xs" and g: "appends (g ()) b ys"
  shows "appends (op_bind f g) b (xs @ ys)"
  unfolding appends_def
proof (intro allI impI)
  fix mb assume mb: "mb_inv mb" "swapEndian mb = b" "mb_room mb (length (xs @ ys))"
  then have "mb_room mb (length xs)" by (auto simp: mb_room_def)
  with f mb obtain mb1 where 1: "f mb = (Inr (), mb1)" "appended mb (map Some xs) mb1"
    unfolding appends_def by blast
  then have "mb_room mb1 (length ys)" using mb_room_appended [OF mb(1) 1(2), of "length ys"] mb(3) by simp
  with g 1(2) mb(2) obtain mb2 where "g () mb1 = (Inr (), mb2)" "appended mb1 (map Some ys) mb2"
    unfolding appends_def by (auto simp: appended_def)
  then show "\<exists>mb'. op_bind f g mb = (Inr (), mb') \<and> appended mb (map Some (xs @ ys)) mb'"
    using 1 by (auto simp: op_bind_def intro: appended_trans)
qed

lemma reads_return: "reads (op_return x) b [] x"
  by (simp add: reads_def op_return_def)

lemma reads_bind:
  assumes f: "reads f b xs x" and g: "reads (g x) b ys y"
  shows "reads (op_bind f g) b (xs @ ys) y"
  unfolding reads_def
proof (intro allI impI)
  fix mb rest
  assume mb: "mb_inv mb" "swapEndian mb = b" "readPos mb \<le> curLen mb" "drop (readPos mb) (mb_bytes mb) = map Some (xs @ ys) @ rest"
  have 1: "f mb = (Inr x, mb\<lparr>readPos := readPos mb + length xs\<rparr>)" using f mb by (simp add: reads_def)
  have d: "drop (readPos mb + length xs) (mb_bytes mb) = map Some ys @ rest"
    using arg_cong [OF mb(4), of "drop (length xs)"] by (simp add: add.commute)
  have "readPos mb + length (xs @ ys) \<le> curLen mb"
    using arg_cong [OF mb(4), of length] length_mb_bytes [OF mb(1)] mb(3) by simp
  with g mb d have "g x (mb\<lparr>readPos := readPos mb + length xs\<rparr>) = (Inr y, mb\<lparr>readPos := readPos mb + length (xs @ ys)\<rparr>)"
    unfolding reads_def by (simp add: mb_inv_def mb_bytes_def add.assoc)
  then show "op_bind f g mb = (Inr y, mb\<lparr>readPos := readPos mb + length (xs @ ys)\<rparr>)" using 1 by (simp add: op_bind_def)
qed

lemma reads_take: "reads (take_bytes (length xs)) b xs xs"
  unfolding reads_def
proof (intro allI impI)
  fix mb rest
  assume mb: "mb_inv mb" "readPos mb \<le> curLen mb" "drop (readPos mb) (mb_bytes mb) = map Some xs @ rest"
  have len: "readPos mb + length xs \<le> curLen mb"
    using arg_cong [OF mb(3), of length] length_mb_bytes [OF mb(1)] mb(2) by simp
  have "take (length xs) (drop (readPos mb) (buffer mb)) = take (length xs) (drop (readPos mb) (mb_bytes mb))"
    using len by (simp add: mb_bytes_def drop_take min_def)
  then have "take (length xs) (drop (readPos mb) (buffer mb)) = map Some xs" using mb(3) by simp
  then show "take_bytes (length xs) mb = (Inr xs, mb\<lparr>readPos := readPos mb + length xs\<rparr>)"
    using mb(1) len by (auto simp: take_bytes_def load_bytes_def mb_inv_def comp_def)
qed

text \<open>A type with a writer, a reader and the bytes a value has in each byte order.\<close>

locale codec =
  fixes put :: "'a \<Rightarrow> unit mop" and get :: "'a mop" and enc :: "bool \<Rightarrow> 'a \<Rightarrow> bytes" and ok :: "'a \<Rightarrow> bool"
  assumes puts: "ok x \<Longrightarrow> appends (put x) b (enc b x)"
    and gets: "ok x \<Longrightarrow> reads get b (enc b x) x"
begin

lemma roundtrip:
  assumes "ok x" "mb_inv mb" "mb_room mb (length (enc (swapEndian mb) x))"
  shows "\<exists>mb'. put x mb = (Inr (), mb') \<and> appended mb (map Some (enc (swapEndian mb) x)) mb' \<and>
    get (mb'\<lparr>readPos := curLen mb\<rparr>) = (Inr x, mb'\<lparr>readPos := curLen mb'\<rparr>)"
proof -
  let ?xs = "enc (swapEndian mb) x"
  obtain mb' where mb': "put x mb = (Inr (), mb')" "appended mb (map Some ?xs) mb'"
    using puts [OF assms(1)] assms(2,3) unfolding appends_def by blast
  let ?r = "mb'\<lparr>readPos := curLen mb\<rparr>"
  have "mb_inv ?r" "swapEndian ?r = swapEndian mb" "drop (readPos ?r) (mb_bytes ?r) = map Some ?xs @ []"
    using mb'(2) length_mb_bytes [OF assms(2)] by (auto simp: appended_def mb_inv_def mb_bytes_def)
  moreover have "curLen mb' = curLen mb + length ?xs" using appended_curLen [OF assms(2) mb'(2)] by simp
  ultimately have "get ?r = (Inr x, mb'\<lparr>readPos := curLen mb'\<rparr>)"
    using gets [OF assms(1), of "swapEndian mb"] unfolding reads_def by simp
  then show ?thesis using mb' by blast
qed

end

section \<open>Codecs\<close>

lemma cpyrevn_rev: "cpyrevn xs = rev xs"
  by (rule nth_equalityI) (auto simp: cpyrevn_def rev_nth)

lemma length_cpyrevn [simp]: "length (cpyrevn xs) = length xs"
  by (simp add: cpyrevn_def)

lemma length_var [simp]: "length (var16 v) = 2" "length (var32 w) = 4" "length (var64 x) = 8"
  by (simp_all add: var16_def var32_def var64_def store_defs)

lemma var_list:
  "var16 v = [ucast v, ucast (drop_bit 8 v)]"
  "var32 w = [ucast w, ucast (drop_bit 8 w), ucast (drop_bit 16 w), ucast (drop_bit 24 w)]"
proof -
  show "var16 v = [ucast v, ucast (drop_bit 8 v)]" by (simp add: var16_def store_defs numeral_2_eq_2)
  have "ucast (drop_bit 8 (ucast (drop_bit k w) :: 16 word)) = (ucast (drop_bit (8 + k) w) :: 8 word)" for k
    by (rule bit_word_eqI) (auto simp: bit_simps ac_simps)
  from this [of 0] this [of 16]
  show "var32 w = [ucast w, ucast (drop_bit 8 w), ucast (drop_bit 16 w), ucast (drop_bit 24 w)]"
    by (simp add: var32_def store_defs replicate_0 byte_of_16)
qed

lemma load_var [simp]: "load16 (var16 v) 0 = v" "load32 (var32 w) 0 = w" "load64 (var64 x) 0 = x"
proof -
  show "load16 (var16 v) 0 = v" by (rule bit_word_eqI) (auto simp: var_list load16_def mem_def bit_simps)
  show "load32 (var32 w) 0 = w"
  proof (rule bit_word_eqI)
    fix n assume "n < LENGTH(32)"
    then show "bit (load32 (var32 w) 0) n = bit w n"
      by (cases "n < 16") (auto simp: var_list load32_def load16_def mem_def bit_simps)
  qed
  show "load64 (var64 x) 0 = x"
    using le_le_bytes [of 8 x] by (simp add: var64_bytes load64_le mem_def le_bytes_numeral take_bit_word_eq_self)
qed

definition endian :: "bool \<Rightarrow> bytes \<Rightarrow> bytes" where
  "endian b xs = (if b then rev xs else xs)"

lemma length_endian [simp]: "length (endian b xs) = length xs"
  by (simp add: endian_def)

lemma appends_mem: "appends (append_mem xs) b xs"
  using appends_write_end appends_return by (auto simp: append_mem_def)

lemma appends_endian: "appends (appendEndian xs) b (endian b xs)"
  using appends_write_end [of "endian b xs" b]
  by (auto simp: appends_def appendEndian_def endian_def cpyrevn_rev appended_def)

lemma reads_endian: "length xs = n \<Longrightarrow> reads (readEndian n) b (endian b xs) xs"
  using reads_bind [OF reads_take [of "endian b xs" b] reads_return, of "\<lambda>ys. if b then cpyrevn ys else ys"]
  by (auto simp: reads_def readEndian_def endian_def cpyrevn_rev split: if_splits)

lemma reads_mem: "reads (read_mem (length xs)) b xs xs"
  using reads_take [of xs] reads_return [of "[]" b] by (auto simp: read_mem_def)

interpretation uchar: codec append_uchar read_uchar "\<lambda>b x. [x]" "\<lambda>_. True"
proof
  fix x b
  show "appends (append_uchar x) b [x]" using appends_write_end [of "[x]"] by (simp add: append_uchar_def)
  show "reads read_uchar b [x] x"
    using reads_bind [OF reads_take [of "[x]"] reads_return, of "hd"] by (simp add: read_uchar_def)
qed

interpretation bool: codec append_bool read_bool "\<lambda>b x. [if x then 1 else 0]" "\<lambda>_. True"
proof
  fix x b
  show "appends (append_bool x) b [if x then 1 else 0]"
    using appends_write_end [of "[if x then 1 else 0]"] by (cases x) (simp_all add: append_bool_def)
  show "reads read_bool b [if x then 1 else 0] x"
    using reads_bind [OF reads_take [of "[if x then 1 else 0]"] reads_return, of "\<lambda>xs. if hd xs = 0 then False else True"]
    by (cases x) (simp_all add: read_bool_def)
qed

lemma reads_load:
  assumes "length (var x) = n" "load (var x) = x"
  shows "reads (op_bind (readEndian n) (\<lambda>xs. op_return (load xs))) b (endian b (var x)) x"
  using reads_bind [OF reads_endian [OF assms(1), of b] reads_return, of load] assms(2) by simp

interpretation unsigned: codec append_unsigned read_unsigned "\<lambda>b x. endian b (var32 x)" "\<lambda>_. True"
  by unfold_locales (simp_all add: append_unsigned_def read_unsigned_def appends_endian reads_load [where var = var32 and load = "\<lambda>xs. load32 xs 0"])

interpretation ushort: codec append_ushort read_ushort "\<lambda>b x. endian b (var16 x)" "\<lambda>_. True"
  by unfold_locales (simp_all add: append_ushort_def read_ushort_def appends_endian reads_load [where var = var16 and load = "\<lambda>xs. load16 xs 0"])

interpretation uint64: codec append_uint64 read_uint64 "\<lambda>b x. endian b (var64 x)" "\<lambda>_. True"
  by unfold_locales (simp_all add: append_uint64_def read_uint64_def appends_endian reads_load [where var = var64 and load = "\<lambda>xs. load64 xs 0"])

subsection \<open>Strings\<close>

lemma strlen_spec: "0 \<notin> set s \<Longrightarrow> strlen (map Some s @ Some 0 # rest) = Inr (length s)"
  by (induction s) simp_all

interpretation cstr: codec "\<lambda>s. append_cstr (Some s)" read_cstr "\<lambda>b s. s @ [0]" "\<lambda>s. 0 \<notin> set s"
proof
  fix s :: bytes and b
  assume s: "0 \<notin> set s"
  show "appends (append_cstr (Some s)) b (s @ [0])" by (simp add: append_cstr_def appends_mem)
  show "reads read_cstr b (s @ [0]) s"
    unfolding reads_def
  proof (intro allI impI)
    fix mb rest
    assume mb: "mb_inv mb" "swapEndian mb = b" "readPos mb \<le> curLen mb" "drop (readPos mb) (mb_bytes mb) = map Some (s @ [0]) @ rest"
    have "take_bytes (length s) mb = (Inr s, mb\<lparr>readPos := readPos mb + length s\<rparr>)"
      using reads_take [of s b] mb unfolding reads_def by simp
    then have load: "load_bytes (buffer mb) (readPos mb) (length s) = Inr s"
      by (simp add: take_bytes_def split: sum.splits)
    have "drop (readPos mb) (buffer mb) = drop (readPos mb) (mb_bytes mb) @ drop (curLen mb) (buffer mb)"
      using mb(1,3) by (metis append_take_drop_id drop_append length_mb_bytes mb_bytes_def diff_is_0_eq drop0)
    then have "strlen (drop (readPos mb) (buffer mb)) = Inr (length s)" using mb(4) strlen_spec [OF s] by simp
    moreover have "readPos mb + length (s @ [0]) < 2 ^ 32"
      using arg_cong [OF mb(4), of length] length_mb_bytes [OF mb(1)] mb(1,3) by (auto simp: mb_inv_def)
    ultimately show "read_cstr mb = (Inr s, mb\<lparr>readPos := readPos mb + length (s @ [0])\<rparr>)"
      using load by (simp add: read_cstr_def op_return_def)
  qed
qed

subsection \<open>Packed numbers\<close>

function vlq_bytes :: "64 word \<Rightarrow> bytes" where
  "vlq_bytes v = (if v \<ge> 0x80 then (ucast v OR 0x80) # vlq_bytes (drop_bit 7 v) else [ucast v])"
  by pat_completeness auto
termination
  by (relation "measure unat") (simp_all add: drop7_less)

declare vlq_bytes.simps [simp del]

lemma appends_packed: "appends (appendPacked v) b (vlq_bytes v)"
proof (induction v rule: vlq_bytes.induct)
  case (1 v)
  show ?case
  proof (cases "v \<ge> 0x80")
    case True
    then show ?thesis
      using appends_bind [OF uchar.puts [of "ucast v OR 0x80"], of "\<lambda>_. appendPacked (drop_bit 7 v)" b] 1
      by (simp add: appendPacked.simps [of v] vlq_bytes.simps [of v])
  next
    case False
    then show ?thesis
      using uchar.puts [of "ucast v" b] by (simp add: appendPacked.simps [of v] vlq_bytes.simps [of v])
  qed
qed

lemma bit7_small: "\<not> 0x80 \<le> v \<Longrightarrow> bit v n \<Longrightarrow> n < 7" for v :: "64 word"
proof (rule ccontr)
  assume v: "\<not> 0x80 \<le> v" and n: "bit v n" "\<not> n < 7"
  have "unat v < 2 ^ 7" using v by (simp add: word_le_nat_alt)
  then have "take_bit 7 v = v" by (simp add: word_unat_eq_iff unsigned_take_bit_eq take_bit_nat_eq_self)
  then show False using n by (metis bit_take_bit_iff)
qed

lemma bit_80: "bit (0x80 :: 8 word) n \<longleftrightarrow> n = 7"
proof -
  have "(0x80 :: 8 word) = push_bit 7 1" by simp
  then show ?thesis by (auto simp only: bit_push_bit_iff bit_1_iff) simp_all
qed

lemma bit_7f: "bit (0x7f :: 8 word) n \<longleftrightarrow> n < 7"
proof -
  have "(0x7f :: 8 word) = mask 7" by (simp add: mask_eq_exp_minus_1)
  then show ?thesis by (simp only: bit_mask_iff) auto
qed

lemma packed_last:
  assumes "\<not> 0x80 \<le> (v :: 64 word)"
  shows "(ucast v :: 8 word) AND 0x80 = 0" "ucast ((ucast v :: 8 word) AND 0x7f) = v"
proof -
  show "(ucast v :: 8 word) AND 0x80 = 0"
    by (rule bit_word_eqI) (auto simp: bit_simps bit_80 bit_7f simp del: bit_numeral_word_iff dest: bit7_small [OF assms])
  show "ucast ((ucast v :: 8 word) AND 0x7f) = v"
    by (rule bit_word_eqI) (auto simp: bit_simps bit_80 bit_7f simp del: bit_numeral_word_iff dest: bit7_small [OF assms])
qed

lemma packed_more:
  "(ucast v OR 0x80 :: 8 word) AND 0x80 \<noteq> 0"
  "(w OR push_bit k (ucast ((ucast v OR 0x80 :: 8 word) AND 0x7f))) OR push_bit (k + 7) (drop_bit 7 v) = w OR push_bit k (v :: 64 word)"
proof -
  have "bit ((ucast v OR 0x80 :: 8 word) AND 0x80) 7" by (simp add: bit_simps bit_80 del: bit_numeral_word_iff)
  then show "(ucast v OR 0x80 :: 8 word) AND 0x80 \<noteq> 0" by auto
  show "(w OR push_bit k (ucast ((ucast v OR 0x80 :: 8 word) AND 0x7f))) OR push_bit (k + 7) (drop_bit 7 v) = w OR push_bit k v"
  proof (rule bit_word_eqI)
    fix n
    show "bit ((w OR push_bit k (ucast ((ucast v OR 0x80 :: 8 word) AND 0x7f))) OR push_bit (k + 7) (drop_bit 7 v)) n =
        bit (w OR push_bit k v) n"
      by (cases "n < k + 7") (auto simp: bit_simps bit_80 bit_7f simp del: bit_numeral_word_iff)
  qed
qed

lemma packed_bounds:
  assumes "k < 64" "unat v < 2 ^ (64 - k)" "0x80 \<le> (v :: 64 word)"
  shows "k + 7 < 64" "unat (drop_bit 7 v) < 2 ^ (64 - (k + 7))"
proof -
  have "(2 :: nat) ^ 7 < 2 ^ (64 - k)" using assms(2,3) by (simp add: word_le_nat_alt)
  then have k: "7 < 64 - k" by (rule power_less_imp_less_exp [rotated]) simp
  then show "k + 7 < 64" by simp
  have "(2 :: nat) ^ (64 - k) = 2 ^ (64 - (k + 7)) * 2 ^ 7" using k power_add [of "2 :: nat" "64 - (k + 7)" 7] by simp
  then show "unat (drop_bit 7 v) < 2 ^ (64 - (k + 7))"
    using assms(2) by (simp add: unat_drop_bit_eq) (simp add: drop_bit_eq_div less_mult_imp_div_less)
qed

lemma reads_packed:
  "k < 64 \<Longrightarrow> unat v < 2 ^ (64 - k) \<Longrightarrow> reads (readPacked_loop w k) b (vlq_bytes v) (w OR push_bit k v)"
proof (induction v arbitrary: w k rule: vlq_bytes.induct)
  case (1 v)
  let ?g = "\<lambda>nxt :: 8 word. if k \<ge> 64 then op_throw Undefined
     else let value = w OR push_bit k (ucast (nxt AND 0x7f))
       in if nxt AND 0x80 = 0 then op_return value else readPacked_loop value (k + 7)"
  show ?case
  proof (cases "v \<ge> 0x80")
    case True
    let ?w = "w OR push_bit k (ucast ((ucast v OR 0x80 :: 8 word) AND 0x7f))"
    have "reads (readPacked_loop ?w (k + 7)) b (vlq_bytes (drop_bit 7 v)) (?w OR push_bit (k + 7) (drop_bit 7 v))"
      using "1.IH" [OF True packed_bounds [OF "1.prems" True]] .
    then have "reads (?g (ucast v OR 0x80)) b (vlq_bytes (drop_bit 7 v)) (w OR push_bit k v)"
      using "1.prems" packed_more(1) [of v] by (simp add: packed_more(2) Let_def)
    from reads_bind [of _ _ _ _ ?g, OF uchar.gets this] show ?thesis
      using True by (simp add: readPacked_loop.simps [of w k] vlq_bytes.simps [of v])
  next
    case False
    have "reads (?g (ucast v)) b [] (w OR push_bit k v)"
      using "1.prems" packed_last [OF False] reads_return by (simp add: Let_def)
    from reads_bind [of _ _ _ _ ?g, OF uchar.gets this] show ?thesis
      using False by (simp add: readPacked_loop.simps [of w k] vlq_bytes.simps [of v])
  qed
qed

interpretation packed: codec appendPacked readPacked "\<lambda>b. vlq_bytes" "\<lambda>_. True"
proof
  fix v b
  show "appends (appendPacked v) b (vlq_bytes v)" by (rule appends_packed)
  have "unat v < 2 ^ (64 - 0)" using unsigned_less [of v] by simp
  from reads_packed [OF _ this, of 0 b] show "reads readPacked b (vlq_bytes v) v" by (simp add: readPacked_def)
qed

end
