(* ===== verification/Jset_Proofs.thy ===== *)
theory Jset_Proofs
  imports Jset Jbuff_Proofs
begin

text \<open>
  What the template \<^verbatim>\<open>CBitSetBase\<close> does for every helper that stores a list of items: each operation
  acts on the set of the bit numbers that are set (\<open>bits_of\<close>). The contract of a helper is the locale
  \<open>bit_store\<close>; the operations are proved in it, for both helpers at once.
\<close>

section \<open>Words as sets of bits\<close>

declare push_bit_of_1 [simp del]

definition bits_of :: "bits_t list \<Rightarrow> nat set" where
  "bits_of xs = {n. n div 32 < length xs \<and> bit (xs ! (n div 32)) (n mod 32)}"

lemma in_bits_of: "n \<in> bits_of xs \<longleftrightarrow> n div 32 < length xs \<and> bit (xs ! (n div 32)) (n mod 32)"
  by (simp add: bits_of_def)

lemma split32 [simp]: "32 * (n div 32) + b = n \<longleftrightarrow> b = n mod 32" for n :: nat
  using mult_div_mod_eq [of 32 n] by linarith

lemma and_single: "k < 32 \<Longrightarrow> m AND push_bit k 1 = 0 \<longleftrightarrow> \<not> bit m k" for m :: bits_t
  using bit_iff_and_push_bit_not_eq_0 [of m k] by blast

lemma bit_single: "bit (push_bit k (1 :: bits_t)) b \<longleftrightarrow> b = k \<and> k < 32"
  by (auto simp: bit_simps)

lemma bits_of_update:
  assumes "i < length xs" "\<And>b. b < 32 \<Longrightarrow> bit m b \<longleftrightarrow> 32 * i + b \<in> S'" "\<And>n. n div 32 \<noteq> i \<Longrightarrow> n \<in> S' \<longleftrightarrow> n \<in> bits_of xs"
  shows "bits_of (xs[i := m]) = S'"
proof (rule set_eqI)
  fix n
  show "n \<in> bits_of (xs[i := m]) \<longleftrightarrow> n \<in> S'"
  proof (cases "n div 32 = i")
    case True
    then have "n = 32 * i + n mod 32" using mult_div_mod_eq [of 32 n] by simp
    then show ?thesis using True assms(1) assms(2) [of "n mod 32"] by (simp add: in_bits_of)
  next
    case False
    then show ?thesis using assms(3) [OF False] by (simp add: in_bits_of)
  qed
qed

lemma bits_of_snoc:
  assumes "\<And>b. b < 32 \<Longrightarrow> bit m b \<longleftrightarrow> 32 * length xs + b \<in> S'" "\<And>n. n div 32 \<noteq> length xs \<Longrightarrow> n \<in> S' \<longleftrightarrow> n \<in> bits_of xs"
  shows "bits_of (xs @ [m]) = S'"
proof (rule set_eqI)
  fix n
  show "n \<in> bits_of (xs @ [m]) \<longleftrightarrow> n \<in> S'"
  proof (cases "n div 32 = length xs")
    case True
    then have "n = 32 * length xs + n mod 32" using mult_div_mod_eq [of 32 n] by simp
    then show ?thesis using True assms(1) [of "n mod 32"] by (simp add: in_bits_of)
  next
    case False
    then show ?thesis using assms(2) [OF False] by (auto simp: in_bits_of nth_append)
  qed
qed

lemma bits_of_zero: "bits_of (xs @ [0]) = bits_of xs"
  by (rule bits_of_snoc) (auto simp: in_bits_of)

lemma bits_of_bound: "n \<in> bits_of xs \<Longrightarrow> n < 32 * length xs"
  by (auto simp: in_bits_of)

lemma ctz_spec:
  assumes "bit v k" "i \<le> k" "\<And>b. i \<le> b \<Longrightarrow> b < k \<Longrightarrow> \<not> bit v b" "k < 32"
  shows "ctz_loop v (push_bit i 1) i = k"
  using assms
proof (induction "k - i" arbitrary: i)
  case 0
  then show ?case using and_single [of k v] by (simp add: ctz_loop.simps)
next
  case (Suc d)
  then have "i < k" by simp
  then have "ctz_loop v (push_bit i 1) i = ctz_loop v (push_bit (Suc i) 1) (Suc i)"
    using and_single [of i v] Suc.prems by (simp add: ctz_loop.simps [of v "push_bit i 1"])
  also have "\<dots> = k" using Suc.hyps(2) Suc.prems \<open>i < k\<close> by (intro Suc.hyps(1)) auto
  finally show ?case .
qed

lemma countTrailingUnsetBits_spec:
  assumes "bit v k" "\<And>b. b < k \<Longrightarrow> \<not> bit v b"
  shows "countTrailingUnsetBits v = k"
proof -
  have "k < 32" using bit_imp_le_length [OF assms(1)] by simp
  then show ?thesis using ctz_spec [of v k 0] assms by (simp add: countTrailingUnsetBits_def)
qed

lemma op_bind_assoc: "op_bind (op_bind f g) k = op_bind f (\<lambda>x. op_bind (g x) k)"
  by (auto simp: op_bind_def fun_eq_iff split: prod.splits sum.splits)

definition toggle :: "nat \<Rightarrow> nat set \<Rightarrow> nat set" where
  "toggle k A = (if k \<in> A then A - {k} else insert k A)"

text \<open>The first number from \<open>lo\<close> on that is in the set, or is not, and what a search does.\<close>

definition found :: "bool \<Rightarrow> nat set \<Rightarrow> nat \<Rightarrow> nat \<Rightarrow> nat \<Rightarrow> bool" where
  "found tst A lo hi k \<longleftrightarrow> lo \<le> k \<and> k < hi \<and> (k \<in> A) = tst \<and> (\<forall>k'. lo \<le> k' \<and> k' < k \<longrightarrow> (k' \<in> A) \<noteq> tst)"

definition absent :: "bool \<Rightarrow> nat set \<Rightarrow> nat \<Rightarrow> nat \<Rightarrow> bool" where
  "absent tst A lo hi \<longleftrightarrow> (\<forall>k. lo \<le> k \<and> k < hi \<longrightarrow> (k \<in> A) \<noteq> tst)"

lemma absent_found: "absent tst A lo mid \<Longrightarrow> found tst A mid hi k \<Longrightarrow> lo \<le> mid \<Longrightarrow> found tst A lo hi k"
  unfolding absent_def found_def by (meson le_trans not_le)

lemma absent_absent: "absent tst A lo mid \<Longrightarrow> absent tst A mid hi \<Longrightarrow> absent tst A lo hi"
  unfolding absent_def by (meson not_le)

lemma found_wider: "found tst A lo mid k \<Longrightarrow> mid \<le> hi \<Longrightarrow> found tst A lo hi k"
  by (simp add: found_def)

definition abs_scan :: "bool \<Rightarrow> nat \<Rightarrow> nat set \<Rightarrow> nat" where
  "abs_scan tst from A = (if \<exists>k\<ge>from. (k \<in> A) = tst then LEAST k. from \<le> k \<and> (k \<in> A) = tst else 2 ^ 32 - 1)"

lemma abs_scan_found: "found tst A from hi k \<Longrightarrow> abs_scan tst from A = k"
  unfolding abs_scan_def found_def by (auto intro!: Least_equality simp: not_less [symmetric])

lemma xor_0: "m XOR v = 0 \<longleftrightarrow> m = v" for m v :: bits_t
  by (auto simp: bit_eq_iff bit_xor_iff)

lemma lowest_bit:
  assumes "v \<noteq> (0 :: bits_t)"
  shows "bit v (countTrailingUnsetBits v) \<and> (\<forall>b < countTrailingUnsetBits v. \<not> bit v b)"
proof -
  from assms obtain n where n: "bit v n" by (auto simp: bit_eq_iff)
  let ?k = "LEAST b. bit v b"
  have k: "bit v ?k" using n by (rule LeastI)
  have l: "\<not> bit v b" if "b < ?k" for b using that by (rule not_less_Least)
  have e: "countTrailingUnsetBits v = ?k" using k l by (rule countTrailingUnsetBits_spec)
  show ?thesis unfolding e using k l by blast
qed

section \<open>The contract of a helper\<close>

text \<open>
  A helper holds a list of items, can hold \<open>limit\<close> of them, and its methods work on that list.
\<close>

locale bit_store =
  fixes H :: "'h helper" and inv :: "'h \<Rightarrow> bool" and items :: "'h \<Rightarrow> bits_t list" and limit :: "'h \<Rightarrow> nat"
  assumes width: "inv h \<Longrightarrow> getWidth H h = length (items h)"
    and get: "inv h \<Longrightarrow> i < length (items h) \<Longrightarrow> getBits H i h = (Inr (items h ! i), h)"
    and put: "inv h \<Longrightarrow> i < length (items h) \<Longrightarrow>
      \<exists>h'. setBits H i m h = (Inr (), h') \<and> inv h' \<and> items h' = (items h)[i := m] \<and> limit h' = limit h"
    and add: "inv h \<Longrightarrow> length (items h) < limit h \<Longrightarrow>
      \<exists>h'. addBitSet H m h = (Inr (), h') \<and> inv h' \<and> items h' = items h @ [m] \<and> limit h' = limit h"
    and limits: "inv h \<Longrightarrow> length (items h) \<le> limit h" "inv h \<Longrightarrow> limit h \<le> 2 ^ 27"
begin

definition S :: "'h \<Rightarrow> nat set" where
  "S h = bits_of (items h)"

text \<open>\<open>does f h x A\<close>: the operation \<open>f\<close> returns \<open>x\<close> from \<open>h\<close> and leaves the set \<open>A\<close>.\<close>

definition does :: "('h, 'a) op \<Rightarrow> 'h \<Rightarrow> 'a \<Rightarrow> nat set \<Rightarrow> bool" where
  "does f h x A \<longleftrightarrow> (\<exists>h'. f h = (Inr x, h') \<and> inv h' \<and> S h' = A \<and> limit h' = limit h)"

lemma does_return: "inv h \<Longrightarrow> does (op_return x) h x (S h)"
  by (simp add: does_def op_return_def)

lemma does_I: "f h = (Inr x, h) \<Longrightarrow> inv h \<Longrightarrow> does f h x (S h)"
  by (simp add: does_def)

lemma does_bind:
  assumes "does f h x A" "\<And>h'. inv h' \<Longrightarrow> S h' = A \<Longrightarrow> limit h' = limit h \<Longrightarrow> does (g x) h' y B"
  shows "does (op_bind f g) h y B"
  using assms unfolding does_def by (metis op_bind_Inr)

lemma does_then_return: "does f h x A \<Longrightarrow> does (op_bind f (\<lambda>x. op_return (c x))) h (c x) A"
  by (auto simp: does_def op_bind_def op_return_def)

lemma does_eq: "f h = g h \<Longrightarrow> does g h x A \<Longrightarrow> does f h x A"
  by (simp add: does_def)

lemma does_eq_return: "f h = op_bind g (\<lambda>_. op_return y) h \<Longrightarrow> does g h () A \<Longrightarrow> does f h y A"
  using does_then_return [of g h "()" A "\<lambda>_. y"] by (blast intro: does_eq)

lemma bind_get: "inv h \<Longrightarrow> i < length (items h) \<Longrightarrow> op_bind (getBits H i) g h = g (items h ! i) h"
  by (simp add: op_bind_def get)

text \<open>Making room: zero items are added up to the wanted width, which changes no bit.\<close>

lemma pad:
  assumes "inv h" "length (items h) \<le> i" "i < limit h"
  shows "\<exists>h'. widen_loop H i (i - length (items h) + k) h = (Inr (), h') \<and> inv h' \<and> length (items h') = i \<and>
    S h' = S h \<and> limit h' = limit h"
  using assms
proof (induction "i - length (items h)" arbitrary: h)
  case 0
  then show ?case by (cases k) (auto simp: width)
next
  case (Suc d)
  then obtain h1 where h1: "addBitSet H 0 h = (Inr (), h1)" "inv h1" "items h1 = items h @ [0]" "limit h1 = limit h"
    using add [of h 0] by auto
  with Suc have "d = i - length (items h1)" "length (items h1) \<le> i" "i < limit h1" by auto
  with Suc.hyps(1) [of h1] h1 obtain h' where "widen_loop H i (d + k) h1 = (Inr (), h')" "inv h'"
      "length (items h') = i" "S h' = S h1" "limit h' = limit h1" by auto
  moreover have "S h1 = S h" using h1(3) by (simp add: S_def bits_of_zero)
  moreover have "length (items h) < i" using Suc(2) by simp
  ultimately show ?case using h1 Suc by (auto simp: Suc(2) [symmetric] width op_bind_def)
qed

lemma pad_set:
  assumes "inv h" "length (items h) \<le> n div 32" "n div 32 < limit h"
  shows "does (op_bind (widen_loop H (n div 32) (n div 32)) (\<lambda>_. addBitSet H (push_bit (n mod 32) 1))) h () (insert n (S h))"
proof -
  obtain h1 where h1: "widen_loop H (n div 32) (n div 32) h = (Inr (), h1)" "inv h1" "length (items h1) = n div 32"
      "S h1 = S h" "limit h1 = limit h"
    using pad [OF assms, of "length (items h)"] assms(2) by auto
  then obtain h2 where h2: "addBitSet H (push_bit (n mod 32) 1) h1 = (Inr (), h2)" "inv h2"
      "items h2 = items h1 @ [push_bit (n mod 32) 1]" "limit h2 = limit h1"
    using add [of h1 "push_bit (n mod 32) 1"] assms(3) by auto
  have "bits_of (items h1 @ [push_bit (n mod 32) 1]) = insert n (S h1)"
    by (rule bits_of_snoc) (use h1(3) in \<open>auto simp: bit_single S_def in_bits_of\<close>)
  then show ?thesis using h1 h2 by (auto simp: does_def op_bind_def S_def)
qed

lemma put_bit:
  assumes "inv h" "n div 32 < length (items h)" "\<And>b. bit m b \<longleftrightarrow> (if b = n mod 32 then v else bit (items h ! (n div 32)) b)"
  shows "does (setBits H (n div 32) m) h () (if v then insert n (S h) else S h - {n})"
proof -
  obtain h' where h': "setBits H (n div 32) m h = (Inr (), h')" "inv h'" "items h' = (items h)[n div 32 := m]" "limit h' = limit h"
    using put [OF assms(1,2), of m] by auto
  have "bits_of ((items h)[n div 32 := m]) = (if v then insert n (S h) else S h - {n})"
    by (rule bits_of_update) (use assms(2,3) in \<open>auto simp: S_def in_bits_of\<close>)
  then show ?thesis using h' by (simp add: does_def S_def)
qed

lemma in_S: "inv h \<Longrightarrow> n \<in> S h \<longleftrightarrow> n div 32 < length (items h) \<and> bit (items h ! (n div 32)) (n mod 32)"
  by (simp add: S_def in_bits_of)

subsection \<open>Single bits\<close>

lemma bit_ops:
  "bit (m OR push_bit (n mod 32) 1) b \<longleftrightarrow> (if b = n mod 32 then True else bit m b)"
  "bit (m AND NOT (push_bit (n mod 32) 1)) b \<longleftrightarrow> (if b = n mod 32 then False else bit m b)"
  "bit (m XOR push_bit (n mod 32) 1) b \<longleftrightarrow> (if b = n mod 32 then \<not> bit m (n mod 32) else bit m b)" for m :: bits_t
  by (auto simp: bit_simps bit_single dest: bit_imp_le_length)

lemma test_spec: "inv h \<Longrightarrow> bs_test H n h = (Inr (n \<in> S h), h)"
  by (auto simp: bs_test_def Let_def width get op_bind_def op_return_def in_S and_single)

lemma set_spec:
  assumes "inv h" "val \<longrightarrow> n div 32 < limit h"
  shows "does (bs_set H n val) h () (if val then insert n (S h) else S h - {n})"
proof (cases "n div 32 < length (items h)")
  case True
  let ?m = "items h ! (n div 32)"
  have "bs_set H n val h = setBits H (n div 32) (if val then ?m OR push_bit (n mod 32) 1 else ?m AND NOT (push_bit (n mod 32) 1)) h"
    using assms True by (simp add: bs_set_def Let_def width get op_bind_def)
  then show ?thesis
    using put_bit [OF assms(1) True, of "if val then ?m OR push_bit (n mod 32) 1 else ?m AND NOT (push_bit (n mod 32) 1)" val]
    by (simp add: does_def bit_ops)
next
  case False
  then have "n \<notin> S h" using assms by (simp add: in_S)
  then show ?thesis
    using pad_set [OF assms(1), of n] False assms does_I [of "\<lambda>h. (Inr (), h)" h "()"]
    by (auto simp: bs_set_def Let_def width does_def)
qed

lemma invert_spec:
  assumes "inv h" "n div 32 < limit h"
  shows "does (bs_invert H n) h (n \<notin> S h) (if n \<in> S h then S h - {n} else insert n (S h))"
proof (cases "n div 32 < length (items h)")
  case True
  let ?m = "items h ! (n div 32)"
  let ?m' = "if n \<notin> S h then ?m OR push_bit (n mod 32) 1 else ?m AND NOT (push_bit (n mod 32) 1)"
  have "does (setBits H (n div 32) ?m') h () (if n \<notin> S h then insert n (S h) else S h - {n})"
    by (rule put_bit [OF assms(1) True]) (simp add: bit_ops)
  moreover have "(0 = ?m AND push_bit (n mod 32) 1) = (n \<notin> S h)"
    using and_single [of "n mod 32" ?m] True assms(1) by (auto simp: in_S)
  then have "bs_invert H n h = op_bind (setBits H (n div 32) ?m') (\<lambda>_. op_return (n \<notin> S h)) h"
    using assms True by (simp add: bs_invert_def Let_def width bind_get)
  ultimately show ?thesis by (auto intro: does_eq_return split: if_splits)
next
  case False
  then have n: "n \<notin> S h" using assms by (simp add: in_S)
  have "bs_invert H n h =
      op_bind (op_bind (widen_loop H (n div 32) (n div 32)) (\<lambda>_. addBitSet H (push_bit (n mod 32) 1))) (\<lambda>_. op_return True) h"
    using False assms(1) by (simp add: bs_invert_def Let_def width op_bind_assoc)
  then show ?thesis
    using does_eq_return [OF _ pad_set [OF assms(1) _ assms(2)], of "bs_invert H n" True] False n by simp
qed

lemma testSet_spec:
  assumes "inv h" "val \<longrightarrow> n div 32 < limit h"
  shows "does (bs_testSet H n val) h (n \<in> S h) (if val then insert n (S h) else S h - {n})"
proof (cases "n div 32 < length (items h)")
  case True
  let ?m = "items h ! (n div 32)"
  let ?m' = "if val then ?m OR push_bit (n mod 32) 1 else ?m AND NOT (push_bit (n mod 32) 1)"
  have "does (setBits H (n div 32) ?m') h () (if val then insert n (S h) else S h - {n})"
    by (rule put_bit [OF assms(1) True]) (simp add: bit_ops)
  then have "does (if (n \<in> S h) = val then op_return () else setBits H (n div 32) ?m') h ()
      (if val then insert n (S h) else S h - {n})"
    using does_return [OF assms(1), of "()"] by (auto simp: insert_absorb)
  moreover have "bs_testSet H n val h =
      op_bind (if (n \<in> S h) = val then op_return () else setBits H (n div 32) ?m') (\<lambda>_. op_return (n \<in> S h)) h"
    using assms True and_single [of "n mod 32" ?m] by (simp add: bs_testSet_def Let_def width bind_get in_S)
  ultimately show ?thesis by (rule does_eq_return [rotated])
next
  case False
  then have n: "n \<notin> S h" using assms by (simp add: in_S)
  let ?f = "if val then op_bind (widen_loop H (n div 32) (n div 32)) (\<lambda>_. addBitSet H (push_bit (n mod 32) 1)) else op_return ()"
  have "does ?f h () (if val then insert n (S h) else S h - {n})"
    using pad_set [OF assms(1)] False assms(2) does_return [OF assms(1), of "()"] n by auto
  moreover have "bs_testSet H n val h = op_bind ?f (\<lambda>_. op_return False) h"
    using False assms(1) by (simp add: bs_testSet_def Let_def width)
  ultimately show ?thesis using does_eq_return [of "bs_testSet H n val" h ?f False] n by simp
qed

subsection \<open>Searching\<close>

definition scans :: "('h, nat option) op \<Rightarrow> 'h \<Rightarrow> bool \<Rightarrow> bool \<Rightarrow> nat \<Rightarrow> nat \<Rightarrow> bool" where
  "scans f h tst scninv lo hi \<longleftrightarrow>
     (\<exists>k. found tst (S h) lo hi k \<and> does f h (Some k) (if scninv then toggle k (S h) else S h)) \<or>
     absent tst (S h) lo hi \<and> f h = (Inr None, h)"

lemma scans_eq: "scans g h tst scninv lo hi \<Longrightarrow> f h = g h \<Longrightarrow> scans f h tst scninv lo hi"
  by (simp add: scans_def does_def)

lemma width_bound: "inv h \<Longrightarrow> 32 * length (items h) \<le> 2 ^ 32"
  using limits [of h] by simp

lemma hit_spec:
  assumes "inv h" "i < length (items h)" "p < 32"
  shows "does (scan_hit H i (items h ! i) p scninv) h (32 * i + p) (if scninv then toggle (32 * i + p) (S h) else S h)"
proof -
  let ?n = "32 * i + p" and ?m = "items h ! i"
  have n: "?n div 32 = i" "?n mod 32 = p" using assms(3) by simp_all
  have "?n < 2 ^ 32" using assms width_bound [OF assms(1)] by simp
  then have u: "u32 (i * BitsPerItem + p) = ?n" by (simp add: mult.commute)
  have "does (setBits H (?n div 32) (?m XOR push_bit (?n mod 32) 1)) h () (if ?n \<notin> S h then insert ?n (S h) else S h - {?n})"
    by (rule put_bit [OF assms(1)]) (use assms n in \<open>auto simp: bit_xor_iff bit_single in_S simp del: split32\<close>)
  then have "does (if scninv then setBits H i (?m XOR push_bit p 1) else op_return ()) h () (if scninv then toggle ?n (S h) else S h)"
    using does_return [OF assms(1), of "()"] unfolding n by (auto simp: toggle_def)
  then show ?thesis unfolding scan_hit_def u by (rule does_then_return)
qed

lemma scan_item:
  assumes h: "inv h" "i < length (items h)"
    and tm: "\<And>b. bit tm b \<longleftrightarrow> j \<le> b \<and> b < 32 \<and> (32 * i + b \<in> S h) = tst"
    and f: "f h = (if tm \<noteq> 0 then op_bind (scan_hit H i (items h ! i) (countTrailingUnsetBits tm) scninv) (\<lambda>r. op_return (Some r)) h
      else (Inr None, h))"
  shows "scans f h tst scninv (32 * i + j) (32 * i + 32)"
proof (cases "tm = 0")
  case True
  have "(k \<in> S h) \<noteq> tst" if "32 * i + j \<le> k" "k < 32 * i + 32" for k
    using tm [of "k - 32 * i"] True that by auto
  then show ?thesis using True f by (auto simp: scans_def absent_def)
next
  case False
  let ?p = "countTrailingUnsetBits tm"
  have p: "bit tm ?p" "\<forall>b < ?p. \<not> bit tm b" using lowest_bit [OF False] by auto
  then have p': "j \<le> ?p" "?p < 32" "(32 * i + ?p \<in> S h) = tst" using tm by blast+
  have "(k' \<in> S h) \<noteq> tst" if "32 * i + j \<le> k'" "k' < 32 * i + ?p" for k'
    using p(2) [rule_format, of "k' - 32 * i"] tm [of "k' - 32 * i"] that p'(2) by auto
  then have "found tst (S h) (32 * i + j) (32 * i + 32) (32 * i + ?p)" using p' by (simp add: found_def)
  moreover have "does f h (Some (32 * i + ?p)) (if scninv then toggle (32 * i + ?p) (S h) else S h)"
    using does_then_return [OF hit_spec [OF h p'(2), of scninv], of Some] f False by (auto intro: does_eq)
  ultimately show ?thesis unfolding scans_def by blast
qed

lemma scans_then:
  assumes f: "scans f h tst scninv lo mid" and g: "scans g h tst scninv mid hi" and le: "lo \<le> mid" "mid \<le> hi"
  shows "scans (op_bind f (\<lambda>r. case r of Some k \<Rightarrow> op_return (Some k) | None \<Rightarrow> g)) h tst scninv lo hi"
proof -
  consider k where "found tst (S h) lo mid k" "does f h (Some k) (if scninv then toggle k (S h) else S h)"
    | "absent tst (S h) lo mid" "f h = (Inr None, h)" using f unfolding scans_def by blast
  then show ?thesis
  proof cases
    case 1
    have "does (op_bind f (\<lambda>r. case r of Some k \<Rightarrow> op_return (Some k) | None \<Rightarrow> g)) h (Some k) (if scninv then toggle k (S h) else S h)"
      by (rule does_bind [OF 1(2)]) (simp add: does_def op_return_def)
    then show ?thesis using found_wider [OF 1(1) le(2)] unfolding scans_def by blast
  next
    case 2
    have "scans g h tst scninv lo hi"
      using g absent_found [OF 2(1) _ le(1)] absent_absent [OF 2(1)] unfolding scans_def by blast
    then show ?thesis by (rule scans_eq) (simp add: op_bind_def 2(2))
  qed
qed

abbreviation no_match :: "bool \<Rightarrow> bits_t" where
  "no_match tst \<equiv> (if tst then 0 else - 1)"

lemma bit_no_match: "b < 32 \<Longrightarrow> bit (m XOR no_match tst) b \<longleftrightarrow> bit m b = tst" for m :: bits_t
  by (cases tst) (auto simp: bit_simps)

lemma in_S_item: "inv h \<Longrightarrow> i < length (items h) \<Longrightarrow> b < 32 \<Longrightarrow> 32 * i + b \<in> S h \<longleftrightarrow> bit (items h ! i) b"
  by (simp add: in_S)

lemma scan_first_spec:
  assumes "inv h" "i < length (items h)" "j < 32"
  shows "scans (scan_first H (no_match tst) scninv i j) h tst scninv (32 * i + j) (32 * i + 32)"
proof (rule scan_item)
  let ?m = "items h ! i"
  let ?tm = "(?m XOR no_match tst) AND NOT (push_bit j 1 - 1)"
  have mask: "(push_bit j 1 - 1 :: bits_t) = mask j" by (simp add: mask_eq_exp_minus_1 push_bit_of_1)
  show "bit ?tm b \<longleftrightarrow> j \<le> b \<and> b < 32 \<and> (32 * i + b \<in> S h) = tst" for b
  proof (cases "b < 32")
    case True
    then show ?thesis using bit_no_match [OF True, of ?m tst] assms
      by (auto simp: mask bit_and_iff bit_not_iff bit_mask_iff in_S_item)
  qed (auto dest: bit_imp_le_length)
  have "?m = no_match tst \<Longrightarrow> ?tm = 0" by simp
  then show "scan_first H (no_match tst) scninv i j h =
      (if ?tm \<noteq> 0 then op_bind (scan_hit H i ?m (countTrailingUnsetBits ?tm) scninv) (\<lambda>r. op_return (Some r)) h else (Inr None, h))"
    using assms by (simp add: scan_first_def bind_get Let_def op_return_def)
qed (use assms in auto)

lemma scan_loop_spec:
  assumes "inv h" "i \<le> length (items h)"
  shows "scans (scan_loop H (no_match tst) scninv (length (items h)) i) h tst scninv (32 * i) (32 * length (items h))"
  using assms(2)
proof (induction "length (items h) - i" arbitrary: i)
  case 0
  then show ?case by (auto simp: scan_loop.simps scans_def absent_def op_return_def)
next
  case (Suc d)
  then have i: "i < length (items h)" by simp
  let ?m = "items h ! i" and ?n = "length (items h)"
  let ?tm = "?m XOR no_match tst"
  let ?f = "\<lambda>h. if ?tm \<noteq> 0 then op_bind (scan_hit H i ?m (countTrailingUnsetBits ?tm) scninv) (\<lambda>r. op_return (Some r)) h else (Inr None, h)"
  have "bit ?tm b \<longleftrightarrow> 0 \<le> b \<and> b < 32 \<and> (32 * i + b \<in> S h) = tst" for b
  proof (cases "b < 32")
    case True
    then show ?thesis using bit_no_match [OF True, of ?m tst] assms(1) i by (simp add: in_S_item)
  qed (auto dest: bit_imp_le_length)
  then have 1: "scans ?f h tst scninv (32 * i) (32 * i + 32)" using scan_item [OF assms(1) i, of ?tm 0 tst ?f] by simp
  have 2: "scans (scan_loop H (no_match tst) scninv ?n (i + 1)) h tst scninv (32 * i + 32) (32 * ?n)"
    using Suc.hyps(1) [of "i + 1"] Suc.hyps(2) i by (simp add: add.commute)
  have eq: "?m = no_match tst \<longleftrightarrow> ?tm = 0" by (rule xor_0 [symmetric])
  have e: "scan_loop H (no_match tst) scninv ?n i h =
      op_bind ?f (\<lambda>r. case r of Some k \<Rightarrow> op_return (Some k) | None \<Rightarrow> scan_loop H (no_match tst) scninv ?n (i + 1)) h"
  proof (cases "?m = no_match tst")
    case True
    then show ?thesis using assms(1) i
      by (simp add: scan_loop.simps [of H _ _ ?n i] bind_get) (simp add: op_bind_def)
  next
    case False
    then have "?tm \<noteq> 0" using eq by simp
    have "scan_loop H (no_match tst) scninv ?n i h = ?f h"
      using False \<open>?tm \<noteq> 0\<close> assms(1) i by (simp add: scan_loop.simps [of H _ _ ?n i] bind_get)
    also have "\<dots> = op_bind ?f (\<lambda>r. case r of Some k \<Rightarrow> op_return (Some k) | None \<Rightarrow> scan_loop H (no_match tst) scninv ?n (i + 1)) h"
      using \<open>?tm \<noteq> 0\<close> by (auto simp: op_bind_def op_return_def split: prod.splits sum.splits)
    finally show ?thesis .
  qed
  show ?case by (rule scans_eq [where f = "scan_loop H (no_match tst) scninv ?n i", OF scans_then [OF 1 2] e]) (use i in simp_all)
qed

lemma scan_none: "scan_loop H nm scninv n i = op_return None" if "n \<le> i"
  using that by (simp add: scan_loop.simps)

text \<open>The search through the items that exist.\<close>

definition scan_items :: "'h \<Rightarrow> nat \<Rightarrow> bool \<Rightarrow> bool \<Rightarrow> ('h, nat option) op" where
  "scan_items h from tst scninv =
     (let i = from div 32; j = from mod 32; n = length (items h); inside = (j \<noteq> 0 \<and> i < n)
      in op_bind (if inside then scan_first H (no_match tst) scninv i j else op_return None)
           (\<lambda>r. case r of Some k \<Rightarrow> op_return (Some k) | None \<Rightarrow> scan_loop H (no_match tst) scninv n (if inside then i + 1 else i)))"

lemma scan_items_spec:
  assumes "inv h"
  shows "scans (scan_items h from tst scninv) h tst scninv from (32 * length (items h))"
proof -
  let ?i = "from div 32" and ?j = "from mod 32" and ?n = "length (items h)"
  consider (inside) "?j \<noteq> 0" "?i < ?n" | (start) "?j = 0" "?i < ?n" | (behind) "?n \<le> ?i" by linarith
  then show ?thesis
  proof cases
    case inside
    have 1: "scans (scan_first H (no_match tst) scninv ?i ?j) h tst scninv from (32 * (?i + 1))"
      using scan_first_spec [OF assms inside(2), of ?j tst scninv] by (simp add: add.commute)
    have 2: "scans (scan_loop H (no_match tst) scninv ?n (?i + 1)) h tst scninv (32 * (?i + 1)) (32 * ?n)"
      using scan_loop_spec [OF assms, of "?i + 1"] inside by simp
    from scans_then [OF 1 2] inside show ?thesis by (simp add: scan_items_def Let_def)
  next
    case start
    then have "32 * ?i = from" using mult_div_mod_eq [of 32 "from"] by simp
    then show ?thesis
      using scan_loop_spec [OF assms, of ?i tst scninv] start by (simp add: scan_items_def Let_def)
  next
    case behind
    then have "32 * ?n \<le> from" by linarith
    then show ?thesis using behind by (auto simp: scan_items_def Let_def scan_none scans_def absent_def op_return_def)
  qed
qed

lemma S_bound: "k \<in> S h \<Longrightarrow> k < 32 * length (items h)"
  by (simp add: S_def bits_of_bound)

lemma scan_spec:
  assumes h: "inv h" and frm: "from < 2 ^ 32" "tst \<or> (\<exists>k < 2 ^ 32. from \<le> k \<and> k \<notin> S h)"
    and lim: "scninv \<and> \<not> tst \<longrightarrow> abs_scan tst from (S h) div 32 < limit h"
  shows "does (bs_scan H from tst scninv) h (abs_scan tst from (S h))
    (if scninv \<and> (\<exists>k\<ge>from. (k \<in> S h) = tst) then toggle (abs_scan tst from (S h)) (S h) else S h)"
proof -
  let ?n = "length (items h)"
  let ?ret = "if u32 (?n * BitsPerItem) < from then from else u32 (?n * BitsPerItem)"
  let ?fin = "\<lambda>r. case r of Some k \<Rightarrow> op_return k
    | None \<Rightarrow> if tst then op_return (2 ^ 32 - 1) else op_bind (if scninv then bs_set H ?ret True else op_return ()) (\<lambda>_. op_return ?ret)"
  have e: "bs_scan H from tst scninv h = op_bind (scan_items h from tst scninv) ?fin h"
    using width [OF h] by (auto simp: bs_scan_def scan_items_def Let_def op_bind_assoc intro!: arg_cong2 [where f = "\<lambda>f g. op_bind f g h"] split: option.splits)
  consider k where "found tst (S h) from (32 * ?n) k" "does (scan_items h from tst scninv) h (Some k) (if scninv then toggle k (S h) else S h)"
    | "absent tst (S h) from (32 * ?n)" "scan_items h from tst scninv h = (Inr None, h)"
    using scan_items_spec [OF h, of "from" tst scninv] unfolding scans_def by blast
  then show ?thesis
  proof cases
    case 1
    then have "abs_scan tst from (S h) = k" "\<exists>k\<ge>from. (k \<in> S h) = tst" using abs_scan_found by (auto simp: found_def)
    moreover have "does (op_bind (scan_items h from tst scninv) ?fin) h k (if scninv then toggle k (S h) else S h)"
      by (rule does_bind [OF 1(2)]) (simp add: does_def op_return_def)
    then have "does (bs_scan H from tst scninv) h k (if scninv then toggle k (S h) else S h)" by (rule does_eq [rotated]) (rule e)
    ultimately show ?thesis by auto
  next
    case 2
    then have e2: "bs_scan H from tst scninv h = ?fin None h" using e by (simp add: op_bind_def)
    show ?thesis
    proof (cases tst)
      case True
      then have "\<not> (\<exists>k\<ge>from. (k \<in> S h) = tst)" using 2(1) S_bound by (auto simp: absent_def)
      then show ?thesis using e2 True h by (auto simp: abs_scan_def does_def op_return_def)
    next
      case False
      then have all: "k \<in> S h" if "from \<le> k" "k < 32 * ?n" for k using 2(1) that by (simp add: absent_def)
      then have n: "32 * ?n < 2 ^ 32" using frm False width_bound [OF h] by (metis le_neq_implies_less)
      then have ret: "?ret = max from (32 * ?n)" by (simp add: mult.commute max_def)
      have out: "?ret \<notin> S h" using S_bound [of ?ret h] ret by auto
      have "found tst (S h) from (Suc ?ret) ?ret" using all out False by (auto simp: found_def ret)
      then have k: "abs_scan tst from (S h) = ?ret" by (rule abs_scan_found)
      have e3: "bs_scan H from tst scninv h = op_bind (if scninv then bs_set H ?ret True else op_return ()) (\<lambda>_. op_return ?ret) h"
        using e2 False by (simp del: op_bind_return)
      have ex: "\<exists>k\<ge>from. (k \<in> S h) = tst" using out False ret by (intro exI [of _ ?ret]) simp
      have "does (if scninv then bs_set H ?ret True else op_return ()) h () (if scninv then toggle ?ret (S h) else S h)"
        using set_spec [OF h, of True ?ret] lim k False does_return [OF h, of "()"] out by (auto simp: toggle_def)
      from does_then_return [OF this, of "\<lambda>_. ?ret"]
      have "does (bs_scan H from tst scninv) h ?ret (if scninv then toggle ?ret (S h) else S h)"
        by (rule does_eq [rotated]) (rule e3)
      then show ?thesis unfolding k [symmetric] using ex by simp
    qed
  qed
qed

end

end
