(* ===== verification/Jset_Ranges.thy ===== *)
theory Jset_Ranges
  imports Jset_Proofs
begin

text \<open>
  Including and excluding a range of bits (\<^verbatim>\<open>CBitSetBase::_incl\<close>): the loop over one item, the loop over
  the items that exist, and the items that are added behind them. The one range the code does not
  handle is that of all \<open>2 ^ 32\<close> bits, whose size wraps around to zero.
\<close>

definition put_range :: "bool \<Rightarrow> nat set \<Rightarrow> nat \<Rightarrow> nat \<Rightarrow> nat set" where
  "put_range val A lo hi = (if val then A \<union> {lo..<hi} else A - {lo..<hi})"

lemma put_range_trans: "lo \<le> mid \<Longrightarrow> mid \<le> hi \<Longrightarrow> put_range val (put_range val A lo mid) mid hi = put_range val A lo hi"
  by (auto simp: put_range_def)

lemma put_range_empty: "hi \<le> lo \<Longrightarrow> put_range val A lo hi = A"
  by (simp add: put_range_def)

lemma in_put_range: "k \<in> put_range val A lo hi \<longleftrightarrow> (if lo \<le> k \<and> k < hi then val else k \<in> A)"
  by (auto simp: put_range_def)

lemma up32: "lo + (32 - lo mod 32) = 32 * (lo div 32 + 1)" for lo :: nat
  by presburger

lemma ceil32:
  fixes n nb :: nat
  assumes "0 < nb mod 32"
  shows "n + nb div 32 \<le> (32 * n + nb - 1) div 32"
proof -
  define q r where "q = nb div 32" and "r = nb mod 32"
  have "nb = 32 * q + r" by (simp add: q_def r_def)
  then have "32 * (n + q) < 32 * n + nb" using assms by (simp add: r_def [symmetric])
  then have "32 * (n + q) \<le> 32 * n + nb - 1" by simp
  from div_le_mono [OF this, of 32] show ?thesis unfolding q_def by simp
qed

section \<open>One item\<close>

lemma fill_bits_spec:
  assumes "0 < nb" "nb < 2 ^ 32" "j \<le> 32"
  shows "\<exists>m'. fill_bits val j (push_bit j 1) m nb = (m', nb - min nb (32 - j)) \<and>
    (\<forall>b. bit m' b \<longleftrightarrow> (if j \<le> b \<and> b < j + min nb (32 - j) then val else bit m b))"
  using assms
proof (induction "32 - j" arbitrary: j m nb)
  case 0
  then show ?case by (auto simp: fill_bits.simps)
next
  case (Suc d)
  let ?m = "if val then m OR push_bit j 1 else m AND NOT (push_bit j 1)"
  have j: "j < 32" using Suc(2) by simp
  have m: "bit ?m b \<longleftrightarrow> (if b = j then val else bit m b)" for b
    using j by (auto simp: bit_simps bit_single dest: bit_imp_le_length)
  have u: "u32 (nb + 2 ^ 32 - 1) = nb - 1" using Suc.prems by (simp add: u32_def mod_if)
  have step: "fill_bits val j (push_bit j 1) m nb =
      (if nb - 1 = 0 then (?m, 0) else fill_bits val (Suc j) (push_bit (Suc j) 1) ?m (nb - 1))"
    using j u by (simp add: fill_bits.simps [of val j] Let_def)
  show ?case
  proof (cases "nb = 1")
    case True
    then show ?thesis using step m j by (auto simp: min_def)
  next
    case False
    have "\<exists>m'. fill_bits val (Suc j) (push_bit (Suc j) 1) ?m (nb - 1) = (m', nb - 1 - min (nb - 1) (32 - Suc j)) \<and>
        (\<forall>b. bit m' b \<longleftrightarrow> (if Suc j \<le> b \<and> b < Suc j + min (nb - 1) (32 - Suc j) then val else bit ?m b))"
      by (rule Suc.hyps(1)) (use Suc.hyps(2) Suc.prems j False in auto)
    then obtain m' where m': "fill_bits val (Suc j) (push_bit (Suc j) 1) ?m (nb - 1) = (m', nb - 1 - min (nb - 1) (32 - Suc j))"
        "\<forall>b. bit m' b \<longleftrightarrow> (if Suc j \<le> b \<and> b < Suc j + min (nb - 1) (32 - Suc j) then val else bit ?m b)"
      by blast
    have e: "nb - 1 - min (nb - 1) (32 - Suc j) = nb - min nb (32 - j)" "Suc j + min (nb - 1) (32 - Suc j) = j + min nb (32 - j)"
      using j Suc.prems by (auto simp: min_def)
    have "nb - 1 \<noteq> 0" "0 < min nb (32 - j)" using False Suc.prems j by auto
    then have "fill_bits val j (push_bit j 1) m nb = (m', nb - min nb (32 - j))" unfolding step m'(1) e(1) by simp
    moreover have "bit m' b \<longleftrightarrow> (if j \<le> b \<and> b < j + min nb (32 - j) then val else bit m b)" for b
      using m'(2) [rule_format, of b] m [of b] \<open>0 < min nb (32 - j)\<close> unfolding e(2) by (auto simp only: Suc_le_eq split: if_splits)
    ultimately show ?thesis by blast
  qed
qed

context bit_store
begin

section \<open>The items that exist\<close>

lemma incl_item:
  assumes "0 < nb" "nb < 2 ^ 32" "j < 32" and h: "inv h" "i < length (items h)"
  shows "\<exists>m. (if nb \<ge> BitsPerItem \<and> j = 0 then op_return (if val then - 1 else 0, nb - BitsPerItem)
      else op_bind (getBits H i) (\<lambda>m. op_return (fill_bits val j (push_bit j 1) m nb))) h = (Inr (m, nb - min nb (32 - j)), h) \<and>
    (\<forall>b<32. bit m b \<longleftrightarrow> (if j \<le> b \<and> b < j + min nb (32 - j) then val else bit (items h ! i) b))"
proof (cases "nb \<ge> BitsPerItem \<and> j = 0")
  case True
  then show ?thesis
    by (intro exI [of _ "if val then - 1 else 0"]) (auto simp: op_return_def min_def)
next
  case False
  obtain m where m: "fill_bits val j (push_bit j 1) (items h ! i) nb = (m, nb - min nb (32 - j))"
      "\<forall>b. bit m b \<longleftrightarrow> (if j \<le> b \<and> b < j + min nb (32 - j) then val else bit (items h ! i) b)"
    using fill_bits_spec [of nb j val "items h ! i"] assms by auto
  then show ?thesis using False h by (intro exI [of _ m]) (auto simp: bind_get op_return_def)
qed

lemma put_item:
  assumes h: "inv h" "i < length (items h)" "j + c \<le> 32"
    and m: "\<forall>b<32. bit m b \<longleftrightarrow> (if j \<le> b \<and> b < j + c then val else bit (items h ! i) b)"
  shows "\<exists>h'. setBits H i m h = (Inr (), h') \<and> inv h' \<and> length (items h') = length (items h) \<and>
    S h' = put_range val (S h) (32 * i + j) (32 * i + j + c) \<and> limit h' = limit h"
proof -
  obtain h' where h': "setBits H i m h = (Inr (), h')" "inv h'" "items h' = (items h)[i := m]" "limit h' = limit h"
    using put [OF h(1,2), of m] by auto
  have "bits_of ((items h)[i := m]) = put_range val (S h) (32 * i + j) (32 * i + j + c)"
  proof (rule bits_of_update [OF h(2)])
    fix b :: nat assume "b < 32"
    then show "bit m b \<longleftrightarrow> 32 * i + b \<in> put_range val (S h) (32 * i + j) (32 * i + j + c)"
      using m h(1,2) by (auto simp: in_put_range in_S_item)
  next
    fix n :: nat assume "n div 32 \<noteq> i"
    then have "\<not> (32 * i + j \<le> n \<and> n < 32 * i + j + c)" using h(3) by auto
    then show "n \<in> put_range val (S h) (32 * i + j) (32 * i + j + c) \<longleftrightarrow> n \<in> bits_of (items h)"
      by (auto simp: in_put_range S_def)
  qed
  then show ?thesis using h' by (simp add: S_def)
qed

lemma incl_loop_spec:
  assumes "inv h" "n = length (items h)" "i < n \<or> i = n \<and> j = 0" "j < 32" "0 < nb" "nb < 2 ^ 32"
    and "c = min nb (32 * n - (32 * i + j))"
  shows "\<exists>h'. incl_loop H val n i j nb h = (Inr (nb - c), h') \<and> inv h' \<and> length (items h') = n \<and>
    S h' = put_range val (S h) (32 * i + j) (32 * i + j + c) \<and> limit h' = limit h"
  using assms
proof (induction "n - i" arbitrary: h i j nb c)
  case 0
  then show ?case by (auto simp: incl_loop.simps op_return_def put_range_empty)
next
  case (Suc d)
  then have i: "i < length (items h)" by simp
  let ?c = "min nb (32 - j)"
  obtain m where m: "(if nb \<ge> BitsPerItem \<and> j = 0 then op_return (if val then - 1 else 0, nb - BitsPerItem)
      else op_bind (getBits H i) (\<lambda>m. op_return (fill_bits val j (push_bit j 1) m nb))) h = (Inr (m, nb - ?c), h)"
      "\<forall>b<32. bit m b \<longleftrightarrow> (if j \<le> b \<and> b < j + ?c then val else bit (items h ! i) b)"
    using incl_item [OF Suc.prems(5,6,4,1) i, of val] by blast
  have "j + ?c \<le> 32" using Suc.prems(4) by simp
  then obtain h1 where h1: "setBits H i m h = (Inr (), h1)" "inv h1" "length (items h1) = length (items h)"
      "S h1 = put_range val (S h) (32 * i + j) (32 * i + j + ?c)" "limit h1 = limit h"
    using put_item [OF Suc.prems(1) i _ m(2)] by blast
  have step: "incl_loop H val n i j nb h = (if nb - ?c = 0 then op_return 0 else incl_loop H val n (i + 1) 0 (nb - ?c)) h1"
    unfolding incl_loop.simps [of H val n i j nb] using m(1) h1(1) Suc.prems(2) i by (simp add: op_bind_def)
  show ?case
  proof (cases "nb \<le> ?c")
    case True
    then have "nb \<le> 32 - j" by simp
    then have "c = ?c" "nb = ?c" using Suc.prems(2,4,7) i by (auto simp: min_def)
    then show ?thesis using step h1 Suc.prems(2) by (auto simp: op_return_def)
  next
    case False
    then have c: "?c = 32 - j" by linarith
    let ?nb = "nb - ?c" and ?c' = "min (nb - ?c) (32 * n - (32 * (i + 1) + 0))"
    have "\<exists>h'. incl_loop H val n (i + 1) 0 ?nb h1 = (Inr (?nb - ?c'), h') \<and> inv h' \<and> length (items h') = n \<and>
        S h' = put_range val (S h1) (32 * (i + 1) + 0) (32 * (i + 1) + 0 + ?c') \<and> limit h' = limit h1"
      by (rule Suc.hyps(1)) (use Suc.hyps(2) Suc.prems h1 i False in auto)
    then obtain h' where h': "incl_loop H val n (i + 1) 0 ?nb h1 = (Inr (?nb - ?c'), h')" "inv h'" "length (items h') = n"
        "S h' = put_range val (S h1) (32 * (i + 1) + 0) (32 * (i + 1) + 0 + ?c')" "limit h' = limit h1" by blast
    have e: "?nb - ?c' = nb - c" "32 * (i + 1) + 0 + ?c' = 32 * i + j + c" "32 * (i + 1) + 0 = 32 * i + j + ?c" "?c \<le> c"
      using c False Suc.prems(2,4,7) i by (auto simp: min_def)
    have "S h' = put_range val (S h) (32 * i + j) (32 * i + j + c)"
      unfolding h'(4) e(2) unfolding e(3) h1(4) by (rule put_range_trans) (use e(4) in simp_all)
    moreover have "incl_loop H val n i j nb h = (Inr (nb - c), h')"
      using step h'(1) False unfolding e(1) by simp
    ultimately show ?thesis using h' h1(5) by auto
  qed
qed

section \<open>Items that are added\<close>

lemma add_item:
  assumes h: "inv h" "length (items h) < limit h" "j + c \<le> 32"
    and m: "\<forall>b<32. bit m b \<longleftrightarrow> j \<le> b \<and> b < j + c"
  shows "\<exists>h'. addBitSet H m h = (Inr (), h') \<and> inv h' \<and> length (items h') = length (items h) + 1 \<and>
    S h' = S h \<union> {32 * length (items h) + j..<32 * length (items h) + j + c} \<and> limit h' = limit h"
proof -
  obtain h' where h': "addBitSet H m h = (Inr (), h')" "inv h'" "items h' = items h @ [m]" "limit h' = limit h"
    using add [OF h(1,2), of m] by auto
  let ?n = "32 * length (items h)"
  have "bits_of (items h @ [m]) = S h \<union> {?n + j..<?n + j + c}"
  proof (rule bits_of_snoc)
    fix b :: nat assume "b < 32"
    then show "bit m b \<longleftrightarrow> ?n + b \<in> S h \<union> {?n + j..<?n + j + c}" using m S_bound [of "?n + b" h] by auto
  next
    fix n :: nat assume "n div 32 \<noteq> length (items h)"
    then have "\<not> (?n + j \<le> n \<and> n < ?n + j + c)" using h(3) by auto
    then show "n \<in> S h \<union> {?n + j..<?n + j + c} \<longleftrightarrow> n \<in> bits_of (items h)" by (auto simp: S_def)
  qed
  then show ?thesis using h' by (simp add: S_def)
qed

lemma add_zeros_spec:
  assumes "inv h" "length (items h) + k \<le> limit h"
  shows "\<exists>h'. add_zeros H k h = (Inr (), h') \<and> inv h' \<and> length (items h') = length (items h) + k \<and> S h' = S h \<and> limit h' = limit h"
  using assms
proof (induction k arbitrary: h)
  case 0
  then show ?case by (simp add: op_return_def)
next
  case (Suc k)
  then obtain h1 where h1: "addBitSet H 0 h = (Inr (), h1)" "inv h1" "items h1 = items h @ [0]" "limit h1 = limit h"
    using add [of h 0] by auto
  then have "S h1 = S h" by (simp add: S_def bits_of_zero)
  then show ?case using Suc.IH [of h1] Suc.prems h1 by (auto simp: op_bind_def)
qed

lemma add_full_items:
  assumes "inv h" "length (items h) + nb div 32 \<le> limit h"
  shows "\<exists>h'. add_full H nb h = (Inr (nb mod 32), h') \<and> inv h' \<and> length (items h') = length (items h) + nb div 32 \<and>
    S h' = S h \<union> {32 * length (items h)..<32 * length (items h) + 32 * (nb div 32)} \<and> limit h' = limit h"
  using assms
proof (induction nb arbitrary: h rule: less_induct)
  case (less nb)
  show ?case
  proof (cases "nb \<ge> 32")
    case False
    then show ?thesis using less.prems by (auto simp: add_full.simps [of H nb] op_return_def)
  next
    case True
    then have d: "nb div 32 = Suc ((nb - 32) div 32)" "nb mod 32 = (nb - 32) mod 32"
      using le_div_geq [of 32 nb] le_mod_geq [of 32 nb] by simp_all
    then obtain h1 where h1: "addBitSet H (- 1) h = (Inr (), h1)" "inv h1" "length (items h1) = length (items h) + 1"
        "S h1 = S h \<union> {32 * length (items h)..<32 * length (items h) + 32}" "limit h1 = limit h"
      using add_item [of h 0 32 "- 1"] less.prems by auto
    obtain h' where "add_full H (nb - 32) h1 = (Inr ((nb - 32) mod 32), h')" "inv h'" "length (items h') = length (items h1) + (nb - 32) div 32"
        "S h' = S h1 \<union> {32 * length (items h1)..<32 * length (items h1) + 32 * ((nb - 32) div 32)}" "limit h' = limit h1"
      using less.IH [of "nb - 32" h1] True less.prems d h1 by auto
    moreover have "{32 * length (items h)..<32 * length (items h) + 32} \<union>
        {32 * length (items h1)..<32 * length (items h1) + 32 * ((nb - 32) div 32)} =
        {32 * length (items h)..<32 * length (items h) + 32 * (nb div 32)}"
      unfolding h1(3) d by auto
    ultimately show ?thesis using h1 True d by (auto simp: add_full.simps [of H nb] op_bind_def Un_assoc)
  qed
qed

definition incl_tail :: "nat \<Rightarrow> ('h, unit) op" where
  "incl_tail nb = op_bind (add_full H nb)
     (\<lambda>nb. if nb > 0 then addBitSet H (fst (fill_bits True 0 (push_bit 0 1) 0 nb)) else op_return ())"

lemma incl_tail_spec:
  assumes h: "inv h" and nb: "0 < nb" "nb < 2 ^ 32" and lim: "(32 * length (items h) + nb - 1) div 32 < limit h"
  shows "does (incl_tail nb) h () (S h \<union> {32 * length (items h)..<32 * length (items h) + nb})"
proof -
  let ?n = "length (items h)" and ?d = "nb div 32" and ?r = "nb mod 32"
  have nb': "nb = 32 * ?d + ?r" by simp
  have "?n + ?d \<le> (32 * ?n + nb - 1) div 32" if "0 < ?r" using that by (rule ceil32)
  then have l: "?n + ?d \<le> limit h" "0 < ?r \<longrightarrow> ?n + ?d < limit h" using lim nb by linarith+
  obtain h1 where h1: "add_full H nb h = (Inr ?r, h1)" "inv h1" "length (items h1) = ?n + ?d"
      "S h1 = S h \<union> {32 * ?n..<32 * ?n + 32 * ?d}" "limit h1 = limit h"
    using add_full_items [OF h l(1)] by blast
  show ?thesis
  proof (cases "?r = 0")
    case True
    then have "32 * ?d = nb" using nb' by linarith
    then show ?thesis using h1 True by (auto simp: does_def incl_tail_def op_bind_def op_return_def)
  next
    case False
    obtain m where m: "fill_bits True 0 (push_bit 0 1) 0 ?r = (m, 0)" "\<forall>b. bit m b \<longleftrightarrow> b < ?r"
      using fill_bits_spec [of ?r 0 True 0] False less_trans [OF mod_less_divisor [of 32 nb], of "2 ^ 32"] by (auto simp: min_def)
    obtain h2 where h2: "addBitSet H m h1 = (Inr (), h2)" "inv h2" "limit h2 = limit h1"
        "S h2 = S h1 \<union> {32 * length (items h1) + 0..<32 * length (items h1) + 0 + ?r}"
      using add_item [OF h1(2), of 0 ?r m] l(2) h1(3,5) m(2) False by auto
    have "S h2 = S h \<union> {32 * ?n..<32 * ?n + nb}" unfolding h2(4) h1(3,4) using nb' by auto
    then show ?thesis using h1 h2 m False by (auto simp: does_def incl_tail_def op_bind_def)
  qed
qed

section \<open>The operation\<close>

lemma incl_behind:
  assumes h: "inv h" "length (items h) \<le> lo div 32" and lo: "lo \<le> hi" "hi - lo + 1 < 2 ^ 32" and lim: "hi div 32 < limit h"
  shows "does (bs_incl H lo hi True) h () (S h \<union> {lo..<Suc hi})"
proof -
  let ?i = "lo div 32" and ?j = "lo mod 32" and ?nb = "hi - lo + 1"
  have lo_eq: "lo = 32 * ?i + ?j" by simp
  have ih: "?i \<le> hi div 32" using lo(1) by (rule div_le_mono)
  obtain h1 where h1: "add_zeros H (?i - length (items h)) h = (Inr (), h1)" "inv h1" "length (items h1) = ?i" "S h1 = S h" "limit h1 = limit h"
    using add_zeros_spec [OF h(1), of "?i - length (items h)"] h(2) lim ih by auto
  let ?fin = "\<lambda>nb. if nb = 0 then op_return () else incl_tail nb"
  let ?first = "if ?j > 0 then let (m, nb) = fill_bits True ?j (push_bit ?j 1) 0 ?nb in op_bind (addBitSet H m) (\<lambda>_. op_return nb) else op_return ?nb"
  have e: "bs_incl H lo hi True h = op_bind ?first ?fin h1"
    using h lo h1(1) by (simp add: bs_incl_def width Let_def op_bind_assoc op_bind_Inr [where f = "add_zeros H _"] incl_tail_def cong: if_cong)
  have "does (op_bind ?first ?fin) h1 () (S h \<union> {lo..<Suc hi})"
  proof (cases "?j = 0")
    case True
    then have "32 * length (items h1) = lo" "32 * length (items h1) + ?nb = Suc hi" using h1(3) lo_eq lo(1) by linarith+
    then show ?thesis
      using True incl_tail_spec [OF h1(2), of ?nb] lo lim h1 by (simp add: does_def)
  next
    case False
    let ?c = "min ?nb (32 - ?j)"
    obtain m where m: "fill_bits True ?j (push_bit ?j 1) 0 ?nb = (m, ?nb - ?c)" "\<forall>b. bit m b \<longleftrightarrow> ?j \<le> b \<and> b < ?j + ?c"
      using fill_bits_spec [of ?nb ?j True 0] lo by auto
    have "length (items h1) < limit h1" "?j + ?c \<le> 32" using h1(3,5) ih lim by auto
    then obtain h2 where h2: "addBitSet H m h1 = (Inr (), h2)" "inv h2" "length (items h2) = length (items h1) + 1"
        "S h2 = S h1 \<union> {32 * length (items h1) + ?j..<32 * length (items h1) + ?j + ?c}" "limit h2 = limit h1"
      using add_item [OF h1(2), of ?j ?c m] m(2) by blast
    have S2: "S h2 = S h \<union> {lo..<lo + ?c}" using h2(4) h1(3,4) lo_eq by simp
    have "op_bind ?first ?fin h1 = ?fin (?nb - ?c) h2" using False m(1) h2(1) by (simp add: op_bind_def op_return_def)
    moreover have "does (?fin (?nb - ?c)) h2 () (S h \<union> {lo..<Suc hi})"
    proof (cases "?nb \<le> 32 - ?j")
      case True
      then have "?nb - ?c = 0" "lo + ?c = Suc hi" using lo(1) by auto
      then show ?thesis using does_return [OF h2(2), of "()"] S2 by simp
    next
      case *: False
      then have c: "?c = 32 - ?j" by linarith
      have "32 * length (items h2) = lo + ?c" unfolding c h2(3) h1(3) by (rule up32 [symmetric])
      moreover have "lo + ?c + (?nb - ?c) = Suc hi" using lo(1) by simp
      ultimately have "32 * length (items h2) = lo + ?c" "32 * length (items h2) + (?nb - ?c) = Suc hi" by simp_all
      moreover have "0 < ?nb - ?c" "?nb - ?c < 2 ^ 32" using * lo by linarith+
      ultimately have "does (incl_tail (?nb - ?c)) h2 () (S h2 \<union> {lo + ?c..<Suc hi})"
        using incl_tail_spec [OF h2(2), of "?nb - ?c"] lim h1(5) h2(5) by (simp only: diff_Suc_1)
      moreover have "{lo..<lo + ?c} \<union> {lo + ?c..<Suc hi} = {lo..<Suc hi}" using * lo(1) by (intro ivl_disj_un) linarith+
      ultimately have "does (incl_tail (?nb - ?c)) h2 () (S h \<union> {lo..<Suc hi})" using S2 by (simp only: Un_assoc)
      moreover have "?nb - ?c \<noteq> 0" using \<open>0 < ?nb - ?c\<close> by (rule gr_implies_not_zero)
      ultimately show ?thesis by (simp only: if_False)
    qed
    ultimately show ?thesis using h2(5) by (simp add: does_def)
  qed
  then show ?thesis using e h1(5) by (simp add: does_def)
qed

lemma incl_spec:
  assumes h: "inv h" and hi: "hi < 2 ^ 32" "\<not> (lo = 0 \<and> hi = 2 ^ 32 - 1)" and lim: "val \<and> lo \<le> hi \<longrightarrow> hi div 32 < limit h"
  shows "does (bs_incl H lo hi val) h () (put_range val (S h) lo (Suc hi))"
proof -
  let ?n = "length (items h)" and ?i = "lo div 32" and ?j = "lo mod 32" and ?nb = "hi - lo + 1"
  consider "hi < lo" | "lo \<le> hi" "?n \<le> ?i" "val" | "lo \<le> hi" "?n \<le> ?i" "\<not> val" | "lo \<le> hi" "?i < ?n" by linarith
  then show ?thesis
  proof cases
    case 1
    then show ?thesis using h by (simp add: bs_incl_def does_def put_range_empty)
  next
    case 2
    then show ?thesis using incl_behind [OF h, of lo hi] hi lim by (auto simp: put_range_def)
  next
    case 3
    have "k \<notin> S h" if "lo \<le> k" for k using S_bound [of k h] 3(2) that by auto
    then have "put_range val (S h) lo (Suc hi) = S h" using 3 by (auto simp: put_range_def)
    then show ?thesis using 3 h by (simp add: bs_incl_def does_def Let_def width)
  next
    case 4
    let ?c = "min ?nb (32 * ?n - (32 * ?i + ?j))"
    have nb: "0 < ?nb" "?nb < 2 ^ 32" using hi 4 by auto
    obtain h1 where h1: "incl_loop H val ?n ?i ?j ?nb h = (Inr (?nb - ?c), h1)" "inv h1" "length (items h1) = ?n"
        "S h1 = put_range val (S h) lo (lo + ?c)" "limit h1 = limit h"
      using incl_loop_spec [OF h refl, of ?i ?j ?nb ?c val] 4 nb by auto
    have e: "bs_incl H lo hi val h = (if ?nb - ?c = 0 \<or> \<not> val then op_return () else incl_tail (?nb - ?c)) h1"
      using 4 h nb h1(1) by (simp add: bs_incl_def width Let_def op_bind_def incl_tail_def)
    show ?thesis
    proof (cases "?nb \<le> 32 * ?n - lo")
      case True
      then have "lo + ?c = Suc hi" using 4 by auto
      then show ?thesis using e h1 True by (auto simp: does_def op_return_def)
    next
      case False
      then have c: "lo + ?c = 32 * ?n" "?nb - ?c = Suc hi - 32 * ?n" "0 < ?nb - ?c" using 4 by auto
      have d: "does (if ?nb - ?c = 0 \<or> \<not> val then op_return () else incl_tail (?nb - ?c)) h1 ()
          (if val then S h1 \<union> {32 * ?n..<Suc hi} else S h1)"
        using does_return [OF h1(2), of "()"] incl_tail_spec [OF h1(2), of "?nb - ?c"] c nb h1(3,5) lim 4(1) by auto
      have "(if val then S h1 \<union> {32 * ?n..<Suc hi} else S h1) = put_range val (S h) lo (Suc hi)"
        using S_bound [of _ h] c 4 unfolding h1(4) c(1) by (force simp: put_range_def)
      then show ?thesis using d e h1(5) by (simp add: does_def)
    qed
  qed
qed

end

end
