(* ===== verification/Jbuff_Theorems.thy ===== *)
theory Jbuff_Theorems
  imports Jbuff_Proofs
begin

text \<open>
  The theorems on \<^verbatim>\<open>MemoryBuffer\<close>: a sequence of values of any types is read back as it was written, and
  an append that cannot be done throws and changes nothing. A \<open>field\<close> is a value with the overload of
  \<^verbatim>\<open>append\<close> that writes it, an \<open>ftype\<close> the overload of \<^verbatim>\<open>read\<close> that reads it.
\<close>

section \<open>Values with their length\<close>

lemma unat_of_nat32: "n < 2 ^ 32 \<Longrightarrow> unat (of_nat n :: 32 word) = n"
  by (simp add: unat_of_nat)

interpretation attr: codec serialize_attr deserialize_attr "\<lambda>b x. endian b (var32 (of_nat (length x))) @ x" "\<lambda>x. length x < 2 ^ 32"
proof
  fix x :: bytes and b
  assume x: "length x < 2 ^ 32"
  show "appends (serialize_attr x) b (endian b (var32 (of_nat (length x))) @ x)"
    using appends_bind [OF unsigned.puts appends_mem] x by (simp add: serialize_attr_def Let_def)
  have "reads (read_mem (unat (of_nat (length x) :: 32 word))) b x x"
    using reads_mem [of x] x by (simp add: unat_of_nat32)
  from reads_bind [of _ _ _ _ "\<lambda>len. read_mem (unat len)", OF unsigned.gets this]
  show "reads deserialize_attr b (endian b (var32 (of_nat (length x))) @ x) x" by (simp add: deserialize_attr_def)
qed

definition enc_string :: "bool \<Rightarrow> bytes option \<Rightarrow> bytes" where
  "enc_string b s = (case s of None \<Rightarrow> endian b (var32 (- 1)) | Some x \<Rightarrow> endian b (var32 (of_nat (length x))) @ x)"

lemma of_nat_not_max: "n < 2 ^ 32 - 1 \<Longrightarrow> (of_nat n :: 32 word) \<noteq> - 1"
proof
  assume n: "n < 2 ^ 32 - 1" and "(of_nat n :: 32 word) = - 1"
  then have "n = unat (- 1 :: 32 word)" using unat_of_nat32 [of n] by simp
  then show False using n by (simp add: unsigned_minus_1_eq_mask mask_eq_exp_minus_1)
qed

interpretation string: codec serialize_cstr deserialize_string enc_string "\<lambda>s. \<forall>x. s = Some x \<longrightarrow> length x < 2 ^ 32 - 1"
proof
  fix s :: "bytes option" and b
  assume s: "\<forall>x. s = Some x \<longrightarrow> length x < 2 ^ 32 - 1"
  let ?g = "\<lambda>len :: 32 word. if len = - 1 then op_return None else op_bind (read_mem (unat len)) (\<lambda>s. op_return (Some s))"
  show "appends (serialize_cstr s) b (enc_string b s)"
    using appends_bind [OF unsigned.puts appends_mem] unsigned.puts s
    by (cases s) (auto simp: serialize_cstr_def enc_string_def Let_def)
  show "reads deserialize_string b (enc_string b s) s"
  proof (cases s)
    case None
    then show ?thesis
      using reads_bind [of _ _ _ _ ?g, OF unsigned.gets [where x = "- 1" and b = b], of "[]" None] reads_return [of "None :: bytes option" b]
      by (simp add: deserialize_string_def enc_string_def)
  next
    case (Some x)
    with s have x: "length x < 2 ^ 32 - 1" by simp
    then have u: "unat (of_nat (length x) :: 32 word) = length x" by (simp add: unat_of_nat32)
    have "reads (?g (of_nat (length x))) b (x @ []) (Some x)"
      using reads_bind [OF reads_mem [of x b] reads_return, of Some] of_nat_not_max [OF x] by (simp add: u)
    from reads_bind [of _ _ _ _ ?g, OF unsigned.gets this] show ?thesis
      using Some by (simp add: deserialize_string_def enc_string_def)
  qed
qed

section \<open>Sequences of values\<close>

datatype field =
    FChar "8 word" | FBool bool | FShort "16 word" | FInt "32 word" | FInt64 "64 word" | FPacked "64 word"
  | FCStr bytes | FMem bytes | FAttr bytes | FString "bytes option"

datatype ftype = TChar | TBool | TShort | TInt | TInt64 | TPacked | TCStr | TMem nat | TAttr | TString

fun type_of :: "field \<Rightarrow> ftype" where
  "type_of (FChar _) = TChar"
| "type_of (FBool _) = TBool"
| "type_of (FShort _) = TShort"
| "type_of (FInt _) = TInt"
| "type_of (FInt64 _) = TInt64"
| "type_of (FPacked _) = TPacked"
| "type_of (FCStr _) = TCStr"
| "type_of (FMem xs) = TMem (length xs)"
| "type_of (FAttr _) = TAttr"
| "type_of (FString _) = TString"

fun append_field :: "field \<Rightarrow> unit mop" where
  "append_field (FChar x) = append_uchar x"
| "append_field (FBool x) = append_bool x"
| "append_field (FShort x) = append_ushort x"
| "append_field (FInt x) = append_unsigned x"
| "append_field (FInt64 x) = append_uint64 x"
| "append_field (FPacked x) = appendPacked x"
| "append_field (FCStr x) = append_cstr (Some x)"
| "append_field (FMem x) = append_mem x"
| "append_field (FAttr x) = serialize_attr x"
| "append_field (FString x) = serialize_cstr x"

fun read_field :: "ftype \<Rightarrow> field mop" where
  "read_field TChar = op_bind read_uchar (\<lambda>x. op_return (FChar x))"
| "read_field TBool = op_bind read_bool (\<lambda>x. op_return (FBool x))"
| "read_field TShort = op_bind read_ushort (\<lambda>x. op_return (FShort x))"
| "read_field TInt = op_bind read_unsigned (\<lambda>x. op_return (FInt x))"
| "read_field TInt64 = op_bind read_uint64 (\<lambda>x. op_return (FInt64 x))"
| "read_field TPacked = op_bind readPacked (\<lambda>x. op_return (FPacked x))"
| "read_field TCStr = op_bind read_cstr (\<lambda>x. op_return (FCStr x))"
| "read_field (TMem n) = op_bind (read_mem n) (\<lambda>x. op_return (FMem x))"
| "read_field TAttr = op_bind deserialize_attr (\<lambda>x. op_return (FAttr x))"
| "read_field TString = op_bind deserialize_string (\<lambda>x. op_return (FString x))"

fun append_fields :: "field list \<Rightarrow> unit mop" where
  "append_fields [] = op_return ()"
| "append_fields (x # xs) = op_bind (append_field x) (\<lambda>_. append_fields xs)"

fun read_fields :: "ftype list \<Rightarrow> field list mop" where
  "read_fields [] = op_return []"
| "read_fields (t # ts) = op_bind (read_field t) (\<lambda>x. op_bind (read_fields ts) (\<lambda>xs. op_return (x # xs)))"

text \<open>The values that can be told apart: a C string has no zero in it, a length fits its 32 bits.\<close>

fun valid_field :: "field \<Rightarrow> bool" where
  "valid_field (FCStr s) \<longleftrightarrow> 0 \<notin> set s"
| "valid_field (FAttr xs) \<longleftrightarrow> length xs < 2 ^ 32"
| "valid_field (FString (Some xs)) \<longleftrightarrow> length xs < 2 ^ 32 - 1"
| "valid_field _ \<longleftrightarrow> True"

fun enc_field :: "bool \<Rightarrow> field \<Rightarrow> bytes" where
  "enc_field b (FChar x) = [x]"
| "enc_field b (FBool x) = [if x then 1 else 0]"
| "enc_field b (FShort x) = endian b (var16 x)"
| "enc_field b (FInt x) = endian b (var32 x)"
| "enc_field b (FInt64 x) = endian b (var64 x)"
| "enc_field b (FPacked x) = vlq_bytes x"
| "enc_field b (FCStr s) = s @ [0]"
| "enc_field b (FMem xs) = xs"
| "enc_field b (FAttr xs) = endian b (var32 (of_nat (length xs))) @ xs"
| "enc_field b (FString s) = enc_string b s"

lemma valid_string: "valid_field (FString s) \<longleftrightarrow> (\<forall>x. s = Some x \<longrightarrow> length x < 2 ^ 32 - 1)"
  by (cases s) auto

lemma appends_field: "valid_field x \<Longrightarrow> appends (append_field x) b (enc_field b x)"
  by (cases x) (simp_all add: uchar.puts bool.puts ushort.puts unsigned.puts uint64.puts packed.puts cstr.puts
      appends_mem attr.puts string.puts valid_string)

lemma reads_wrap: "reads f b xs x \<Longrightarrow> reads (op_bind f (\<lambda>x. op_return (c x))) b xs (c x)"
  using reads_bind [OF _ reads_return, of f b xs x c] by simp

lemma reads_bool: "reads read_bool b [1] True" "reads read_bool b [0] False"
  using bool.gets [where x = True] bool.gets [where x = False] by simp_all

lemma reads_field: "valid_field x \<Longrightarrow> reads (read_field (type_of x)) b (enc_field b x) x"
  by (cases x) (auto intro!: reads_wrap uchar.gets reads_bool ushort.gets unsigned.gets uint64.gets packed.gets cstr.gets
      reads_mem attr.gets string.gets simp: valid_string)

definition enc_fields :: "bool \<Rightarrow> field list \<Rightarrow> bytes" where
  "enc_fields b xs = concat (map (enc_field b) xs)"

interpretation fields: codec append_fields "read_fields ts" enc_fields "\<lambda>xs. list_all valid_field xs \<and> map type_of xs = ts" for ts
proof
  fix xs b
  assume "list_all valid_field xs \<and> map type_of xs = ts"
  then show "appends (append_fields xs) b (enc_fields b xs)"
    by (induction xs arbitrary: ts) (auto simp: enc_fields_def intro!: appends_return appends_bind appends_field)
next
  fix xs b
  assume "list_all valid_field xs \<and> map type_of xs = ts"
  then show "reads (read_fields ts) b (enc_fields b xs) xs"
    by (induction xs arbitrary: ts) (auto simp: enc_fields_def intro!: reads_return reads_bind reads_field reads_wrap)
qed

section \<open>Theorems\<close>

text \<open>
  C4. Whatever sequence of bytes, truth values, integers, packed integers, strings and memory blocks is
  appended to a buffer, with either byte order, the bytes before stay, and reading values of the
  same types from where the first one was written gives the same sequence and ends at the end of the buffer.
\<close>

theorem MemoryBuffer_roundtrip:
  assumes "list_all valid_field xs" "mb_inv mb" "ownBuffer mb" "curLen mb + length (enc_fields (swapEndian mb) xs) < 0xffff0000"
  shows "\<exists>mb'. append_fields xs mb = (Inr (), mb') \<and> take (curLen mb) (buffer mb') = take (curLen mb) (buffer mb) \<and>
    op_bind (mb_reset (curLen mb)) (\<lambda>_. read_fields (map type_of xs)) mb' = (Inr xs, mb'\<lparr>readPos := curLen mb'\<rparr>)"
proof -
  obtain mb' where mb': "append_fields xs mb = (Inr (), mb')" "appended mb (map Some (enc_fields (swapEndian mb) xs)) mb'"
    "read_fields (map type_of xs) (mb'\<lparr>readPos := curLen mb\<rparr>) = (Inr xs, mb'\<lparr>readPos := curLen mb'\<rparr>)"
    using fields.roundtrip [of xs "map type_of xs" mb] assms by (auto simp: mb_room_def)
  have "curLen mb \<le> curLen mb'" using appended_curLen [OF assms(2) mb'(2)] by simp
  then have "take (curLen mb) (buffer mb') = take (curLen mb) (mb_bytes mb')" by (simp add: mb_bytes_def min_def)
  also have "\<dots> = take (curLen mb) (buffer mb)"
    using mb'(2) length_mb_bytes [OF assms(2)] by (auto simp: appended_def mb_bytes_def)
  finally show ?thesis using mb' by (auto simp: mb_reset_def)
qed

theorem MemoryBuffer_roundtrip_witness:
  "\<exists>mb'. append_fields [FInt 258, FString None, FPacked 300] (mb_init\<lparr>swapEndian := True\<rparr>) = (Inr (), mb') \<and>
     fst (op_bind (mb_reset 0) (\<lambda>_. read_fields [TInt, TString, TPacked]) mb') = Inr [FInt 258, FString None, FPacked 300]"
proof -
  have "vlq_bytes 300 = [0xac, 2]" by (simp add: vlq_bytes.simps)
  then have "length (enc_fields True [FInt 258, FString None, FPacked 300]) = 10"
    by (simp add: enc_fields_def enc_string_def)
  then show ?thesis
    using MemoryBuffer_roundtrip [of "[FInt 258, FString None, FPacked 300]" "mb_init\<lparr>swapEndian := True\<rparr>"]
    by (auto simp: mb_inv_def mb_init_def)
qed

text \<open>
  C25. Appending bytes to a buffer that owns its block adds them after those that are there, and the
  allocation stays, grows to less than twice the new length, or is the first block of eight bytes; but where the block has to grow to within 64 KiB of
  4 GiB the append throws, and it throws when a block that belongs to the caller would have to grow. In
  both cases the buffer is as it was.
\<close>

theorem append_mem_correct:
  assumes "mb_inv mb" "xs \<noteq> []" and n: "n = curLen mb + length xs"
  shows "if n \<le> maxLen mb \<or> ownBuffer mb \<and> n < 0xffff0000 then
      \<exists>mb'. append_mem xs mb = (Inr (), mb') \<and> mb_inv mb' \<and> mb_bytes mb' = mb_bytes mb @ map Some xs \<and>
        (maxLen mb' = maxLen mb \<or> maxLen mb' < 2 * n \<or> maxLen mb' = BUFF_FIRST_CHUNK_SIZE)
    else append_mem xs mb = (Inl (if n \<le> MEMBUFFER_MAXLEN \<and> \<not> ownBuffer mb then AssertFailed else Thrown (- 10)), mb)"
proof (cases "n \<le> maxLen mb \<or> ownBuffer mb \<and> n < 0xffff0000")
  case True
  then obtain mb' where mb': "write_end (map Some xs) mb = (Inr (), mb')" "appended mb (map Some xs) mb'"
    "maxLen mb' = maxLen mb \<or> maxLen mb' < 2 * curLen mb' \<or> maxLen mb' = BUFF_FIRST_CHUNK_SIZE"
    using write_end_spec [OF assms(1), of "map Some xs"] by (auto simp: mb_room_def n)
  then have "curLen mb' = n" using appended_curLen [OF assms(1)] n by simp
  then show ?thesis using True mb' assms(2) by (auto simp: append_mem_def appended_def)
next
  case False
  have "write_end (map Some xs) mb = (Inl (if n \<le> MEMBUFFER_MAXLEN \<and> \<not> ownBuffer mb then AssertFailed else Thrown (- 10)), mb)"
  proof (cases "n \<le> MEMBUFFER_MAXLEN")
    case True
    then have "mb_realloc n mb = (Inl (if \<not> ownBuffer mb then AssertFailed else Thrown (- 10)), mb)"
      using False new_capacity_throws [of n] by (auto simp: mb_realloc_def)
    then show ?thesis using True by (simp add: write_end_def check_ok n [symmetric] op_bind_def op_res_def)
  qed (simp add: write_end_def check_throws n)
  then show ?thesis using False assms(2) by (auto simp: append_mem_def)
qed

theorem append_mem_correct_witness:
  "fst (append_mem [1, 2] (mb_init\<lparr>ownBuffer := False\<rparr>)) = Inl AssertFailed \<and>
   (\<exists>mb'. append_mem [1, 2] mb_init = (Inr (), mb') \<and> mb_bytes mb' = [Some 1, Some 2])"
  using append_mem_correct [of mb_init "[1, 2]" 2] append_mem_correct [of "mb_init\<lparr>ownBuffer := False\<rparr>" "[1, 2]" 2]
  by (auto simp: mb_inv_def mb_init_def mb_bytes_def)

text \<open>
  \<^verbatim>\<open>reserveTruncate\<close> on a buffer whose larger block belongs to the caller hands that block to \<^verbatim>\<open>realloc\<close>.
\<close>

lemma reserveTruncate_not_owned:
  assumes "mb_inv mb" "\<not> ownBuffer mb" "curLen mb + n < maxLen mb"
  shows "fst (reserveTruncate n mb) = Inl Undefined"
  using assms
  by (simp add: reserveTruncate_def mb_inv_def check_ok mb_modify_def op_bind_def op_res_def mb_reallocExact_def mb_truncate_def)

end
