(* ===== verification/Jset_Theorems.thy ===== *)
theory Jset_Theorems
  imports Jset_Ranges Jbuff_Theorems
begin

text \<open>
  The two bit set classes implement sets of numbers: the contract of a helper holds for the array and
  for memory, whether it grows or is fixed, so that any sequence of operations gives the results of
  the same operations on a set. Serialisation is the identity for the thread-safe class and loses
  the bits of the other.
\<close>

section \<open>The array\<close>

definition array_inv :: "CBitSetArrayHelper \<Rightarrow> bool" where
  "array_inv h \<longleftrightarrow> length (bits h) \<le> 2 ^ 27"

definition array_limit :: "CBitSetArrayHelper \<Rightarrow> nat" where
  "array_limit h = 2 ^ 27"

interpretation array: bit_store array_helper array_inv bits array_limit
  by unfold_locales (auto simp: array_helper_def array_inv_def array_limit_def)

section \<open>Memory\<close>

text \<open>The items in a block of memory, and a helper whose memory is all written.\<close>

definition words :: "block \<Rightarrow> nat \<Rightarrow> bits_t list" where
  "words blk n = map (\<lambda>i. load32 (map the (take 4 (drop (4 * i) blk))) 0) [0..<n]"

definition mem_inv :: "CBitSetMemoryHelper \<Rightarrow> bool" where
  "mem_inv h \<longleftrightarrow> bitSetUnits h \<le> 2 ^ 27 \<and> 4 * bitSetUnits h \<le> length (mem_block h) \<and>
     None \<notin> set (take (4 * bitSetUnits h) (mem_block h)) \<and>
     (if fixedMemory h then mem_at h = ExternMem
      else mem_at h \<noteq> ExternMem \<and> mb_inv (membuf h) \<and> ownBuffer (membuf h) \<and> \<not> swapEndian (membuf h) \<and>
        curLen (membuf h) = 4 * bitSetUnits h)"

definition mem_items :: "CBitSetMemoryHelper \<Rightarrow> bits_t list" where
  "mem_items h = words (mem_block h) (bitSetUnits h)"

definition mem_limit :: "CBitSetMemoryHelper \<Rightarrow> nat" where
  "mem_limit h = (if fixedMemory h then bitSetUnits h else 2 ^ 27)"

lemma length_words [simp]: "length (words blk n) = n"
  by (simp add: words_def)

lemma take_item: "i < n \<Longrightarrow> take 4 (drop (4 * i) blk) = take 4 (drop (4 * i) (take (4 * n) blk))"
  by (simp add: drop_take min_def)

lemma words_cong: "take (4 * n) blk = take (4 * n) blk' \<Longrightarrow> words blk n = words blk' n"
  unfolding words_def using take_item [of _ n blk] take_item [of _ n blk'] by (intro map_cong) simp_all

lemma words_store:
  assumes "i < n" "4 * n \<le> length blk"
  shows "words (take (4 * i) blk @ map Some (var32 m) @ drop (4 * i + 4) blk) n = (words blk n)[i := m]"
proof (rule nth_equalityI)
  fix k assume "k < length (words (take (4 * i) blk @ map Some (var32 m) @ drop (4 * i + 4) blk) n)"
  then have k: "k < n" by simp
  let ?b = "take (4 * i) blk @ map Some (var32 m) @ drop (4 * i + 4) blk"
  have w: "words xs n ! k = load32 (map the (take 4 (drop (4 * k) xs))) 0" for xs using k by (simp add: words_def)
  have e: "take 4 (drop (4 * k) ?b) = (if k = i then map Some (var32 m) else take 4 (drop (4 * k) blk))"
  proof (cases k i rule: linorder_cases)
    case less
    then have "4 \<le> 4 * i - 4 * k" "k \<noteq> i" by simp_all
    then show ?thesis using assms by (simp add: drop_take take_append min_def)
  next
    case equal
    then show ?thesis using assms by (simp add: min_def)
  next
    case greater
    then have "4 * k - (4 * i + 4) + (4 * i + 4) = 4 * k" by simp
    then show ?thesis using greater assms by (simp add: min_def add.commute)
  qed
  show "words ?b n ! k = (words blk n)[i := m] ! k"
    unfolding w [of ?b] e using k w [of blk] by (simp add: nth_list_update comp_def)
qed simp

lemma words_snoc:
  assumes "take (4 * n + 4) blk' = take (4 * n) blk @ map Some (var32 m)" "4 * n \<le> length blk"
  shows "words blk' (Suc n) = words blk n @ [m]"
proof -
  have "take (4 * n) blk' = take (4 * n) (take (4 * n + 4) blk')" by simp
  also have "\<dots> = take (4 * n) blk" unfolding assms(1) using assms(2) by simp
  finally have 1: "words blk' n = words blk n" by (rule words_cong)
  have "take 4 (drop (4 * n) blk') = drop (4 * n) (take (4 * n + 4) blk')" by (simp add: drop_take)
  also have "\<dots> = map Some (var32 m)" unfolding assms(1) using assms(2) by simp
  finally have "load32 (map the (take 4 (drop (4 * n) blk'))) 0 = m" by (simp add: comp_def)
  then have "words blk' (Suc n) = words blk' n @ [m]" by (simp add: words_def)
  then show ?thesis using 1 by simp
qed

lemma mem_get:
  assumes "mem_inv h" "i < bitSetUnits h"
  shows "memory_getBits i h = (Inr (mem_items h ! i), h)"
proof -
  have "set (take 4 (drop (4 * i) (mem_block h))) \<subseteq> set (take (4 * bitSetUnits h) (mem_block h))"
    using take_item [OF assms(2), of "mem_block h"] by (metis set_take_subset set_drop_subset subset_trans)
  then show ?thesis
    using assms by (auto simp: memory_getBits_def load_bytes_def mem_inv_def mem_items_def words_def)
qed

lemma mem_put:
  assumes h: "mem_inv h" "i < bitSetUnits h"
  shows "\<exists>h'. memory_setBits i m h = (Inr (), h') \<and> mem_inv h' \<and> mem_items h' = (mem_items h)[i := m] \<and> mem_limit h' = mem_limit h"
proof -
  let ?b = "take (4 * i) (mem_block h) @ map Some (var32 m) @ drop (4 * i + 4) (mem_block h)"
  let ?h = "set_block ?b h"
  have l: "4 * i + 4 \<le> length (mem_block h)" "mem_at h \<noteq> NullMem" using h by (auto simp: mem_inv_def mem_block_def)
  then have "store_block (mem_block h) (4 * i) (map Some (var32 m)) = Inr ?b" by (simp add: store_block_def)
  then have s: "memory_setBits i m h = (Inr (), ?h)" by (simp add: memory_setBits_def)
  have e: "mem_block ?h = ?b" "bitSetUnits ?h = bitSetUnits h" "fixedMemory ?h = fixedMemory h" "mem_at ?h = mem_at h"
      "curLen (membuf ?h) = curLen (membuf h)" "ownBuffer (membuf ?h) = ownBuffer (membuf h)" "swapEndian (membuf ?h) = swapEndian (membuf h)"
    using l(2) by (auto simp: set_block_def mem_block_def split: mem_ptr.splits)
  have "take (4 * bitSetUnits h) ?b = take (4 * i) (mem_block h) @ map Some (var32 m) @ take (4 * bitSetUnits h - (4 * i + 4)) (drop (4 * i + 4) (mem_block h))"
    using h l by (simp add: min_def)
  moreover have "set (take (4 * i) (mem_block h)) \<subseteq> set (take (4 * bitSetUnits h) (mem_block h))"
    using h(2) by (intro set_take_subset_set_take) simp
  moreover have "set (take (4 * bitSetUnits h - (4 * i + 4)) (drop (4 * i + 4) (mem_block h))) \<subseteq> set (take (4 * bitSetUnits h) (mem_block h))"
    by (metis drop_take set_drop_subset)
  ultimately have "None \<notin> set (take (4 * bitSetUnits h) ?b)" using h(1) by (auto simp: mem_inv_def)
  moreover have "length ?b = length (mem_block h)" using l by simp
  moreover have "mb_inv (membuf h) \<Longrightarrow> mb_inv (membuf ?h)"
    using l by (auto simp: mb_inv_def set_block_def mem_block_def split: mem_ptr.splits)
  ultimately have "mem_inv ?h" using h(1) e by (auto simp: mem_inv_def split: if_splits)
  moreover have "mem_items ?h = (mem_items h)[i := m]"
    using words_store [OF h(2), of "mem_block h" m] h(1) e by (simp add: mem_items_def mem_inv_def)
  ultimately show ?thesis using s e by (auto simp: mem_limit_def)
qed

lemma mem_add:
  assumes h: "mem_inv h" "bitSetUnits h < mem_limit h"
  shows "\<exists>h'. memory_addBitSet m h = (Inr (), h') \<and> mem_inv h' \<and> mem_items h' = mem_items h @ [m] \<and> mem_limit h' = mem_limit h"
proof -
  have nf: "\<not> fixedMemory h" "bitSetUnits h < 2 ^ 27" using h(2) by (auto simp: mem_limit_def split: if_splits)
  let ?mb = "membuf h" and ?n = "bitSetUnits h"
  have mb: "mb_inv ?mb" "ownBuffer ?mb" "\<not> swapEndian ?mb" "curLen ?mb = 4 * ?n" using h(1) nf(1) by (auto simp: mem_inv_def)
  then have "mb_room ?mb (length (endian False (var32 m)))" using nf(2) by (simp add: mb_room_def)
  then obtain mb' where mb': "append_unsigned m ?mb = (Inr (), mb')" "appended ?mb (map Some (var32 m)) mb'"
    using unsigned.puts [of m False] mb unfolding appends_def by (auto simp: endian_def)
  let ?h = "h\<lparr>membuf := mb', mem_at := MbMem, bitSetUnits := u32 (?n + 1)\<rparr>"
  have u: "u32 (?n + 1) = Suc ?n" using nf(2) by simp
  have cur: "curLen mb' = 4 * ?n + 4" using appended_curLen [OF mb(1) mb'(2)] mb(4) by simp
  have null: "mem_block h = buffer ?mb \<or> ?n = 0" using h(1) nf(1) by (auto simp: mem_inv_def mem_block_def split: mem_ptr.splits)
  have "take (4 * ?n + 4) (buffer mb') = take (4 * ?n) (buffer ?mb) @ map Some (var32 m)"
    using mb'(2) cur mb(4) by (simp add: appended_def mb_bytes_def)
  then have t: "take (4 * ?n + 4) (buffer mb') = take (4 * ?n) (mem_block h) @ map Some (var32 m)" using null by auto
  have "memory_addBitSet m h = (Inr (), ?h)" using nf mb'(1) by (simp add: memory_addBitSet_def)
  moreover have "mem_inv ?h"
  proof -
    have "4 * Suc ?n \<le> length (buffer mb')" "mb_inv mb'" using mb'(2) cur by (auto simp: appended_def mb_inv_def)
    moreover have "None \<notin> set (take (4 * Suc ?n) (buffer mb'))" using t h(1) by (auto simp: mem_inv_def add.commute)
    ultimately show ?thesis using mb'(2) mb cur nf u by (simp add: mem_inv_def mem_block_def appended_def)
  qed
  moreover have "mem_items ?h = mem_items h @ [m]"
    using words_snoc [OF t] h(1) u by (simp add: mem_items_def mem_block_def mem_inv_def)
  ultimately show ?thesis using nf(1) by (auto simp: mem_limit_def)
qed

interpretation memory: bit_store memory_helper mem_inv mem_items mem_limit
proof
  fix h i m
  show "mem_inv h \<Longrightarrow> getWidth memory_helper h = length (mem_items h)" by (simp add: memory_helper_def mem_items_def)
  show "mem_inv h \<Longrightarrow> i < length (mem_items h) \<Longrightarrow> getBits memory_helper i h = (Inr (mem_items h ! i), h)"
    using mem_get by (simp add: memory_helper_def mem_items_def)
  show "mem_inv h \<Longrightarrow> i < length (mem_items h) \<Longrightarrow>
      \<exists>h'. setBits memory_helper i m h = (Inr (), h') \<and> mem_inv h' \<and> mem_items h' = (mem_items h)[i := m] \<and> mem_limit h' = mem_limit h"
    using mem_put by (simp add: memory_helper_def mem_items_def)
  show "mem_inv h \<Longrightarrow> length (mem_items h) < mem_limit h \<Longrightarrow>
      \<exists>h'. addBitSet memory_helper m h = (Inr (), h') \<and> mem_inv h' \<and> mem_items h' = mem_items h @ [m] \<and> mem_limit h' = mem_limit h"
    using mem_add by (simp add: memory_helper_def mem_items_def)
  show "mem_inv h \<Longrightarrow> length (mem_items h) \<le> mem_limit h" "mem_inv h \<Longrightarrow> mem_limit h \<le> 2 ^ 27"
    by (auto simp: mem_inv_def mem_items_def mem_limit_def)
qed

section \<open>Sequences of operations\<close>

datatype bcmd =
    CSet nat bool | CInvert nat | CTest nat | CTestSet nat bool | CScan nat bool | CScanInvert nat bool
  | CIncl nat nat | CExcl nat nat | CReset

datatype bout = ODone | OBool bool | ONat nat

fun run_bcmd :: "'h helper \<Rightarrow> ('h, unit) op \<Rightarrow> bcmd \<Rightarrow> ('h, bout) op" where
  "run_bcmd H rst (CSet n val) = op_bind (bs_set H n val) (\<lambda>_. op_return ODone)"
| "run_bcmd H rst (CInvert n) = op_bind (bs_invert H n) (\<lambda>b. op_return (OBool b))"
| "run_bcmd H rst (CTest n) = op_bind (bs_test H n) (\<lambda>b. op_return (OBool b))"
| "run_bcmd H rst (CTestSet n val) = op_bind (bs_testSet H n val) (\<lambda>b. op_return (OBool b))"
| "run_bcmd H rst (CScan from tst) = op_bind (bs_scan_only H from tst) (\<lambda>k. op_return (ONat k))"
| "run_bcmd H rst (CScanInvert from tst) = op_bind (bs_scanInvert H from tst) (\<lambda>k. op_return (ONat k))"
| "run_bcmd H rst (CIncl lo hi) = op_bind (bs_include H lo hi) (\<lambda>_. op_return ODone)"
| "run_bcmd H rst (CExcl lo hi) = op_bind (bs_exclude H lo hi) (\<lambda>_. op_return ODone)"
| "run_bcmd H rst CReset = op_bind rst (\<lambda>_. op_return ODone)"

fun run_bcmds :: "'h helper \<Rightarrow> ('h, unit) op \<Rightarrow> bcmd list \<Rightarrow> ('h, bout list) op" where
  "run_bcmds H rst [] = op_return []"
| "run_bcmds H rst (c # cs) = op_bind (run_bcmd H rst c) (\<lambda>x. op_bind (run_bcmds H rst cs) (\<lambda>xs. op_return (x # xs)))"

text \<open>The same operations on a set of numbers.\<close>

fun abs_bcmd :: "bcmd \<Rightarrow> nat set \<Rightarrow> bout \<times> nat set" where
  "abs_bcmd (CSet n val) A = (ODone, if val then insert n A else A - {n})"
| "abs_bcmd (CInvert n) A = (OBool (n \<notin> A), toggle n A)"
| "abs_bcmd (CTest n) A = (OBool (n \<in> A), A)"
| "abs_bcmd (CTestSet n val) A = (OBool (n \<in> A), if val then insert n A else A - {n})"
| "abs_bcmd (CScan from tst) A = (ONat (abs_scan tst from A), A)"
| "abs_bcmd (CScanInvert from tst) A =
     (ONat (abs_scan tst from A), if \<exists>k\<ge>from. (k \<in> A) = tst then toggle (abs_scan tst from A) A else A)"
| "abs_bcmd (CIncl lo hi) A = (ODone, A \<union> {lo..hi})"
| "abs_bcmd (CExcl lo hi) A = (ODone, A - {lo..hi})"
| "abs_bcmd CReset A = (ODone, {})"

fun abs_bcmds :: "bcmd list \<Rightarrow> nat set \<Rightarrow> bout list \<times> nat set" where
  "abs_bcmds [] A = ([], A)"
| "abs_bcmds (c # cs) A = (let (x, A') = abs_bcmd c A; (xs, A'') = abs_bcmds cs A' in (x # xs, A''))"

text \<open>
  The operations that a set with room for \<open>lim\<close> items can do: the numbers fit 32 bits, a number that
  is added fits the mb_room, a search for a number that is not in the set has one to find, and a range is not that of all numbers.
\<close>

fun bcmd_ok :: "nat \<Rightarrow> nat set \<Rightarrow> bcmd \<Rightarrow> bool" where
  "bcmd_ok lim A (CSet n val) \<longleftrightarrow> n < 2 ^ 32 \<and> (val \<longrightarrow> n div 32 < lim)"
| "bcmd_ok lim A (CInvert n) \<longleftrightarrow> n < 2 ^ 32 \<and> n div 32 < lim"
| "bcmd_ok lim A (CTest n) \<longleftrightarrow> n < 2 ^ 32"
| "bcmd_ok lim A (CTestSet n val) \<longleftrightarrow> n < 2 ^ 32 \<and> (val \<longrightarrow> n div 32 < lim)"
| "bcmd_ok lim A (CScan from tst) \<longleftrightarrow> from < 2 ^ 32 \<and> (tst \<or> (\<exists>k < 2 ^ 32. from \<le> k \<and> k \<notin> A))"
| "bcmd_ok lim A (CScanInvert from tst) \<longleftrightarrow>
     from < 2 ^ 32 \<and> (tst \<or> (\<exists>k < 2 ^ 32. from \<le> k \<and> k \<notin> A) \<and> abs_scan tst from A div 32 < lim)"
| "bcmd_ok lim A (CIncl lo hi) \<longleftrightarrow> hi < 2 ^ 32 \<and> \<not> (lo = 0 \<and> hi = 2 ^ 32 - 1) \<and> (lo \<le> hi \<longrightarrow> hi div 32 < lim)"
| "bcmd_ok lim A (CExcl lo hi) \<longleftrightarrow> hi < 2 ^ 32 \<and> \<not> (lo = 0 \<and> hi = 2 ^ 32 - 1)"
| "bcmd_ok lim A CReset \<longleftrightarrow> True"

fun bcmds_ok :: "nat \<Rightarrow> nat set \<Rightarrow> bcmd list \<Rightarrow> bool" where
  "bcmds_ok lim A [] \<longleftrightarrow> True"
| "bcmds_ok lim A (c # cs) \<longleftrightarrow> bcmd_ok lim A c \<and> bcmds_ok lim (snd (abs_bcmd c A)) cs"

lemma put_range_Suc: "put_range True A lo (Suc hi) = A \<union> {lo..hi}" "put_range False A lo (Suc hi) = A - {lo..hi}"
  by (auto simp: put_range_def)

text \<open>A bit set: a helper together with the reset of its class.\<close>

locale bit_set = bit_store +
  fixes rst :: "('a, unit) op"
  assumes reset: "inv h \<Longrightarrow> does rst h () {}"
begin

lemma cmd:
  assumes h: "inv h" and c: "bcmd_ok (limit h) (S h) c"
  shows "does (run_bcmd H rst c) h (fst (abs_bcmd c (S h))) (snd (abs_bcmd c (S h)))"
proof (cases c)
  case (CSet n val)
  then show ?thesis using c does_then_return [OF set_spec [OF h, of val n]] by auto
next
  case (CInvert n)
  then show ?thesis using c does_then_return [OF invert_spec [OF h, of n]] by (auto simp: toggle_def)
next
  case (CTest n)
  have "does (bs_test H n) h (n \<in> S h) (S h)" using test_spec [OF h, of n] h by (simp add: does_def)
  then show ?thesis using CTest does_then_return by auto
next
  case (CTestSet n val)
  then show ?thesis using c does_then_return [OF testSet_spec [OF h, of val n]] by auto
next
  case (CScan "from" tst)
  then show ?thesis
    using c does_then_return [OF scan_spec [OF h, of "from" tst False]] by (auto simp: bs_scan_only_def)
next
  case (CScanInvert "from" tst)
  have "does (bs_scan H from tst True) h (abs_scan tst from (S h))
      (if True \<and> (\<exists>k\<ge>from. (k \<in> S h) = tst) then toggle (abs_scan tst from (S h)) (S h) else S h)"
    by (rule scan_spec [OF h]) (use c CScanInvert in auto)
  from does_then_return [OF this, of ONat] show ?thesis using CScanInvert by (simp only: run_bcmd.simps bs_scanInvert_def abs_bcmd.simps fst_conv snd_conv simp_thms)
next
  case (CIncl lo hi)
  then show ?thesis
    using c does_then_return [OF incl_spec [OF h, of hi lo True]] by (auto simp: bs_include_def put_range_Suc)
next
  case (CExcl lo hi)
  then show ?thesis
    using c does_then_return [OF incl_spec [OF h, of hi lo False]] by (auto simp: bs_exclude_def put_range_Suc)
next
  case CReset
  then show ?thesis using does_then_return [OF reset [OF h]] by auto
qed

lemma cmds:
  assumes "inv h" "bcmds_ok (limit h) (S h) cs"
  shows "does (run_bcmds H rst cs) h (fst (abs_bcmds cs (S h))) (snd (abs_bcmds cs (S h)))"
  using assms
proof (induction cs arbitrary: h)
  case Nil
  then show ?case by (simp add: does_def op_return_def)
next
  case (Cons c cs)
  let ?r = "abs_bcmd c (S h)"
  have 1: "does (run_bcmd H rst c) h (fst ?r) (snd ?r)" using Cons.prems by (intro cmd) simp_all
  have 2: "does (op_bind (run_bcmds H rst cs) (\<lambda>xs. op_return (fst ?r # xs))) h' (fst ?r # fst (abs_bcmds cs (snd ?r))) (snd (abs_bcmds cs (snd ?r)))"
    if "inv h'" "S h' = snd ?r" "limit h' = limit h" for h'
    using does_then_return [OF Cons.IH [OF that(1)], of "\<lambda>xs. fst ?r # xs"] Cons.prems that by simp
  have "does (run_bcmds H rst (c # cs)) h (fst ?r # fst (abs_bcmds cs (snd ?r))) (snd (abs_bcmds cs (snd ?r)))"
    unfolding run_bcmds.simps by (rule does_bind [OF 1]) (rule 2)
  moreover have "abs_bcmds (c # cs) (S h) = (fst ?r # fst (abs_bcmds cs (snd ?r)), snd (abs_bcmds cs (snd ?r)))"
    by (simp add: Let_def split: prod.splits)
  ultimately show ?case by simp
qed

text \<open>From an empty set on, the results are those of the abstract operations, and so are all tests afterwards.\<close>

lemma refines:
  assumes "inv h" "S h = {}" "bcmds_ok (limit h) {} cs"
  shows "\<exists>h'. run_bcmds H rst cs h = (Inr (fst (abs_bcmds cs {})), h') \<and>
    (\<forall>n. bs_test H n h' = (Inr (n \<in> snd (abs_bcmds cs {})), h'))"
  using cmds [of h cs] assms test_spec unfolding does_def by fastforce

end

section \<open>The two classes\<close>

lemma bits_of_empty: "bits_of (replicate n 0) = {}"
  by (auto simp: in_bits_of)

interpretation threadsafe: bit_set array_helper array_inv bits array_limit threadsafe_reset
  by unfold_locales
    (simp add: array.does_def array.S_def threadsafe_reset_def bits_of_def array_inv_def array_limit_def)

lemma words_zero: "words (replicate (4 * n) (Some 0) @ r) n = replicate n 0"
proof (rule nth_equalityI)
  fix i assume "i < length (words (replicate (4 * n) (Some 0) @ r) n)"
  then have i: "i < n" by simp
  then have "take 4 (drop (4 * i) (replicate (4 * n) (Some 0) @ r)) = replicate 4 (Some (0 :: 8 word))"
    by (simp add: min_def flip: replicate_add)
  moreover have "load32 (replicate 4 0) 0 = 0" by code_simp
  ultimately show "words (replicate (4 * n) (Some 0) @ r) n ! i = replicate n 0 ! i" using i by (simp add: words_def)
qed simp

lemma mem_block_set: "mem_at h \<noteq> NullMem \<or> blk = [] \<Longrightarrow> mem_block (set_block blk h) = blk"
  by (auto simp: mem_block_def set_block_def split: mem_ptr.splits)

lemma mem_reset:
  assumes "mem_inv h"
  shows "memory.does bitset_reset h () {}"
proof -
  let ?n = "bitSetUnits h" and ?blk = "mem_block h"
  let ?b = "replicate (4 * ?n) (Some 0) @ drop (4 * ?n) ?blk"
  let ?h = "set_block ?b h"
  have r: "bitset_reset h = (Inr (), ?h)" using assms by (simp add: bitset_reset_def store_block_def mem_inv_def)
  have b: "mem_block ?h = ?b" using assms by (intro mem_block_set) (auto simp: mem_inv_def mem_block_def split: mem_ptr.splits)
  have e: "bitSetUnits ?h = ?n" "fixedMemory ?h = fixedMemory h" "mem_at ?h = mem_at h"
      "curLen (membuf ?h) = curLen (membuf h)" "ownBuffer (membuf ?h) = ownBuffer (membuf h)" "swapEndian (membuf ?h) = swapEndian (membuf h)"
    by (auto simp: set_block_def split: mem_ptr.splits)
  have "length ?b = length ?blk" using assms by (simp add: mem_inv_def)
  then have "mb_inv (membuf h) \<Longrightarrow> mb_inv (membuf ?h)"
    by (auto simp: mb_inv_def set_block_def mem_block_def split: mem_ptr.splits)
  then have "mem_inv ?h" using assms b e by (auto simp: mem_inv_def split: if_splits)
  moreover have "memory.S ?h = {}" using b e by (simp add: memory.S_def mem_items_def words_zero bits_of_empty)
  ultimately show ?thesis using r e by (simp add: memory.does_def mem_limit_def)
qed

interpretation bitset: bit_set memory_helper mem_inv mem_items mem_limit bitset_reset
  by unfold_locales (rule mem_reset)

text \<open>The sets that the constructors make are empty.\<close>

lemma new_empty: "mem_inv CBitSetMemoryHelper_new" "memory.S CBitSetMemoryHelper_new = {}" "mem_limit CBitSetMemoryHelper_new = 2 ^ 27"
  by (simp_all add: CBitSetMemoryHelper_new_def mem_inv_def mem_block_def mb_inv_def mb_init_def memory.S_def mem_items_def
      words_def bits_of_def mem_limit_def)

lemma memory_requirement: "n < 2 ^ 32 \<Longrightarrow> \<exists>u \<le> 2 ^ 27. getBitSetMemoryRequirement n = 4 * u"
proof -
  have "u32 (n + (BitsPerItem - 1)) < 2 ^ 32" by (simp add: u32_def)
  then have "u32 (n + (BitsPerItem - 1)) div BitsPerItem \<le> 2 ^ 27" by simp
  then show ?thesis by (intro exI [of _ "u32 (n + (BitsPerItem - 1)) div BitsPerItem"]) (simp add: getBitSetMemoryRequirement_def)
qed

lemma sized_empty:
  assumes "n < 2 ^ 32"
  shows "\<exists>h. CBitSet_sized n = (Inr (), h) \<and> mem_inv h \<and> memory.S h = {} \<and> mem_limit h = 2 ^ 27"
proof -
  obtain u where u: "u \<le> 2 ^ 27" "getBitSetMemoryRequirement n = 4 * u" using memory_requirement [OF assms] by blast
  let ?z = "replicate (4 * u) (Some 0)"
  have "mb_inv mb_init" "mb_room mb_init (length ?z)" using u by (auto simp: mb_inv_def mb_init_def mb_room_def)
  then obtain mb where mb: "appendBytes 0 (4 * u) mb_init = (Inr (), mb)" "appended mb_init ?z mb"
    using write_end_spec [of mb_init ?z] by (cases "u = 0") (auto simp: appendBytes_def op_return_def appended_def)
  have cur: "curLen mb = 4 * u" using appended_curLen [OF _ mb(2)] by (simp add: mb_inv_def mb_init_def)
  have "take (4 * u) (buffer mb) = ?z" using mb(2) cur by (simp add: appended_def mb_bytes_def mb_init_def)
  then obtain r where b: "buffer mb = ?z @ r" by (metis append_take_drop_id)
  let ?h = "CBitSetMemoryHelper_new\<lparr>membuf := mb, mem_at := MbMem, bitSetUnits := u\<rparr>"
  have "CBitSet_sized n = (Inr (), ?h)" using u mb(1) by (simp add: CBitSet_sized_def)
  moreover have "mem_inv ?h"
    using mb(2) cur b u by (auto simp: mem_inv_def mem_block_def CBitSetMemoryHelper_new_def appended_def mb_init_def)
  moreover have "memory.S ?h = {}"
    using b by (simp add: memory.S_def mem_items_def mem_block_def words_zero bits_of_empty)
  ultimately show ?thesis by (simp add: mem_limit_def CBitSetMemoryHelper_new_def)
qed

lemma extern_empty:
  assumes "length blk \<le> 2 ^ 29"
  shows "mem_inv (CBitSet_extern blk True)" "memory.S (CBitSet_extern blk True) = {}" "mem_limit (CBitSet_extern blk True) = length blk div 4"
proof -
  let ?n = "length blk div 4"
  have m: "?n * 4 = 4 * ?n" by (rule mult.commute)
  have n: "4 * ?n \<le> length blk" "?n \<le> 2 ^ 27" using div_le_mono [OF assms, of 4] by simp_all
  show "mem_inv (CBitSet_extern blk True)"
    unfolding CBitSet_extern_def Let_def m using n by (simp add: mem_inv_def mem_block_def CBitSetMemoryHelper_new_def)
  show "memory.S (CBitSet_extern blk True) = {}"
    unfolding CBitSet_extern_def Let_def m by (simp add: memory.S_def mem_items_def mem_block_def words_zero bits_of_empty)
  show "mem_limit (CBitSet_extern blk True) = ?n" by (simp add: mem_limit_def CBitSet_extern_def Let_def)
qed

section \<open>Theorems\<close>

text \<open>
  C3. A set over memory, empty and growing, made for a number of bits, or over memory of the client that
  it clears, behaves as a set of numbers: in any sequence of setting, inverting and testing bits,
  searching for a bit, including and excluding ranges and resetting, every result is that of the
  operation on a set, and so is every test afterwards. No operation fails while the numbers fit the memory.
\<close>

theorem CBitSet_refines:
  assumes "h = CBitSetMemoryHelper_new \<and> lim = 2 ^ 27 \<or> (\<exists>n < 2 ^ 32. CBitSet_sized n = (Inr (), h)) \<and> lim = 2 ^ 27 \<or>
      (\<exists>blk. length blk \<le> 2 ^ 29 \<and> h = CBitSet_extern blk True \<and> lim = length blk div 4)"
    and "bcmds_ok lim {} cs"
  shows "\<exists>h'. run_bcmds memory_helper bitset_reset cs h = (Inr (fst (abs_bcmds cs {})), h') \<and>
    (\<forall>n. bs_test memory_helper n h' = (Inr (n \<in> snd (abs_bcmds cs {})), h'))"
proof (rule bitset.refines)
  have "mem_inv h \<and> memory.S h = {} \<and> mem_limit h = lim" using assms(1) new_empty sized_empty extern_empty by fastforce
  then show "mem_inv h" "memory.S h = {}" "bcmds_ok (mem_limit h) {} cs" using assms(2) by simp_all
qed

theorem CBitSet_refines_witness:
  "\<exists>h'. run_bcmds memory_helper bitset_reset [CIncl 3 40, CTestSet 5 False, CScan 4 False] (CBitSet_extern (replicate 8 None) True) =
     (Inr [ODone, OBool True, ONat 5], h') \<and> bs_test memory_helper 40 h' = (Inr True, h')"
proof -
  have s: "abs_scan False 4 ({3..40} - {5}) = 5"
    by (rule abs_scan_found [where hi = 6]) (auto simp: found_def)
  let ?cs = "[CIncl 3 40, CTestSet 5 False, CScan 4 False]" and ?h = "CBitSet_extern (replicate 8 None) True"
  have "\<exists>h'. run_bcmds memory_helper bitset_reset ?cs ?h = (Inr (fst (abs_bcmds ?cs {})), h') \<and>
      (\<forall>n. bs_test memory_helper n h' = (Inr (n \<in> snd (abs_bcmds ?cs {})), h'))"
  proof (rule CBitSet_refines [where lim = 2])
    have "length (replicate 8 None :: block) \<le> 2 ^ 29 \<and> ?h = ?h \<and> 2 = length (replicate 8 None :: block) div 4" by simp
    then show "?h = CBitSetMemoryHelper_new \<and> 2 = 2 ^ 27 \<or> (\<exists>n < 2 ^ 32. CBitSet_sized n = (Inr (), ?h)) \<and> 2 = 2 ^ 27 \<or>
        (\<exists>blk. length blk \<le> 2 ^ 29 \<and> ?h = CBitSet_extern blk True \<and> 2 = length blk div 4)" by blast
    show "bcmds_ok 2 {} ?cs" by (auto intro: exI [of _ 41])
  qed
  moreover have "abs_bcmds ?cs {} = ([ODone, OBool True, ONat 5], {3..40} - {5})" using s by simp
  ultimately show ?thesis by auto
qed

text \<open>
  C12. The thread-safe set behaves as a set of numbers in the same way, for all numbers of 32 bits.
\<close>

theorem CBitSetThreadSafe_refines:
  assumes "bcmds_ok (2 ^ 27) {} cs"
  shows "\<exists>h'. run_bcmds array_helper threadsafe_reset cs CBitSetThreadSafe_new = (Inr (fst (abs_bcmds cs {})), h') \<and>
    (\<forall>n. bs_test array_helper n h' = (Inr (n \<in> snd (abs_bcmds cs {})), h'))"
  using threadsafe.refines [of CBitSetThreadSafe_new cs] assms
  by (simp add: CBitSetThreadSafe_new_def array.S_def bits_of_def array_inv_def array_limit_def)

theorem CBitSetThreadSafe_refines_witness:
  "\<exists>h'. run_bcmds array_helper threadsafe_reset [CSet 4294967295 True, CInvert 7, CScanInvert 8 True] CBitSetThreadSafe_new =
     (Inr [ODone, OBool True, ONat 4294967295], h') \<and> bs_test array_helper 4294967295 h' = (Inr False, h')"
proof -
  have s: "abs_scan True 8 {7, 4294967295} = 4294967295"
    by (rule abs_scan_found [where hi = 4294967296]) (auto simp: found_def)
  let ?cs = "[CSet 4294967295 True, CInvert 7, CScanInvert 8 True]"
  have "bcmds_ok (2 ^ 27) {} ?cs" by simp
  moreover have "abs_bcmds ?cs {} = ([ODone, OBool True, ONat 4294967295], {7})"
    using s by (auto simp: toggle_def)
  ultimately show ?thesis using CBitSetThreadSafe_refines [of ?cs] by auto
qed

definition enc_items :: "bool \<Rightarrow> bits_t list \<Rightarrow> bytes" where
  "enc_items b xs = concat (map (\<lambda>x. endian b (var32 x)) xs)"

lemma appends_items: "appends (append_items xs) b (enc_items b xs)"
  by (induction xs) (auto simp: enc_items_def intro: appends_return appends_bind unsigned.puts)

lemma reads_items: "reads (read_items (length xs) acc) b (enc_items b xs) (acc @ xs)"
proof (induction xs arbitrary: acc)
  case Nil
  then show ?case by (simp add: enc_items_def reads_return)
next
  case (Cons x xs)
  from reads_bind [of _ _ _ _ "\<lambda>x. read_items (length xs) (acc @ [x])", OF unsigned.gets Cons [of "acc @ [x]"]]
  show ?case by (simp add: enc_items_def)
qed

interpretation threadsafe_codec: codec threadsafe_serialize threadsafe_deserialize
  "\<lambda>b h. endian b (var32 (of_nat (length (bits h)))) @ enc_items b (bits h)" "\<lambda>h. length (bits h) < 2 ^ 32"
proof
  fix h :: CBitSetArrayHelper and b
  assume h: "length (bits h) < 2 ^ 32"
  let ?n = "of_nat (length (bits h)) :: 32 word"
  show "appends (threadsafe_serialize h) b (endian b (var32 ?n) @ enc_items b (bits h))"
    unfolding threadsafe_serialize_def by (intro appends_bind unsigned.puts appends_items) simp
  let ?g = "\<lambda>cnt :: 32 word. op_bind (if cnt \<noteq> 0 then read_items (unat cnt) [] else op_return []) (\<lambda>bs. op_return \<lparr>bits = bs\<rparr>)"
  have n: "unat ?n = length (bits h)" "?n = 0 \<longleftrightarrow> bits h = []"
    using unat_of_nat32 [OF h] by (auto simp: unat_eq_0 [symmetric])
  have "reads (if ?n \<noteq> 0 then read_items (unat ?n) [] else op_return []) b (enc_items b (bits h)) (bits h)"
    using reads_items [of "bits h" "[]" b] reads_return [of "[] :: bits_t list" b] n by (auto simp: enc_items_def)
  from reads_wrap [OF this, of "\<lambda>bs. \<lparr>bits = bs\<rparr>"]
  have "reads (?g ?n) b (enc_items b (bits h)) \<lparr>bits = bits h\<rparr>" .
  moreover have "\<lparr>bits = bits h\<rparr> = h" by simp
  ultimately have "reads (?g ?n) b (enc_items b (bits h)) h" by (simp only:)
  from reads_bind [of _ _ _ _ ?g, OF unsigned.gets this]
  show "reads threadsafe_deserialize b (endian b (var32 ?n) @ enc_items b (bits h)) h"
    by (simp add: threadsafe_deserialize_def)
qed

lemma length_enc_items [simp]: "length (enc_items b xs) = 4 * length xs"
  by (induction xs) (auto simp: enc_items_def)

text \<open>
  A thread-safe set that is serialised to a buffer, in either byte order, and deserialised from where it was
  written is the same set, and the buffer has been read to its end.
\<close>

lemma CBitSetThreadSafe_roundtrip:
  assumes "mb_inv mb" "ownBuffer mb" "curLen mb + 4 + 4 * length (bits h) < 0xffff0000"
  shows "\<exists>mb'. threadsafe_serialize h mb = (Inr (), mb') \<and>
    op_bind (mb_reset (curLen mb)) (\<lambda>_. threadsafe_deserialize) mb' = (Inr h, mb'\<lparr>readPos := curLen mb'\<rparr>)"
proof -
  let ?xs = "endian (swapEndian mb) (var32 (of_nat (length (bits h)))) @ enc_items (swapEndian mb) (bits h)"
  have "mb_room mb (length ?xs)" using assms(2,3) by (simp add: mb_room_def)
  moreover have "length (bits h) < 2 ^ 32" using assms(3) by simp
  ultimately show ?thesis
    using threadsafe_codec.roundtrip [OF _ assms(1), of h] by (auto simp: mb_reset_def)
qed

text \<open>
  C35. Deserialising the other class reads nothing but the number of bits: whatever the buffer holds after it, a test of
  any of the bits reads memory that was never written.
\<close>

theorem CBitSet_deserialize_unwritten:
  assumes "read_unsigned mb = (Inr cnt, mb')" "n < 32 * (unat cnt div 32)"
  shows "\<exists>h. bitset_deserialize mb = (Inr h, mb') \<and> bs_test memory_helper n h = (Inl Undefined, h)"
proof -
  let ?k = "unat cnt div 32"
  have "unat cnt < 2 ^ 32" using unsigned_less [of cnt] by simp
  then have k: "0 < ?k" "?k < 2 ^ 27" using assms(2) by (auto intro: gr0I)
  then have cnt: "cnt \<noteq> 0" by auto
  let ?mb = "mb_init\<lparr>buffer := replicate (4 * ?k) None, curLen := 4 * ?k, maxLen := 4 * ?k\<rparr>"
  have "u32 (?k * 4) = 4 * ?k" using k(2) by simp
  moreover have "reserveTruncate (4 * ?k) mb_init = (Inr 0, ?mb)"
    using k by (simp add: reserveTruncate_def check_ok mb_init_def mb_reallocExact_def mb_truncate_def realloc_def op_bind_def
        op_res_def mb_modify_def)
  ultimately have "bitset_deserialize mb = (Inr (CBitSetMemoryHelper_new\<lparr>bitSetUnits := ?k, membuf := ?mb, mem_at := MbMem\<rparr>), mb')"
    using assms(1) cnt by (simp add: bitset_deserialize_def op_bind_def Let_def op_return_def)
  moreover have "n div 32 < ?k" using assms(2) by (simp add: less_mult_imp_div_less mult.commute)
  then have "load_bytes (replicate (4 * ?k) None) (4 * (n div 32)) 4 = Inl Undefined"
    by (simp add: load_bytes_def)
  ultimately show ?thesis
    using \<open>n div 32 < ?k\<close> by (simp add: bs_test_def memory_helper_def memory_getBits_def mem_block_def op_bind_def)
qed

theorem CBitSet_deserialize_unwritten_witness:
  "\<exists>mb' h. bitset_deserialize \<lparr>buffer = map Some [32, 0, 0, 0, 255, 255, 255, 255], curLen = 8, maxLen = 8, readPos = 0, swapEndian = False, ownBuffer = True\<rparr>
     = (Inr h, mb') \<and> bs_test memory_helper 7 h = (Inl Undefined, h)"
proof -
  let ?mb = "\<lparr>buffer = map Some [32, 0, 0, 0, 255, 255, 255, 255], curLen = 8, maxLen = 8, readPos = 0, swapEndian = False, ownBuffer = True\<rparr>"
  have "read_unsigned ?mb = (Inr 32, ?mb\<lparr>readPos := 4\<rparr>)" by code_simp
  from CBitSet_deserialize_unwritten [OF this, of 7] show ?thesis by auto
qed

text \<open>The range of all bits is empty when it is included in an empty set.\<close>

lemma include_all_nothing: "bs_include array_helper 0 (2 ^ 32 - 1) CBitSetThreadSafe_new = (Inr (), CBitSetThreadSafe_new)"
  by (simp add: bs_include_def bs_incl_def u32_def array_helper_def CBitSetThreadSafe_new_def op_return_def)

end
