(* ===== verification/Rtlqstr.thy ===== *)
theory Rtlqstr
  imports Jbuff Rtlbcd
begin

text \<open>
  Strings of six-bit characters (rtl/eclrtl/rtlqstr.cpp): four characters in three bytes, the first in
  the most significant bits. Their conversion from and to text, comparison, trimming, incrementing, and
  the ranges of keys that a comparison selects.

  Memory that is read is a list of bytes; memory that is written is a \<open>block\<close>, so that \<^verbatim>\<open>malloc\<close> gives
  unwritten bytes. Lengths are natural numbers below \<open>2 ^ 32\<close>.
\<close>

section \<open>Sizes and characters\<close>

definition QStrLength :: "nat \<Rightarrow> nat" where
  "QStrLength sz = u32 (sz * 4) div 3"

definition QStrSize :: "nat \<Rightarrow> nat" where
  "QStrSize len = u32 ((len + 1) * 3) div 4"

definition lastQStrByteMask :: "nat \<Rightarrow> 8 word" where
  "lastQStrByteMask tlen =
     (if tlen mod 4 = 1 then 0xfc else if tlen mod 4 = 2 then 0xf0 else if tlen mod 4 = 3 then 0xc0 else 0xff)"

definition expandQChar :: "8 word \<Rightarrow> 8 word" where
  "expandQChar c = 0x20 + c"

definition compressXlat :: "8 word list" where
  "compressXlat =
    [0x00, 0x00, 0x00, 0x00, 0x00, 0x00, 0x00, 0x00,  0x00, 0x00, 0x00, 0x00, 0x00, 0x00, 0x00, 0x00,
     0x00, 0x00, 0x00, 0x00, 0x00, 0x00, 0x00, 0x00,  0x00, 0x00, 0x00, 0x00, 0x00, 0x00, 0x00, 0x00,
     0x00, 0x01, 0x02, 0x03, 0x04, 0x05, 0x06, 0x07,  0x08, 0x09, 0x0a, 0x0b, 0x0c, 0x0d, 0x0e, 0x0f,
     0x10, 0x11, 0x12, 0x13, 0x14, 0x15, 0x16, 0x17,  0x18, 0x19, 0x1a, 0x1b, 0x1c, 0x1d, 0x1e, 0x1f,
     0x20, 0x21, 0x22, 0x23, 0x24, 0x25, 0x26, 0x27,  0x28, 0x29, 0x2a, 0x2b, 0x2c, 0x2d, 0x2e, 0x2f,
     0x30, 0x31, 0x32, 0x33, 0x34, 0x35, 0x36, 0x37,  0x38, 0x39, 0x3a, 0x3b, 0x3c, 0x3d, 0x3e, 0x3f,
     0x00, 0x21, 0x22, 0x23, 0x24, 0x25, 0x26, 0x27,  0x28, 0x29, 0x2a, 0x2b, 0x2c, 0x2d, 0x2e, 0x2f,
     0x30, 0x31, 0x32, 0x33, 0x34, 0x35, 0x36, 0x37,  0x38, 0x39, 0x3a, 0x00, 0x00, 0x00, 0x00, 0x00] @
    replicate 128 0x00"

definition compressQChar :: "8 word \<Rightarrow> 8 word" where
  "compressQChar c = compressXlat ! unat c"

text \<open>The other definition, which the preprocessor leaves out.\<close>

definition compressQChar_else :: "8 word \<Rightarrow> 8 word" where
  "compressQChar_else c =
     (if c > 0x20 then
        if c < 0x60 then c - 0x20
        else if c \<ge> 0x61 \<and> c \<le> 0x7a then c - 0x40
        else 0
      else 0)"

definition peek :: "bytes \<Rightarrow> nat \<Rightarrow> 8 word res" where
  "peek src i = rd src (int i)"

definition poke :: "block \<Rightarrow> nat \<Rightarrow> 8 word \<Rightarrow> block res" where
  "poke tgt i v = store_block tgt i [Some v]"

definition malloc :: "nat \<Rightarrow> block" where
  "malloc n = replicate n None"

definition memset :: "block \<Rightarrow> nat \<Rightarrow> 8 word \<Rightarrow> nat \<Rightarrow> block res" where
  "memset tgt i v n = store_block tgt i (replicate n (Some v))"

definition copy_mem :: "block \<Rightarrow> nat \<Rightarrow> bytes \<Rightarrow> nat \<Rightarrow> block res" where
  "copy_mem tgt i src n = (if length src < n then Inl OutOfRange else store_block tgt i (map Some (take n src)))"

section \<open>Characters in place\<close>

definition getQChar :: "bytes \<Rightarrow> nat \<Rightarrow> 8 word res" where
  "getQChar buf index =
     (let offset = u32 (index * 3) div 4
      in if index mod 4 = 0 then res_bind (peek buf offset) (\<lambda>b. Inr (drop_bit 2 b))
         else if index mod 4 = 1 then
           res_bind (peek buf offset) (\<lambda>b. res_bind (peek buf (offset + 1)) (\<lambda>c. Inr (push_bit 4 (b AND 0x3) OR drop_bit 4 c)))
         else if index mod 4 = 2 then
           res_bind (peek buf offset) (\<lambda>b. res_bind (peek buf (offset + 1)) (\<lambda>c. Inr (push_bit 2 (b AND 0xf) OR drop_bit 6 c)))
         else res_bind (peek buf offset) (\<lambda>b. Inr (b AND 0x3f)))"

definition setQChar :: "bytes \<Rightarrow> nat \<Rightarrow> 8 word \<Rightarrow> bytes res" where
  "setQChar buf index v =
     (let offset = u32 (index * 3) div 4
      in res_bind (peek buf offset)
        (\<lambda>cur. if index mod 4 = 0 then wr buf (int offset) ((cur AND 0x03) OR push_bit 2 v)
          else if index mod 4 = 1 then
            res_bind (peek buf (offset + 1)) (\<lambda>c. res_bind (wr buf (int offset + 1) ((c AND 0x0f) OR push_bit 4 (v AND 0x0f)))
              (\<lambda>buf. wr buf (int offset) ((cur AND 0xfc) OR drop_bit 4 v)))
          else if index mod 4 = 2 then
            res_bind (peek buf (offset + 1)) (\<lambda>c. res_bind (wr buf (int offset + 1) ((c AND 0x3f) OR push_bit 6 (v AND 0x03)))
              (\<lambda>buf. wr buf (int offset) ((cur AND 0xf0) OR drop_bit 2 v)))
          else wr buf (int offset) ((cur AND 0xc0) OR v)))"

fun increment_loop :: "bytes \<Rightarrow> nat \<Rightarrow> (bool \<times> bytes) res" where
  "increment_loop buf 0 = Inr (False, buf)"
| "increment_loop buf (Suc i) =
     res_bind (getQChar buf i)
       (\<lambda>c. let nxt = (c + 1) AND 0x3f
         in res_bind (setQChar buf i nxt) (\<lambda>buf. if nxt \<noteq> 0 then Inr (True, buf) else increment_loop buf i))"

definition incrementQString :: "bytes \<Rightarrow> nat \<Rightarrow> (bool \<times> bytes) res" where
  "incrementQString buf sz = increment_loop buf sz"

fun decrement_loop :: "bytes \<Rightarrow> nat \<Rightarrow> (bool \<times> bytes) res" where
  "decrement_loop buf 0 = Inr (False, buf)"
| "decrement_loop buf (Suc i) =
     res_bind (getQChar buf i)
       (\<lambda>c. let nxt = (c - 1) AND 0x3f
         in res_bind (setQChar buf i nxt) (\<lambda>buf. if nxt \<noteq> 0x3f then Inr (True, buf) else decrement_loop buf i))"

definition decrementQString :: "bytes \<Rightarrow> nat \<Rightarrow> (bool \<times> bytes) res" where
  "decrementQString buf sz = decrement_loop buf sz"

section \<open>Reader and builder\<close>

record QStrReader =
  rbuffer :: bytes
  rcur :: nat
  roffset :: nat

definition QStrReader_new :: "bytes \<Rightarrow> QStrReader" where
  "QStrReader_new buf = \<lparr>rbuffer = buf, rcur = 0, roffset = 0\<rparr>"

definition curQChar :: "QStrReader \<Rightarrow> 8 word res" where
  "curQChar r =
     (if rcur r mod 4 = 0 then res_bind (peek (rbuffer r) (roffset r)) (\<lambda>b. Inr (drop_bit 2 b))
      else if rcur r mod 4 = 1 then
        res_bind (peek (rbuffer r) (roffset r)) (\<lambda>b. res_bind (peek (rbuffer r) (roffset r + 1)) (\<lambda>c. Inr (push_bit 4 (b AND 0x3) OR drop_bit 4 c)))
      else if rcur r mod 4 = 2 then
        res_bind (peek (rbuffer r) (roffset r)) (\<lambda>b. res_bind (peek (rbuffer r) (roffset r + 1)) (\<lambda>c. Inr (push_bit 2 (b AND 0xf) OR drop_bit 6 c)))
      else res_bind (peek (rbuffer r) (roffset r)) (\<lambda>b. Inr (b AND 0x3f)))"

definition nextQChar :: "QStrReader \<Rightarrow> (8 word \<times> QStrReader) res" where
  "nextQChar r =
     res_bind (curQChar r)
       (\<lambda>c. Inr (c, r\<lparr>roffset := (if rcur r mod 4 \<noteq> 0 then u32 (roffset r + 1) else roffset r), rcur := u32 (rcur r + 1)\<rparr>))"

definition prevQChar :: "QStrReader \<Rightarrow> (8 word \<times> QStrReader) res" where
  "prevQChar r =
     (let r = r\<lparr>rcur := u32 (rcur r + 2 ^ 32 - 1)\<rparr>;
          r = (if rcur r mod 4 \<noteq> 0 then r\<lparr>roffset := u32 (roffset r + 2 ^ 32 - 1)\<rparr> else r)
      in res_bind (curQChar r) (\<lambda>c. Inr (c, r)))"

definition nextChar :: "QStrReader \<Rightarrow> (8 word \<times> QStrReader) res" where
  "nextChar r = res_bind (nextQChar r) (\<lambda>(c, r). Inr (expandQChar c, r))"

definition reader_seek :: "nat \<Rightarrow> QStrReader \<Rightarrow> QStrReader" where
  "reader_seek p r = r\<lparr>rcur := p, roffset := u32 (p * 3) div 4\<rparr>"

record QStrBuilder =
  bbuffer :: block
  bpos :: nat
  blen :: nat
  pending :: "8 word"

definition QStrBuilder_new :: "block \<Rightarrow> QStrBuilder" where
  "QStrBuilder_new buf = \<lparr>bbuffer = buf, bpos = 0, blen = 0, pending = 0\<rparr>"

definition put_byte :: "8 word \<Rightarrow> 8 word \<Rightarrow> QStrBuilder \<Rightarrow> QStrBuilder res" where
  "put_byte v rest b = res_bind (poke (bbuffer b) (bpos b) v) (\<lambda>buf. Inr (b\<lparr>bbuffer := buf, bpos := bpos b + 1, pending := rest\<rparr>))"

definition appendQChar :: "8 word \<Rightarrow> QStrBuilder \<Rightarrow> QStrBuilder res" where
  "appendQChar c b =
     res_bind
       (if blen b mod 4 = 0 then Inr (b\<lparr>pending := push_bit 2 c\<rparr>)
        else if blen b mod 4 = 1 then put_byte (pending b OR drop_bit 4 c) (push_bit 4 c) b
        else if blen b mod 4 = 2 then put_byte (pending b OR drop_bit 2 c) (push_bit 6 c) b
        else put_byte (pending b OR c) 0 b)
       (\<lambda>b. Inr (b\<lparr>blen := u32 (blen b + 1)\<rparr>))"

definition appendChar :: "8 word \<Rightarrow> QStrBuilder \<Rightarrow> QStrBuilder res" where
  "appendChar nxt b = appendQChar (compressQChar nxt) b"

primrec appendQCharN :: "nat \<Rightarrow> 8 word \<Rightarrow> QStrBuilder \<Rightarrow> QStrBuilder res" where
  "appendQCharN 0 c b = Inr b"
| "appendQCharN (Suc n) c b = res_bind (appendQChar c b) (appendQCharN n c)"

definition appendCharN :: "nat \<Rightarrow> 8 word \<Rightarrow> QStrBuilder \<Rightarrow> QStrBuilder res" where
  "appendCharN len nxt b = appendQCharN len (compressQChar nxt) b"

primrec appendQStr_loop :: "nat \<Rightarrow> QStrReader \<Rightarrow> QStrBuilder \<Rightarrow> QStrBuilder res" where
  "appendQStr_loop 0 r b = Inr b"
| "appendQStr_loop (Suc n) r b = res_bind (nextQChar r) (\<lambda>(c, r). res_bind (appendQChar c b) (appendQStr_loop n r))"

definition appendQStr :: "nat \<Rightarrow> bytes \<Rightarrow> QStrBuilder \<Rightarrow> QStrBuilder res" where
  "appendQStr len txt b = appendQStr_loop len (QStrReader_new txt) b"

primrec appendStr :: "nat \<Rightarrow> bytes \<Rightarrow> QStrBuilder \<Rightarrow> QStrBuilder res" where
  "appendStr 0 txt b = Inr b"
| "appendStr (Suc n) txt b = res_bind (peek txt 0) (\<lambda>c. res_bind (appendChar c b) (appendStr n (tl txt)))"

definition builder_finish :: "nat \<Rightarrow> 8 word \<Rightarrow> QStrBuilder \<Rightarrow> QStrBuilder res" where
  "builder_finish mx fill b =
     res_bind (appendQCharN (mx - blen b) (fill AND 0x3f) b) (appendQChar (fill AND 0x3f))"

section \<open>Conversion\<close>

function compress_loop :: "bytes \<Rightarrow> nat \<Rightarrow> nat \<Rightarrow> nat \<Rightarrow> block \<Rightarrow> (nat \<times> nat \<times> block) res" where
  "compress_loop src cur e p out =
     (if e - cur \<ge> 4 then
        res_bind (peek src cur) (\<lambda>c0. res_bind (peek src (cur + 1)) (\<lambda>c1.
        res_bind (peek src (cur + 2)) (\<lambda>c2. res_bind (peek src (cur + 3)) (\<lambda>c3.
          let c0 = compressQChar c0; c1 = compressQChar c1; c2 = compressQChar c2; c3 = compressQChar c3
          in res_bind (poke out p (push_bit 2 c0 OR drop_bit 4 c1)) (\<lambda>out.
             res_bind (poke out (p + 1) (push_bit 4 c1 OR drop_bit 2 c2)) (\<lambda>out.
             res_bind (poke out (p + 2) (push_bit 6 c2 OR c3)) (\<lambda>out.
               compress_loop src (cur + 4) e (p + 3) out)))))))
      else Inr (cur, p, out))"
  by pat_completeness auto
termination
  by (relation "measure (\<lambda>(src, cur, e, p, out). e - cur)") auto

declare compress_loop.simps [simp del]

text \<open>The last one to three characters, in the order of the \<^verbatim>\<open>switch\<close> that falls through.\<close>

definition compress_rest :: "bytes \<Rightarrow> nat \<Rightarrow> nat \<Rightarrow> nat \<Rightarrow> block \<Rightarrow> block res" where
  "compress_rest src cur e p out =
     (let n = e - cur
      in res_bind (if n \<ge> 3 then res_bind (peek src (cur + 2)) (\<lambda>c. let c2 = compressQChar c in
             res_bind (poke out (p + 2) (push_bit 6 c2)) (\<lambda>out. Inr (c2, out))) else Inr (0, out)) (\<lambda>(c2, out).
         res_bind (if n \<ge> 2 then res_bind (peek src (cur + 1)) (\<lambda>c. let c1 = compressQChar c in
             res_bind (poke out (p + 1) (push_bit 4 c1 OR drop_bit 2 c2)) (\<lambda>out. Inr (c1, out))) else Inr (0, out)) (\<lambda>(c1, out).
         if n \<ge> 1 then res_bind (peek src cur) (\<lambda>c. poke out p (push_bit 2 (compressQChar c) OR drop_bit 4 c1)) else Inr out)))"

definition rtlStrToQStr :: "nat \<Rightarrow> block \<Rightarrow> nat \<Rightarrow> bytes \<Rightarrow> block res" where
  "rtlStrToQStr outlen out inlen src =
     (let outSize = QStrSize outlen
      in res_bind
        (if inlen \<ge> outlen then Inr (outlen, out)
         else let sz = QStrSize inlen in res_bind (memset out sz 0 (outSize - sz)) (\<lambda>out. Inr (inlen, out)))
        (\<lambda>(inlen, out). res_bind (compress_loop src 0 inlen 0 out) (\<lambda>(cur, p, out). compress_rest src cur inlen p out)))"

definition rtlStrToQStrX :: "nat \<Rightarrow> bytes \<Rightarrow> (nat \<times> block) res" where
  "rtlStrToQStrX inlen src = res_bind (rtlStrToQStr inlen (malloc (QStrSize inlen)) inlen src) (\<lambda>out. Inr (inlen, out))"

definition rtlStrToQStrNX :: "nat \<Rightarrow> bytes \<Rightarrow> nat \<Rightarrow> (nat \<times> block) res" where
  "rtlStrToQStrNX inlen src logicalLength =
     res_bind (rtlStrToQStr logicalLength (malloc (QStrSize logicalLength)) inlen src) (\<lambda>out. Inr (logicalLength, out))"

function expand_loop :: "bytes \<Rightarrow> nat \<Rightarrow> nat \<Rightarrow> nat \<Rightarrow> block \<Rightarrow> (nat \<times> nat \<times> block) res" where
  "expand_loop src cur p e out =
     (if e - p \<ge> 4 then
        res_bind (peek src cur) (\<lambda>c0. res_bind (peek src (cur + 1)) (\<lambda>c1. res_bind (peek src (cur + 2)) (\<lambda>c2.
          res_bind (poke out p (expandQChar (drop_bit 2 c0))) (\<lambda>out.
          res_bind (poke out (p + 1) (expandQChar (push_bit 4 (c0 AND 0x3) OR drop_bit 4 c1))) (\<lambda>out.
          res_bind (poke out (p + 2) (expandQChar (push_bit 2 (c1 AND 0xf) OR drop_bit 6 c2))) (\<lambda>out.
          res_bind (poke out (p + 3) (expandQChar (c2 AND 0x3f))) (\<lambda>out.
            expand_loop src (cur + 3) (p + 4) e out)))))))
      else Inr (cur, p, out))"
  by pat_completeness auto
termination
  by (relation "measure (\<lambda>(src, cur, p, e, out). e - p)") auto

declare expand_loop.simps [simp del]

definition expand_rest :: "bytes \<Rightarrow> nat \<Rightarrow> nat \<Rightarrow> nat \<Rightarrow> block \<Rightarrow> block res" where
  "expand_rest src cur p e out =
     (let n = e - p
      in res_bind (if n \<ge> 3 then res_bind (peek src (cur + 1)) (\<lambda>c1. res_bind (peek src (cur + 2)) (\<lambda>c2.
             poke out (p + 2) (expandQChar (push_bit 2 (c1 AND 0xf) OR drop_bit 6 c2)))) else Inr out) (\<lambda>out.
         res_bind (if n \<ge> 2 then res_bind (peek src cur) (\<lambda>c0. res_bind (peek src (cur + 1)) (\<lambda>c1.
             poke out (p + 1) (expandQChar (push_bit 4 (c0 AND 0x3) OR drop_bit 4 c1)))) else Inr out) (\<lambda>out.
         if n \<ge> 1 then res_bind (peek src cur) (\<lambda>c0. poke out p (expandQChar (drop_bit 2 c0))) else Inr out)))"

definition rtlQStrToStr :: "nat \<Rightarrow> block \<Rightarrow> nat \<Rightarrow> bytes \<Rightarrow> block res" where
  "rtlQStrToStr outlen out inlen src =
     res_bind
       (if inlen < outlen then res_bind (memset out inlen 0x20 (outlen - inlen)) (\<lambda>out. Inr (inlen, out)) else Inr (outlen, out))
       (\<lambda>(outlen, out). res_bind (expand_loop src 0 0 outlen out) (\<lambda>(cur, p, out). expand_rest src cur p outlen out))"

definition rtlQStrToData :: "nat \<Rightarrow> block \<Rightarrow> nat \<Rightarrow> bytes \<Rightarrow> block res" where
  "rtlQStrToData outlen out inlen src =
     res_bind
       (if inlen \<ge> outlen then Inr (outlen, out) else res_bind (memset out inlen 0 (outlen - inlen)) (\<lambda>out. Inr (inlen, out)))
       (\<lambda>(inlen, out). rtlQStrToStr inlen out inlen src)"

definition rtlQStrToDataX :: "nat \<Rightarrow> bytes \<Rightarrow> (nat \<times> block) res" where
  "rtlQStrToDataX inlen src = res_bind (rtlQStrToStr inlen (malloc inlen) inlen src) (\<lambda>out. Inr (inlen, out))"

definition rtlQStrToVStr :: "nat \<Rightarrow> block \<Rightarrow> nat \<Rightarrow> bytes \<Rightarrow> block res" where
  "rtlQStrToVStr outlen out inlen src =
     (let outlen = u32 (outlen + 2 ^ 32 - 1)
      in res_bind (poke out outlen 0) (\<lambda>out.
         res_bind
           (if inlen \<ge> outlen then Inr (outlen, out) else res_bind (memset out inlen 0 (outlen - inlen)) (\<lambda>out. Inr (inlen, out)))
           (\<lambda>(inlen, out). rtlQStrToStr inlen out inlen src)))"

definition rtlQStrToStrX :: "nat \<Rightarrow> bytes \<Rightarrow> (nat \<times> block) res" where
  "rtlQStrToStrX inlen src = res_bind (rtlQStrToStr inlen (malloc inlen) inlen src) (\<lambda>out. Inr (inlen, out))"

definition rtlQStrToQStr :: "nat \<Rightarrow> block \<Rightarrow> nat \<Rightarrow> bytes \<Rightarrow> block res" where
  "rtlQStrToQStr outlen out inlen src =
     (let inSize = QStrSize inlen; outSize = QStrSize outlen
      in if inSize \<ge> outSize then copy_mem out 0 src outSize
         else res_bind (copy_mem out 0 src inSize) (\<lambda>out. memset out inSize 0 (outSize - inSize)))"

definition rtlQStrToQStrX :: "nat \<Rightarrow> bytes \<Rightarrow> (nat \<times> block) res" where
  "rtlQStrToQStrX inlen src =
     (let inSize = QStrSize inlen in res_bind (copy_mem (malloc inSize) 0 src inSize) (\<lambda>data. Inr (inlen, data)))"

definition copyQStrRange :: "nat \<Rightarrow> block \<Rightarrow> bytes \<Rightarrow> nat \<Rightarrow> nat \<Rightarrow> block res" where
  "copyQStrRange tlen tgt src from_pos to_pos =
     (let copylen = u32 (to_pos + 2 ^ 32 - from_pos)
      in if from_pos mod 4 = 0 then
           res_bind (rtlQStrToQStr tlen tgt copylen (drop (QStrSize from_pos) src)) (\<lambda>tgt.
             if copylen mod 4 \<noteq> 0 then
               let copysize = QStrSize copylen
               in res_bind (load_bytes tgt (copysize - 1) 1) (\<lambda>xs. poke tgt (copysize - 1) (hd xs AND lastQStrByteMask copylen))
             else Inr tgt)
         else if copylen = 0 then memset tgt 0 0 (QStrSize tlen)
         else res_bind (rtlQStrToStrX (u32 (from_pos + copylen)) src) (\<lambda>(tempLen, temp).
              res_bind (load_bytes temp 0 tempLen) (\<lambda>xs. rtlStrToQStr tlen tgt copylen (drop from_pos xs))))"

definition rtlQStrLength :: "nat \<Rightarrow> nat" where "rtlQStrLength sz = QStrLength sz"

definition rtlQStrSize :: "nat \<Rightarrow> nat" where "rtlQStrSize len = QStrSize len"

section \<open>Substrings\<close>

text \<open>From and to count from one (rtl/eclrtl/eclrtl.cpp). \<open>s32\<close> is the cast of an \<^verbatim>\<open>unsigned\<close> to \<^verbatim>\<open>int\<close>.\<close>

definition s32 :: "nat \<Rightarrow> int" where
  "s32 x = (if x < 2 ^ 31 then int x else int x - 2 ^ 32)"

definition normalizeFrom :: "nat \<Rightarrow> nat \<Rightarrow> nat" where
  "normalizeFrom from_pos slen =
     (let from_pos = u32 (from_pos + 2 ^ 32 - 1)
      in if s32 from_pos < 0 then 0 else if from_pos > slen then slen else from_pos)"

definition normalizeFromTo :: "nat \<Rightarrow> nat \<Rightarrow> nat \<times> nat" where
  "normalizeFromTo from_pos to_pos =
     (let from_pos = u32 (from_pos + 2 ^ 32 - 1);
          from_pos = (if s32 from_pos < 0 then 0 else from_pos);
          to_pos = (if s32 to_pos < s32 from_pos then from_pos else to_pos)
      in (from_pos, to_pos))"

definition clipFromTo :: "nat \<Rightarrow> nat \<Rightarrow> nat \<Rightarrow> nat \<times> nat" where
  "clipFromTo from_pos to_pos slen =
     (if to_pos > slen then (if from_pos > slen then slen else from_pos, slen) else (from_pos, to_pos))"

definition rtlSubQStrFTX :: "nat \<Rightarrow> bytes \<Rightarrow> nat \<Rightarrow> nat \<Rightarrow> (nat \<times> block) res" where
  "rtlSubQStrFTX slen src from_pos to_pos =
     (let (from_pos, to_pos) = normalizeFromTo from_pos to_pos;
          tlen = u32 (to_pos + 2 ^ 32 - from_pos);
          (from_pos, to_pos) = clipFromTo from_pos to_pos slen
      in res_bind (copyQStrRange tlen (malloc (rtlQStrSize tlen)) src from_pos to_pos) (\<lambda>tgt. Inr (tlen, tgt)))"

definition rtlSubQStrFX :: "nat \<Rightarrow> bytes \<Rightarrow> nat \<Rightarrow> (nat \<times> block) res" where
  "rtlSubQStrFX slen src from_pos =
     (let from_pos = normalizeFrom from_pos slen;
          tlen = u32 (slen + 2 ^ 32 - from_pos)
      in res_bind (copyQStrRange tlen (malloc (rtlQStrSize tlen)) src from_pos slen) (\<lambda>tgt. Inr (tlen, tgt)))"

definition rtlSubQStrFT :: "nat \<Rightarrow> block \<Rightarrow> nat \<Rightarrow> bytes \<Rightarrow> nat \<Rightarrow> nat \<Rightarrow> block res" where
  "rtlSubQStrFT tlen tgt slen src from_pos to_pos =
     (let (from_pos, to_pos) = normalizeFromTo from_pos to_pos;
          (from_pos, to_pos) = clipFromTo from_pos to_pos slen
      in copyQStrRange tlen tgt src from_pos to_pos)"

section \<open>Trimming and comparing\<close>

fun trim_loop :: "nat \<Rightarrow> QStrReader \<Rightarrow> nat res" where
  "trim_loop 0 r = Inr 0"
| "trim_loop (Suc l) r = res_bind (prevQChar r) (\<lambda>(c, r). if c = 0 then trim_loop l r else Inr (Suc l))"

definition rtlTrimQStrLen :: "nat \<Rightarrow> bytes \<Rightarrow> nat res" where
  "rtlTrimQStrLen l t = trim_loop l (reader_seek l (QStrReader_new t))"

fun memcmp :: "bytes \<Rightarrow> bytes \<Rightarrow> int" where
  "memcmp (x # xs) (y # ys) = (if x = y then memcmp xs ys else int (unat x) - int (unat y))"
| "memcmp _ _ = 0"

definition memcmp_iflen :: "bytes \<Rightarrow> bytes \<Rightarrow> nat \<Rightarrow> int res" where
  "memcmp_iflen l r n = (if length l < n \<or> length r < n then Inl OutOfRange else Inr (memcmp (take n l) (take n r)))"

text \<open>Is there a byte other than zero among \<open>k\<close> bytes from \<open>i\<close> on?\<close>

fun nonzero_loop :: "bytes \<Rightarrow> nat \<Rightarrow> nat \<Rightarrow> bool res" where
  "nonzero_loop xs i 0 = Inr False"
| "nonzero_loop xs i (Suc k) = res_bind (peek xs i) (\<lambda>b. if b \<noteq> 0 then Inr True else nonzero_loop xs (i + 1) k)"

definition rtlCompareQStrQStr :: "nat \<Rightarrow> bytes \<Rightarrow> nat \<Rightarrow> bytes \<Rightarrow> int res" where
  "rtlCompareQStrQStr llen left rlen right =
     (let lsize = QStrSize llen; rsize = QStrSize rlen
      in if lsize < rsize then
           res_bind (memcmp_iflen left right lsize) (\<lambda>ret.
             if ret = 0 then res_bind (nonzero_loop right lsize (rsize - lsize)) (\<lambda>nz. Inr (if nz then - 1 else ret)) else Inr ret)
         else
           res_bind (memcmp_iflen left right rsize) (\<lambda>ret.
             if ret = 0 then res_bind (nonzero_loop left rsize (lsize - rsize)) (\<lambda>nz. Inr (if nz then 1 else ret)) else Inr ret))"

text \<open>The first difference of \<open>n\<close> characters, if any, and the readers after it.\<close>

fun diff_loop :: "nat \<Rightarrow> QStrReader \<Rightarrow> QStrReader \<Rightarrow> (int \<times> QStrReader \<times> QStrReader) res" where
  "diff_loop 0 l r = Inr (0, l, r)"
| "diff_loop (Suc n) l r =
     res_bind (nextQChar l) (\<lambda>(a, l). res_bind (nextQChar r) (\<lambda>(b, r).
       let diff = int (unat a) - int (unat b) in if diff \<noteq> 0 then Inr (diff, l, r) else diff_loop n l r))"

fun rest_loop :: "nat \<Rightarrow> QStrReader \<Rightarrow> bool res" where
  "rest_loop 0 r = Inr False"
| "rest_loop (Suc n) r = res_bind (nextQChar r) (\<lambda>(c, r). if c \<noteq> 0 then Inr True else rest_loop n r)"

definition rtlSafeCompareQStrQStr :: "nat \<Rightarrow> bytes \<Rightarrow> nat \<Rightarrow> bytes \<Rightarrow> int res" where
  "rtlSafeCompareQStrQStr llen left rlen right =
     (let len = min llen rlen
      in res_bind (diff_loop len (QStrReader_new left) (QStrReader_new right)) (\<lambda>(diff, l, r).
           if diff \<noteq> 0 then Inr diff
           else if len < llen then res_bind (rest_loop (llen - len) l) (\<lambda>nz. Inr (if nz then 1 else 0))
           else res_bind (rest_loop (rlen - len) r) (\<lambda>nz. Inr (if nz then - 1 else 0))))"

fun bool_loop :: "bytes \<Rightarrow> nat \<Rightarrow> bool res" where
  "bool_loop src 0 = Inr False"
| "bool_loop src (Suc sz) = res_bind (peek src sz) (\<lambda>b. if b \<noteq> 0 then Inr True else bool_loop src sz)"

definition rtlQStrToBool :: "nat \<Rightarrow> bytes \<Rightarrow> bool res" where
  "rtlQStrToBool inlen src = bool_loop src (QStrSize inlen)"

definition rtlDecPushQStr :: "nat \<Rightarrow> bytes \<Rightarrow> unit decop" where
  "rtlDecPushQStr len data =
     op_bind (op_res (res_bind (rtlQStrToStr len (malloc len) len data) (\<lambda>out. load_bytes out 0 len)))
       (\<lambda>strData. DecPushString len (map (\<lambda>b. char_of (unat b)) strData))"

section \<open>Ranges of keys\<close>

definition rtlCreateQStrRange :: "nat \<Rightarrow> nat \<Rightarrow> nat \<Rightarrow> bytes \<Rightarrow> 8 word \<Rightarrow> (nat \<times> block) res" where
  "rtlCreateQStrRange fieldLen compareLen len qstr fill =
     (let compareLen = (if compareLen > fieldLen then if compareLen < 2 ^ 31 then fieldLen else 0 else compareLen);
          (compareLen, fill) = (if len > fieldLen then (0, if fill = 0 then 255 else 0) else (compareLen, fill))
      in res_bind
        (if len \<ge> compareLen then appendQStr compareLen qstr (QStrBuilder_new (malloc (QStrSize fieldLen)))
         else res_bind (appendQStr len qstr (QStrBuilder_new (malloc (QStrSize fieldLen)))) (appendCharN (compareLen - len) 0x20))
        (\<lambda>b. res_bind (builder_finish fieldLen fill b) (\<lambda>b. Inr (fieldLen, bbuffer b))))"

definition rtlCreateQStrRangeLow :: "nat \<Rightarrow> nat \<Rightarrow> nat \<Rightarrow> bytes \<Rightarrow> (nat \<times> block) res" where
  "rtlCreateQStrRangeLow fieldLen compareLen len qstr =
     res_bind (rtlTrimQStrLen len qstr) (\<lambda>len. rtlCreateQStrRange fieldLen compareLen len qstr 0)"

definition rtlCreateQStrRangeHigh :: "nat \<Rightarrow> nat \<Rightarrow> nat \<Rightarrow> bytes \<Rightarrow> (nat \<times> block) res" where
  "rtlCreateQStrRangeHigh fieldLen compareLen len qstr =
     res_bind (rtlTrimQStrLen len qstr) (\<lambda>len. rtlCreateQStrRange fieldLen compareLen len qstr 255)"

section \<open>Serialisation\<close>

definition serializeQStrX :: "nat \<Rightarrow> bytes \<Rightarrow> unit mop" where
  "serializeQStrX len data =
     op_bind (append_unsigned (of_nat len))
       (\<lambda>_. if length data < QStrSize len then op_throw OutOfRange else append_mem (take (QStrSize len) data))"

definition deserializeQStrX :: "(nat \<times> bytes) mop" where
  "deserializeQStrX =
     op_bind (read_mem 4)
       (\<lambda>xs. let len = unat (load32 xs 0) in op_bind (read_mem (QStrSize len)) (\<lambda>data. op_return (len, data)))"

end
