(* ===== verification/Rtlqstr_Proofs.thy ===== *)
theory Rtlqstr_Proofs
  imports Rtlqstr
begin

text \<open>
  What the bytes of a six-bit string mean: \<open>unpack\<close> lists the characters of a run of bytes and \<open>pack\<close> is its
  inverse on characters below 64. The loops of the conversions write \<open>pack\<close> and \<open>unpack\<close> of what they read, and
  characters in place, the reader and the builder read and extend the list of characters.
\<close>

section \<open>Groups of four characters\<close>

definition group_chars :: "8 word \<Rightarrow> 8 word \<Rightarrow> 8 word \<Rightarrow> 8 word list" where
  "group_chars a b c =
     [drop_bit 2 a, push_bit 4 (a AND 0x3) OR drop_bit 4 b, push_bit 2 (b AND 0xf) OR drop_bit 6 c, c AND 0x3f]"

fun unpack :: "bytes \<Rightarrow> 8 word list" where
  "unpack (a # b # c # xs) = group_chars a b c @ unpack xs"
| "unpack [a, b] = group_chars a b 0"
| "unpack [a] = group_chars a 0 0"
| "unpack [] = []"

definition group_bytes :: "8 word \<Rightarrow> 8 word \<Rightarrow> 8 word \<Rightarrow> 8 word \<Rightarrow> bytes" where
  "group_bytes a b c d = [push_bit 2 a OR drop_bit 4 b, push_bit 4 b OR drop_bit 2 c, push_bit 6 c OR d]"

fun pack :: "8 word list \<Rightarrow> bytes" where
  "pack (a # b # c # d # cs) = group_bytes a b c d @ pack cs"
| "pack [a, b, c] = group_bytes a b c 0"
| "pack [a, b] = take 2 (group_bytes a b 0 0)"
| "pack [a] = take 1 (group_bytes a 0 0 0)"
| "pack [] = []"

definition qsize :: "nat \<Rightarrow> nat" where
  "qsize n = 3 * (n + 1) div 4"

lemma QStrSize_eq: "3 * (n + 1) < 2 ^ 32 \<Longrightarrow> QStrSize n = qsize n"
  by (simp add: QStrSize_def u32_def qsize_def mult.commute)

lemma qsize_simps [simp]:
  "qsize 0 = 0" "qsize (Suc 0) = Suc 0" "qsize (Suc (Suc 0)) = Suc (Suc 0)" "qsize (Suc (Suc (Suc 0))) = Suc (Suc (Suc 0))"
  "qsize 2 = 2" "qsize 3 = 3" "qsize (Suc (Suc (Suc (Suc n)))) = Suc (Suc (Suc (qsize n)))"
  by (simp_all add: qsize_def)

lemma qsize_groups: "qsize (4 * q + n) = 3 * q + qsize n"
proof -
  have "3 * (4 * q + n + 1) = 3 * (n + 1) + 4 * (3 * q)" by simp
  then show ?thesis unfolding qsize_def by simp
qed

lemma qsize_mono: "m \<le> n \<Longrightarrow> qsize m \<le> qsize n"
  by (simp add: qsize_def div_le_mono)

lemma length_group [simp]: "length (group_chars a b c) = 4" "length (group_bytes a b c d) = 3"
  by (simp_all add: group_chars_def group_bytes_def)

lemma length_pack [simp]: "length (pack cs) = qsize (length cs)"
  by (induction cs rule: pack.induct) (simp_all add: qsize_def)

lemma length_unpack: "length (unpack xs) = 4 * ((length xs + 2) div 3)"
proof (induction xs rule: unpack.induct)
  case (1 a b c xs)
  have "(length (a # b # c # xs) + 2) div 3 = Suc ((length xs + 2) div 3)" by simp
  with 1 show ?case by simp
qed simp_all

text \<open>Constants as masks, and bytes as eight bits.\<close>

lemma masks:
  "0x3 = (mask 2 :: 8 word)" "0xf = (mask 4 :: 8 word)" "0x3f = (mask 6 :: 8 word)" "0xfc = (NOT (mask 2) :: 8 word)"
  "0xf0 = (NOT (mask 4) :: 8 word)" "0xc0 = (NOT (mask 6) :: 8 word)"
  by (simp_all add: mask_eq_exp_minus_1)

lemma byte_eqI:
  fixes v w :: "8 word"
  assumes "bit v 0 = bit w 0" "bit v 1 = bit w 1" "bit v 2 = bit w 2" "bit v 3 = bit w 3"
    "bit v 4 = bit w 4" "bit v 5 = bit w 5" "bit v 6 = bit w 6" "bit v 7 = bit w 7"
  shows "v = w"
proof (rule bit_word_eqI)
  fix n assume "n < LENGTH(8)"
  then have "n = 0 \<or> n = 1 \<or> n = 2 \<or> n = 3 \<or> n = 4 \<or> n = 5 \<or> n = 6 \<or> n = 7" by auto
  then show "bit v n = bit w n" using assms by (elim disjE) simp_all
qed

lemma byte_bit_high: "8 \<le> n \<Longrightarrow> \<not> bit v n" for v :: "8 word"
  using bit_imp_le_length [of v n] by auto

lemma qsize_length_unpack: "qsize n \<le> length xs \<Longrightarrow> n \<le> length (unpack xs)"
proof -
  have bound: "n \<le> 4 * m" if "3 * (n + 1) < 4 * (k + 1)" "k \<le> 3 * m" for n m k :: nat using that by presburger
  assume "qsize n \<le> length xs"
  then have "3 * (n + 1) < 4 * (length xs + 1)" by (simp add: qsize_def div_less_iff_less_mult flip: less_Suc_eq_le)
  moreover have "length xs \<le> 3 * ((length xs + 2) div 3)" by linarith
  ultimately show ?thesis unfolding length_unpack by (metis bound)
qed

lemma less_64_bit: "v < 64 \<longleftrightarrow> \<not> bit v 6 \<and> \<not> bit v 7" for v :: "8 word"
proof -
  have "v < 64 \<longleftrightarrow> unat v div 2 ^ 6 = 0" by (simp add: word_less_nat_alt div_eq_0_iff)
  also have "\<dots> \<longleftrightarrow> drop_bit 6 v = 0" by (simp only: unat_drop_bit_eq drop_bit_eq_div [of _ "unat v"] flip: unat_eq_0)
  also have "\<dots> \<longleftrightarrow> \<not> bit v 6 \<and> \<not> bit v 7"
  proof
    assume "drop_bit 6 v = 0"
    then have "\<not> bit (drop_bit 6 v) 0" "\<not> bit (drop_bit 6 v) 1" by simp_all
    then show "\<not> bit v 6 \<and> \<not> bit v 7" by (simp add: bit_drop_bit_eq)
  next
    assume "\<not> bit v 6 \<and> \<not> bit v 7"
    then show "drop_bit 6 v = 0" by (intro byte_eqI) (simp_all add: bit_drop_bit_eq byte_bit_high)
  qed
  finally show ?thesis .
qed

lemmas byte_bits = bit_drop_bit_eq bit_push_bit_iff bit_or_iff bit_and_iff bit_mask_iff bit_not_iff byte_bit_high

lemma group_chars_bytes:
  assumes "a < 64" "b < 64" "c < 64" "d < 64"
  shows "group_chars (push_bit 2 a OR drop_bit 4 b) (push_bit 4 b OR drop_bit 2 c) (push_bit 6 c OR d) = [a, b, c, d]"
  using assms unfolding less_64_bit group_chars_def masks
  by (simp, intro conjI byte_eqI) (simp_all add: byte_bits)

lemma group_bytes_chars:
  "group_bytes (drop_bit 2 a) (push_bit 4 (a AND 0x3) OR drop_bit 4 b) (push_bit 2 (b AND 0xf) OR drop_bit 6 c) (c AND 0x3f) = [a, b, c]"
  unfolding group_bytes_def masks
  by (simp, intro conjI byte_eqI) (simp_all add: byte_bits)

lemma group_chars_less: "v \<in> set (group_chars a b c) \<Longrightarrow> v < 64"
  unfolding group_chars_def masks less_64_bit by (auto simp: byte_bits)

lemma unpack_less: "v \<in> set (unpack xs) \<Longrightarrow> v < 64"
  by (induction xs rule: unpack.induct) (auto dest: group_chars_less)

lemma unpack_append: "length us = 3 * q \<Longrightarrow> unpack (us @ xs) = unpack us @ unpack xs"
proof (induction us arbitrary: q rule: unpack.induct)
  case (1 a b c us)
  then show ?case by (cases q) simp_all
next
  case (2 a b)
  then have False by simp presburger
  then show ?case ..
next
  case (3 a)
  then have False by simp
  then show ?case ..
qed simp

lemma pack_append: "length us = 4 * q \<Longrightarrow> pack (us @ cs) = pack us @ pack cs"
proof (induction us arbitrary: q rule: pack.induct)
  case (1 a b c d us)
  then show ?case by (cases q) simp_all
next
  case (2 a b c)
  then have False by simp presburger
  then show ?case ..
next
  case (3 a b)
  then have False by simp presburger
  then show ?case ..
next
  case (4 a)
  then have False by simp
  then show ?case ..
qed simp

lemma unpack_pack:
  assumes "\<forall>c \<in> set cs. c < 64"
  shows "\<exists>k. unpack (pack cs) = cs @ replicate k 0"
  using assms
proof (induction cs rule: pack.induct)
  case (1 a b c d cs)
  then show ?case by (auto simp add: group_bytes_def group_chars_bytes)
next
  case (2 a b c)
  then show ?case using group_chars_bytes [of a b c 0] by (auto simp add: group_bytes_def intro!: exI [of _ 1])
next
  case (3 a b)
  then show ?case using group_chars_bytes [of a b 0 0] by (auto simp add: group_bytes_def intro!: exI [of _ "Suc (Suc 0)"])
next
  case (4 a)
  then show ?case using group_chars_bytes [of a 0 0 0] by (auto simp add: group_bytes_def intro!: exI [of _ "Suc (Suc (Suc 0))"])
qed simp

text \<open>Blanks at the end are bytes of zeros.\<close>

lemma pack_all_0: "\<forall>z \<in> set zs. z = 0 \<Longrightarrow> pack zs = replicate (qsize (length zs)) 0"
  by (induction zs rule: pack.induct) (simp_all add: group_bytes_def)

lemma pack_zeros:
  assumes "\<forall>z \<in> set zs. z = 0"
  shows "pack (cs @ zs) = pack cs @ replicate (qsize (length cs + length zs) - qsize (length cs)) 0"
proof (induction cs rule: pack.induct)
  case (2 a b c)
  show ?case using assms by (cases zs) (simp_all add: pack_all_0 group_bytes_def)
next
  case (3 a b)
  consider "zs = []" | z where "zs = [z]" | y z xs where "zs = y # z # xs" by (metis list.exhaust)
  then show ?case using assms by cases (simp_all add: pack_all_0 group_bytes_def)
next
  case (4 a)
  consider "zs = []" | z where "zs = [z]" | y z where "zs = [y, z]" | x y z xs where "zs = x # y # z # xs"
    by (metis list.exhaust)
  then show ?case using assms by cases (simp_all add: pack_all_0 group_bytes_def)
qed (use assms in \<open>simp_all add: pack_all_0\<close>)

section \<open>Memory\<close>

lemma peek_in: "i < length xs \<Longrightarrow> peek xs i = Inr (xs ! i)"
  by (simp add: peek_def rd_def)

lemma poke_in: "i < length b \<Longrightarrow> poke b i v = Inr (b[i := Some v])"
  by (simp add: poke_def store_block_def upd_conv_take_nth_drop)

lemma store_block_in: "i + length xs \<le> length b \<Longrightarrow> store_block b i xs = Inr (take i b @ xs @ drop (i + length xs) b)"
  by (simp add: store_block_def)

text \<open>Two writes one behind the other are one write.\<close>

lemma store_block_append:
  assumes "i + length xs + length ys \<le> length b"
  shows "store_block (take i b @ xs @ drop (i + length xs) b) (i + length xs) ys = store_block b i (xs @ ys)"
  using assms by (simp add: store_block_in add.assoc add.commute add.left_commute)

lemma drop_run3: "i + 3 \<le> length b \<Longrightarrow> drop i b = b ! i # b ! (i + 1) # b ! (i + 2) # drop (i + 3) b"
  by (simp add: Cons_nth_drop_Suc numeral_3_eq_3)

lemma drop_run4: "i + 4 \<le> length b \<Longrightarrow> drop i b = b ! i # b ! (i + 1) # b ! (i + 2) # b ! (i + 3) # drop (i + 4) b"
  by (simp add: Cons_nth_drop_Suc numeral_3_eq_3 eval_nat_numeral)

lemma list_update_run3:
  assumes "i + 3 \<le> length b"
  shows "b[i := x, i + 1 := y, i + 2 := z] = take i b @ [x, y, z] @ drop (i + 3) b"
proof -
  have "(us @ a # a' # a'' # vs)[length us := x, length us + 1 := y, length us + 2 := z] = us @ [x, y, z] @ vs" for us vs a a' a''
    by (simp add: list_update_append)
  from this [of "take i b" "b ! i" "b ! (i + 1)" "b ! (i + 2)" "drop (i + 3) b"]
  show ?thesis using drop_run3 [OF assms] append_take_drop_id [of i b] assms by simp
qed

lemma list_update_run4:
  assumes "i + 4 \<le> length b"
  shows "b[i := w, i + 1 := x, i + 2 := y, i + 3 := z] = take i b @ [w, x, y, z] @ drop (i + 4) b"
proof -
  have "(us @ a # a' # a'' # d # vs)[length us := w, length us + 1 := x, length us + 2 := y, length us + 3 := z] = us @ [w, x, y, z] @ vs"
    for us vs a a' a'' d by (simp add: list_update_append)
  from this [of "take i b" "b ! i" "b ! (i + 1)" "b ! (i + 2)" "b ! (i + 3)" "drop (i + 4) b"]
  show ?thesis using drop_run4 [OF assms] append_take_drop_id [of i b] assms by simp
qed

lemma list_update_run2: "i + 2 \<le> length b \<Longrightarrow> b[i := x, i + 1 := y] = take i b @ [x, y] @ drop (i + 2) b"
  by (simp add: upd_conv_take_nth_drop take_Suc_conv_app_nth list_update_append)

lemma list_update_rev2: "i + 2 \<le> length b \<Longrightarrow> b[i + 1 := y, i := x] = take i b @ [x, y] @ drop (i + 2) b"
  using list_update_run2 [of i b] list_update_swap [of i "i + 1" b] by simp

lemma list_update_rev3: "i + 3 \<le> length b \<Longrightarrow> b[i + 2 := z, i + 1 := y, i := x] = take i b @ [x, y, z] @ drop (i + 3) b"
  using list_update_run3 [of i b] list_update_swap [of i "i + 1" "b[i + 2 := z]"] list_update_swap [of i "i + 2" b]
    list_update_swap [of "i + 1" "i + 2" "b[i := x]"] by simp

lemma drop_run2: "i + 2 \<le> length b \<Longrightarrow> drop i b = b ! i # b ! (i + 1) # drop (i + 2) b"
  by (simp add: Cons_nth_drop_Suc)

section \<open>Conversion\<close>

text \<open>One turn of the loop writes a group.\<close>

lemma compress_loop_step:
  fixes src cur defines "c \<equiv> \<lambda>k. compressQChar (src ! (cur + k))"
  assumes "4 \<le> e - cur" "e \<le> length src" "p + 3 \<le> length out"
  shows "compress_loop src cur e p out =
    compress_loop src (cur + 4) e (p + 3) (take p out @ map Some (group_bytes (c 0) (c 1) (c 2) (c 3)) @ drop (p + 3) out)"
  using assms list_update_run3 [of p out "Some (group_bytes (c 0) (c 1) (c 2) (c 3) ! 0)"]
  by (simp add: compress_loop.simps [of src cur] peek_in poke_in Let_def group_bytes_def)

lemma compress_rest_correct:
  assumes "e - cur < 4" "cur \<le> e" "e \<le> length src" "p + qsize (e - cur) \<le> length out"
  shows "compress_rest src cur e p out = store_block out p (map Some (pack (map compressQChar (drop cur (take e src)))))"
proof -
  have "\<exists>n. e = cur + n \<and> (n = 0 \<or> n = 1 \<or> n = 2 \<or> n = 3)" using assms by (intro exI [of _ "e - cur"]) auto
  then obtain n where n: "e = cur + n" "n = 0 \<or> n = 1 \<or> n = 2 \<or> n = 3" by blast
  from n(2) show ?thesis
  proof (elim disjE)
    assume "n = 0"
    with n assms show ?thesis by (simp add: compress_rest_def store_block_in)
  next
    assume "n = 1"
    with n assms show ?thesis
      by (simp add: compress_rest_def Let_def peek_in poke_in store_block_in group_bytes_def upd_conv_take_nth_drop take_Suc_conv_app_nth)
  next
    assume "n = 2"
    with n assms show ?thesis using list_update_rev2 [of p out] drop_run2 [of cur "take e src"]
      by (simp add: compress_rest_def Let_def peek_in poke_in store_block_in group_bytes_def)
  next
    assume "n = 3"
    with n assms show ?thesis using list_update_rev3 [of p out] drop_run3 [of cur "take e src"]
      by (simp add: compress_rest_def Let_def peek_in poke_in store_block_in group_bytes_def numeral_3_eq_3)
  qed
qed

lemma compress_loop_rest:
  assumes "e \<le> length src" "cur \<le> e" "p + qsize (e - cur) \<le> length out"
  shows "res_bind (compress_loop src cur e p out) (\<lambda>(cur, p, out). compress_rest src cur e p out) =
    store_block out p (map Some (pack (map compressQChar (drop cur (take e src)))))"
  using assms
proof (induction "e - cur" arbitrary: cur p out rule: less_induct)
  case less
  show ?case
  proof (cases "e - cur \<ge> 4")
    case True
    define c where "c = (\<lambda>k. compressQChar (src ! (cur + k)))"
    define g where "g = map Some (group_bytes (c 0) (c 1) (c 2) (c 3))"
    define rest where "rest = map Some (pack (map compressQChar (drop (cur + 4) (take e src))))"
    have q: "qsize (e - cur) = qsize (e - (cur + 4)) + 3" using True by (simp add: qsize_def)
    have len: "length g = 3" "length rest = qsize (e - (cur + 4))" using less.prems by (simp_all add: g_def rest_def)
    have "res_bind (compress_loop src cur e p out) (\<lambda>(cur, p, out). compress_rest src cur e p out) =
        store_block (take p out @ g @ drop (p + 3) out) (p + 3) rest"
      using less True q len by (simp add: compress_loop_step g_def c_def rest_def)
    also have "\<dots> = store_block out p (g @ rest)"
      using store_block_append [of p g rest out] less.prems(3) q len by simp
    also have "g @ rest = map Some (pack (map compressQChar (drop cur (take e src))))"
      using True less.prems drop_run4 [of cur "take e src"] by (simp add: g_def rest_def c_def)
    finally show ?thesis .
  next
    case False
    then show ?thesis using less.prems by (simp add: compress_loop.simps compress_rest_correct)
  qed
qed

lemma expand_loop_step:
  assumes "4 \<le> e - p" "e \<le> length out" "cur + 3 \<le> length src"
  shows "expand_loop src cur p e out =
    expand_loop src (cur + 3) (p + 4) e
      (take p out @ map Some (map expandQChar (group_chars (src ! cur) (src ! (cur + 1)) (src ! (cur + 2)))) @ drop (p + 4) out)"
  using assms list_update_run4 [of p out]
  by (simp add: expand_loop.simps [of src cur] peek_in poke_in Let_def group_chars_def)

text \<open>The first characters of a run of bytes need only the bytes they lie in.\<close>

lemma take_unpack_heads:
  "1 \<le> length xs \<Longrightarrow> take (Suc 0) (unpack xs) = [drop_bit 2 (xs ! 0)]"
  "2 \<le> length xs \<Longrightarrow> take 2 (unpack xs) = take 2 (group_chars (xs ! 0) (xs ! 1) 0)"
  "3 \<le> length xs \<Longrightarrow> take 3 (unpack xs) = take 3 (group_chars (xs ! 0) (xs ! 1) (xs ! 2))"
  by (cases xs rule: unpack.cases; simp add: group_chars_def numeral_2_eq_2)+

lemma take_unpack:
  "qsize n \<le> length xs \<Longrightarrow> take n (unpack (take (qsize n) xs)) = take n (unpack xs)"
proof (induction xs arbitrary: n rule: unpack.induct)
  case (1 a b c xs)
  show ?case
  proof (cases "n < 4")
    case True
    then have "n = 0 \<or> n = 1 \<or> n = 2 \<or> n = 3" by auto
    then show ?thesis by (elim disjE) (simp_all add: group_chars_def numeral_2_eq_2 numeral_3_eq_3)
  next
    case False
    then have "n = Suc (Suc (Suc (Suc (n - 4))))" by simp
    then obtain k where "n = Suc (Suc (Suc (Suc k)))" ..
    with 1 show ?thesis by (simp add: take_Cons' group_chars_def)
  qed
next
  case (2 a b)
  then have "n = 0 \<or> n = 1 \<or> n = 2" using qsize_mono [of 3 n] by fastforce
  then show ?case by (elim disjE) (simp_all add: group_chars_def)
next
  case (3 a)
  then have "n = 0 \<or> n = 1" using qsize_mono [of 2 n] by fastforce
  then show ?case by (elim disjE) (simp_all add: group_chars_def)
next
  case 4
  then show ?case by simp
qed

lemma expand_rest_correct:
  assumes "e - p < 4" "p \<le> e" "e \<le> length out" "cur + qsize (e - p) \<le> length src"
  shows "expand_rest src cur p e out = store_block out p (map Some (map expandQChar (take (e - p) (unpack (drop cur src)))))"
proof -
  have "\<exists>n. e = p + n \<and> (n = 0 \<or> n = 1 \<or> n = 2 \<or> n = 3)" using assms by (intro exI [of _ "e - p"]) auto
  then obtain n where n: "e = p + n" "n = 0 \<or> n = 1 \<or> n = 2 \<or> n = 3" by blast
  from n(2) show ?thesis
  proof (elim disjE)
    assume "n = 0"
    with n assms show ?thesis by (simp add: expand_rest_def store_block_in)
  next
    assume "n = 1"
    with n assms show ?thesis
      by (simp add: expand_rest_def Let_def peek_in poke_in store_block_in upd_conv_take_nth_drop take_unpack_heads)
  next
    assume "n = 2"
    with n assms show ?thesis using list_update_rev2 [of p out]
      by (simp add: expand_rest_def Let_def peek_in poke_in store_block_in group_chars_def take_unpack_heads)
  next
    assume "n = 3"
    moreover have "drop (Suc (Suc (Suc p))) out = drop (p + 3) out" by (simp add: numeral_3_eq_3)
    ultimately show ?thesis using n assms list_update_rev3 [of p out]
      by (simp add: expand_rest_def Let_def peek_in poke_in store_block_in group_chars_def take_unpack_heads)
  qed
qed

lemma expand_loop_rest:
  assumes "e \<le> length out" "p \<le> e" "cur + qsize (e - p) \<le> length src"
  shows "res_bind (expand_loop src cur p e out) (\<lambda>(cur, p, out). expand_rest src cur p e out) =
    store_block out p (map Some (map expandQChar (take (e - p) (unpack (drop cur src)))))"
  using assms
proof (induction "e - p" arbitrary: cur p out rule: less_induct)
  case less
  show ?case
  proof (cases "e - p \<ge> 4")
    case True
    define g where "g = map Some (map expandQChar (group_chars (src ! cur) (src ! (cur + 1)) (src ! (cur + 2))))"
    define rest where "rest = map Some (map expandQChar (take (e - (p + 4)) (unpack (drop (cur + 3) src))))"
    have q: "qsize (e - p) = qsize (e - (p + 4)) + 3" using True by (simp add: qsize_def)
    have len: "length g = 4" "length rest \<le> e - (p + 4)" by (simp_all add: g_def rest_def)
    have "res_bind (expand_loop src cur p e out) (\<lambda>(cur, p, out). expand_rest src cur p e out) =
        store_block (take p out @ g @ drop (p + 4) out) (p + 4) rest"
      using less True q len by (simp add: expand_loop_step g_def rest_def)
    also have "\<dots> = store_block out p (g @ rest)"
      using store_block_append [of p g rest out] less.prems True len by simp
    also have "g @ rest = map Some (map expandQChar (take (e - p) (unpack (drop cur src))))"
      using True less.prems drop_run3 [of cur src] q by (simp add: g_def rest_def)
    finally show ?thesis .
  next
    case False
    then show ?thesis using less.prems by (simp add: expand_loop.simps expand_rest_correct)
  qed
qed

text \<open>Cut or padded to a length.\<close>

definition fit :: "nat \<Rightarrow> 'a \<Rightarrow> 'a list \<Rightarrow> 'a list" where
  "fit n z xs = take n xs @ replicate (n - length xs) z"

lemma length_fit [simp]: "length (fit n z xs) = n"
  by (simp add: fit_def)

lemma map_fit: "map f (fit n z xs) = fit n (f z) (map f xs)"
  by (simp add: fit_def take_map)

lemma rtlStrToQStr_eq:
  assumes "3 * (outlen + 1) < 2 ^ 32" "qsize outlen \<le> length out" "min inlen outlen \<le> length src"
  shows "rtlStrToQStr outlen out inlen src =
    Inr (map Some (pack (fit outlen 0 (map compressQChar (take inlen src)))) @ drop (qsize outlen) out)"
proof (cases "inlen \<ge> outlen")
  case True
  then have "outlen \<le> length src" using assms(3) by simp
  with True have "fit outlen 0 (map compressQChar (take inlen src)) = map compressQChar (take outlen src)"
    by (simp add: fit_def take_map)
  with True assms show ?thesis
    using compress_loop_rest [of outlen src 0 0 out] by (simp add: rtlStrToQStr_def store_block_in QStrSize_eq)
next
  case False
  let ?cs = "map compressQChar (take inlen src)" and ?k = "qsize outlen - qsize inlen"
  let ?out = "take (qsize inlen) out @ replicate ?k (Some 0) @ drop (qsize outlen) out"
  have q: "QStrSize inlen = qsize inlen" "QStrSize outlen = qsize outlen" "qsize inlen \<le> qsize outlen"
    using False assms(1) QStrSize_eq qsize_mono [of inlen outlen] by auto
  have "memset out (qsize inlen) 0 ?k = Inr ?out"
    using assms(2) q(3) by (simp add: memset_def store_block_in)
  then have "rtlStrToQStr outlen out inlen src = store_block ?out 0 (map Some (pack ?cs))"
    using False assms q compress_loop_rest [of inlen src 0 0 ?out] by (simp add: rtlStrToQStr_def Let_def)
  also have "\<dots> = Inr ((map Some (pack ?cs) @ replicate ?k (Some 0)) @ drop (qsize outlen) out)"
    using False assms q by (simp add: store_block_in)
  also have "map Some (pack ?cs) @ replicate ?k (Some 0) = map Some (pack (fit outlen 0 ?cs))"
    using False assms pack_zeros [of "replicate (outlen - inlen) 0" ?cs] by (simp add: fit_def)
  finally show ?thesis .
qed

lemma rtlQStrToStr_eq:
  assumes "outlen \<le> length out" "qsize (min inlen outlen) \<le> length src"
  shows "rtlQStrToStr outlen out inlen src =
    Inr (map Some (fit outlen 0x20 (map expandQChar (take inlen (unpack src)))) @ drop outlen out)"
proof -
  have len: "min inlen outlen \<le> length (unpack src)"
    using assms(2) by (rule qsize_length_unpack)
  show ?thesis
  proof (cases "inlen < outlen")
    case True
    let ?out = "take inlen out @ replicate (outlen - inlen) (Some 0x20) @ drop outlen out"
    let ?cs = "map expandQChar (take inlen (unpack src))"
    have "memset out inlen 0x20 (outlen - inlen) = Inr ?out"
      using assms(1) True by (simp add: memset_def store_block_in)
    then have "rtlQStrToStr outlen out inlen src = store_block ?out 0 (map Some ?cs)"
      using True assms expand_loop_rest [of inlen ?out 0 0 src] by (simp add: rtlQStrToStr_def)
    also have "\<dots> = Inr ((map Some ?cs @ replicate (outlen - inlen) (Some 0x20)) @ drop outlen out)"
      using True assms len by (simp add: store_block_in min_def)
    also have "map Some ?cs @ replicate (outlen - inlen) (Some 0x20) = map Some (fit outlen 0x20 ?cs)"
      using True len by (simp add: fit_def min_def)
    finally show ?thesis .
  next
    case False
    with len have "outlen \<le> length (unpack src)" by simp
    with False have "fit outlen 0x20 (map expandQChar (take inlen (unpack src))) = map expandQChar (take outlen (unpack src))"
      by (simp add: fit_def take_map min_def)
    with False assms len \<open>outlen \<le> length (unpack src)\<close> show ?thesis
      using expand_loop_rest [of outlen out 0 0 src] by (simp add: rtlQStrToStr_def store_block_in)
  qed
qed

section \<open>Characters in place\<close>

lemma unpack_nth:
  "1 \<le> length xs \<Longrightarrow> unpack xs ! 0 = drop_bit 2 (xs ! 0)"
  "2 \<le> length xs \<Longrightarrow> unpack xs ! 1 = push_bit 4 (xs ! 0 AND 0x3) OR drop_bit 4 (xs ! 1)"
  "3 \<le> length xs \<Longrightarrow> unpack xs ! 2 = push_bit 2 (xs ! 1 AND 0xf) OR drop_bit 6 (xs ! 2)"
  "3 \<le> length xs \<Longrightarrow> unpack xs ! 3 = xs ! 2 AND 0x3f"
  by (cases xs rule: unpack.cases; simp add: group_chars_def)+

text \<open>A place in a string is a group and one of four places in it.\<close>

lemma qchar_place:
  assumes "qsize (i + 1) \<le> length xs"
  obtains q r us ys where "i = 4 * q + r" "i mod 4 = r" "r < 4" "xs = us @ ys" "length us = 3 * q" "length (unpack us) = 4 * q"
    "min (r + 1) 3 \<le> length ys" "i * 3 div 4 = 3 * q + (r - 1)"
proof
  let ?q = "i div 4" and ?r = "i mod 4"
  have r: "?r = 0 \<or> ?r = 1 \<or> ?r = 2 \<or> ?r = 3" by linarith
  have i: "i * 3 = 3 * ?r + 4 * (3 * ?q)" "3 * (i + 1 + 1) = 3 * ?r + 6 + 4 * (3 * ?q)"
    using div_mult_mod_eq [of i 4] by (simp_all only: distrib_left mult.assoc)
  show "i = 4 * ?q + ?r" "i mod 4 = ?r" "?r < 4" by simp_all
  have q: "qsize (i + 1) = 3 * ?q + min (?r + 1) 3"
    unfolding qsize_def i(2) using r by (elim disjE) simp_all
  with assms show "xs = take (3 * ?q) xs @ drop (3 * ?q) xs" "length (take (3 * ?q) xs) = 3 * ?q"
    "length (unpack (take (3 * ?q) xs)) = 4 * ?q" by (simp_all add: length_unpack)
  show "min (?r + 1) 3 \<le> length (drop (3 * ?q) xs)" using q assms unfolding length_drop by linarith
  show "i * 3 div 4 = 3 * ?q + (?r - 1)" unfolding i(1) using r by (elim disjE) simp_all
qed

lemma byte_at [simp]:
  "peek (us @ a # zs) (length us) = Inr a"
  "peek (us @ a # b # zs) (Suc (length us)) = Inr b"
  "peek (us @ a # b # c # zs) (Suc (Suc (length us))) = Inr c"
  "wr (us @ a # zs) (int (length us)) v = Inr (us @ v # zs)"
  "wr (us @ a # b # zs) (1 + int (length us)) v = Inr (us @ a # v # zs)"
  "wr (us @ a # b # c # zs) (2 + int (length us)) v = Inr (us @ a # b # v # zs)"
  "wr (us @ a # b # c # zs) (int (length us) + 2) v = Inr (us @ a # b # v # zs)"
  by (simp_all add: peek_in nth_append wr_def list_update_append nat_add_distrib)

text \<open>The bytes of a group that are there.\<close>

lemma qchar_shape:
  assumes "r < 4" "min (r + 1) 3 \<le> length ys"
  shows "r = 0 \<and> (\<exists>a zs. ys = (a :: 8 word) # zs) \<or> r = 1 \<and> (\<exists>a b zs. ys = a # b # zs) \<or> r = 2 \<and> (\<exists>a b c zs. ys = a # b # c # zs)
    \<or> r = 3 \<and> (\<exists>a b c zs. ys = a # b # c # zs)"
proof -
  have "r = 0 \<or> r = 1 \<or> r = 2 \<or> r = 3" using assms(1) by auto
  with assms(2) show ?thesis by (cases ys rule: unpack.cases) auto
qed

lemma unpack_first:
  "\<exists>b c cs. \<forall>a. unpack (a # zs) = group_chars a b c @ cs"
  "\<exists>c cs. \<forall>a b. unpack (a # b # zs) = group_chars a b c @ cs"
proof -
  show "\<exists>b c cs. \<forall>a. unpack (a # zs) = group_chars a b c @ cs"
    by (metis append_Nil2 list.exhaust unpack.simps(1-3))
  show "\<exists>c cs. \<forall>a b. unpack (a # b # zs) = group_chars a b c @ cs"
    by (cases zs) auto
qed

lemma getQChar_eq:
  assumes "qsize (i + 1) \<le> length xs" "3 * (i + 1) < 2 ^ 32"
  shows "getQChar xs i = Inr (unpack xs ! i)"
proof -
  obtain q r us ys where p: "i = 4 * q + r" "i mod 4 = r" "r < 4" "xs = us @ ys" "length us = 3 * q" "length (unpack us) = 4 * q"
    "min (r + 1) 3 \<le> length ys" "i * 3 div 4 = 3 * q + (r - 1)"
    using qchar_place [OF assms(1)] .
  have u: "u32 (i * 3) = i * 3" using assms(2) by (simp add: u32_def)
  have "unpack xs ! i = unpack ys ! r" using p(1,4,5,6) by (simp add: unpack_append [OF p(5)] nth_append)
  with qchar_shape [OF p(3,7)] show ?thesis unfolding getQChar_def u p(2) p(8) p(4) p(5) [symmetric]
    by (elim disjE conjE exE) (simp_all add: unpack_nth unpack_nth(2) [simplified] nth_append, simp_all add: group_chars_def)
qed

lemma group_chars_update:
  assumes "v < 64"
  shows "group_chars ((a AND 0x03) OR push_bit 2 v) b c = (group_chars a b c)[0 := v]"
    "group_chars ((a AND 0xfc) OR drop_bit 4 v) ((b AND 0x0f) OR push_bit 4 (v AND 0x0f)) c = (group_chars a b c)[1 := v]"
    "group_chars a ((b AND 0xf0) OR drop_bit 2 v) ((c AND 0x3f) OR push_bit 6 (v AND 0x03)) = (group_chars a b c)[2 := v]"
    "group_chars a b ((c AND 0xc0) OR v) = (group_chars a b c)[3 := v]"
  using assms unfolding less_64_bit group_chars_def masks
  by (simp, intro conjI byte_eqI; simp add: byte_bits)+

lemma setQChar_eq:
  assumes "qsize (i + 1) \<le> length xs" "3 * (i + 1) < 2 ^ 32" "v < 64"
  shows "\<exists>xs'. setQChar xs i v = Inr xs' \<and> length xs' = length xs \<and> unpack xs' = (unpack xs)[i := v]"
proof -
  obtain q r us ys where p: "i = 4 * q + r" "i mod 4 = r" "r < 4" "xs = us @ ys" "length us = 3 * q" "length (unpack us) = 4 * q"
    "min (r + 1) 3 \<le> length ys" "i * 3 div 4 = 3 * q + (r - 1)"
    using qchar_place [OF assms(1)] .
  have u: "u32 (i * 3) = i * 3" using assms(2) by (simp add: u32_def)
  note set = setQChar_def u p(2) p(8) p(4) p(5) [symmetric]
  have "\<exists>ys'. setQChar xs i v = Inr (us @ ys') \<and> length ys' = length ys \<and> unpack ys' = (unpack ys)[r := v]"
    using qchar_shape [OF p(3,7)]
  proof (elim disjE conjE exE)
    fix a zs assume s: "r = 0" "ys = a # zs"
    obtain b c cs where "\<And>a. unpack (a # zs) = group_chars a b c @ cs" using unpack_first(1) by blast
    with s group_chars_update(1) [OF assms(3)] show ?thesis unfolding set by (simp add: list_update_append Let_def add.commute)
  next
    fix a b zs assume s: "r = 1" "ys = a # b # zs"
    obtain c cs where "\<And>a b. unpack (a # b # zs) = group_chars a b c @ cs" using unpack_first(2) by blast
    with s group_chars_update(2) [OF assms(3)] show ?thesis unfolding set by (simp add: list_update_append Let_def add.commute)
  next
    fix a b c zs assume "r = 2" "ys = a # b # c # zs"
    with group_chars_update(3) [OF assms(3)] show ?thesis unfolding set by (simp add: list_update_append Let_def add.commute)
  next
    fix a b c zs assume "r = 3" "ys = a # b # c # zs"
    with group_chars_update(4) [OF assms(3)] show ?thesis unfolding set by (simp add: list_update_append Let_def add.commute)
  qed
  then show ?thesis using p(1,4) unpack_append [OF p(5)] p(6) by (auto simp: list_update_append)
qed

end
