(* ===== verification/Rtlqstr_Order.thy ===== *)
theory Rtlqstr_Order
  imports Rtlqstr_Proofs
begin

text \<open>
  Six-bit strings as numbers and their order: incrementing and decrementing count in base 64, and the comparison
  of bytes is the comparison of characters padded with blanks, which the reader makes one by one.
\<close>

section \<open>Numbers of characters\<close>

definition num_of :: "nat \<Rightarrow> 8 word list \<Rightarrow> nat" where
  "num_of B cs = foldl (\<lambda>n c. B * n + unat c) 0 cs"

lemma num_of_Nil [simp]: "num_of B [] = 0"
  by (simp add: num_of_def)

lemma num_of_snoc [simp]: "num_of B (cs @ [c]) = B * num_of B cs + unat c"
  by (simp add: num_of_def)

lemma num_of_Cons: "num_of B (c # cs) = unat c * B ^ length cs + num_of B cs"
proof (induction cs rule: rev_induct)
  case (snoc d cs)
  have "num_of B ((c # cs) @ [d]) = B * num_of B (c # cs) + unat d" by (rule num_of_snoc)
  with snoc show ?case by (simp add: algebra_simps)
qed (simp add: num_of_def)

lemma num_of_less: "\<forall>c \<in> set cs. unat c < B \<Longrightarrow> num_of B cs < B ^ length cs"
proof (induction cs)
  case (Cons c cs)
  then have "num_of B (c # cs) < (unat c + 1) * B ^ length cs" by (simp add: num_of_Cons)
  also have "\<dots> \<le> B * B ^ length cs" using Cons.prems by (intro mult_right_mono) auto
  finally show ?case by simp
qed simp

section \<open>Counting\<close>

lemma unat_and_63: "unat (x AND 0x3f) = unat x mod 64" for x :: "8 word"
proof -
  have "x AND 0x3f = take_bit 6 x" by (simp only: masks(3) take_bit_eq_mask)
  then have "unat (x AND 0x3f) = take_bit 6 (unat x)" by (simp only: unsigned_take_bit_eq)
  then show ?thesis by (simp add: take_bit_eq_mod)
qed

lemma and_63_less: "x AND 0x3f < 64" for x :: "8 word"
  by (simp add: word_less_nat_alt unat_and_63)

lemma next_char: "c < 64 \<Longrightarrow> unat ((c + 1) AND 0x3f) = (if unat c = 63 then 0 else unat c + 1)" for c :: "8 word"
  by (simp add: unat_and_63 word_less_nat_alt unat_word_ariths)

lemma prev_char: "c < 64 \<Longrightarrow> unat ((c - 1) AND 0x3f) = (if unat c = 0 then 63 else unat c - 1)" for c :: "8 word"
proof (cases "c = 0")
  case False
  moreover assume "c < 64"
  moreover have "unat (c - 1) = unat c - 1" using False by (simp add: unat_minus_one)
  ultimately show ?thesis by (simp add: unat_and_63 word_less_nat_alt unat_gt_0)
qed (simp add: unat_and_63)

lemma char_less: "i < length (unpack xs) \<Longrightarrow> unpack xs ! i < 64"
  using unpack_less [of "unpack xs ! i" xs] by simp

lemma take_Suc_update: "i < length xs \<Longrightarrow> take (Suc i) (xs[i := v]) = take i xs @ [v]"
  by (simp add: take_Suc_conv_app_nth)

text \<open>What is left of a string when the characters before \<open>i\<close> change again.\<close>

lemma carried:
  assumes "drop i ys = drop i (xs[i := v])" "i < length xs"
  shows "take (Suc i) ys = take i ys @ [v]" "drop (Suc i) ys = drop (Suc i) xs"
proof -
  have d: "drop i ys = v # drop (Suc i) xs" using assms by (simp add: drop_update_swap Cons_nth_drop_Suc [symmetric])
  then have "i < length ys" by (metis drop_all list.discI not_less)
  with d show "take (Suc i) ys = take i ys @ [v]" by (metis hd_drop_conv_nth list.sel(1) take_Suc_conv_app_nth)
  show "drop (Suc i) ys = drop (Suc i) xs" using d by (metis drop_Suc list.sel(3) tl_drop)
qed

lemma set_char:
  assumes "qsize (Suc i) \<le> length buf" "3 * (Suc i + 1) < 2 ^ 32" "v < 64"
  obtains buf1 where "getQChar buf i = Inr (unpack buf ! i)" "setQChar buf i v = Inr buf1" "length buf1 = length buf"
    "unpack buf1 = (unpack buf)[i := v]" "qsize i \<le> length buf1" "i < length (unpack buf)"
  using setQChar_eq [of i buf v] getQChar_eq [of i buf] assms qsize_length_unpack [OF assms(1)] qsize_mono [of i "Suc i"] by force

lemma increment_loop_correct:
  assumes "qsize n \<le> length buf" "3 * (n + 1) < 2 ^ 32"
  shows "\<exists>b buf'. increment_loop buf n = Inr (b, buf') \<and> length buf' = length buf \<and> drop n (unpack buf') = drop n (unpack buf) \<and>
    num_of 64 (take n (unpack buf')) + (if b then 0 else 64 ^ n) = num_of 64 (take n (unpack buf)) + 1"
  using assms
proof (induction n arbitrary: buf)
  case (Suc i)
  let ?cs = "unpack buf" and ?c = "(unpack buf ! i + 1) AND 0x3f"
  obtain buf1 where buf1: "getQChar buf i = Inr (?cs ! i)" "setQChar buf i ?c = Inr buf1" "length buf1 = length buf"
    "unpack buf1 = ?cs[i := ?c]" "qsize i \<le> length buf1" "i < length ?cs"
    using set_char [OF Suc.prems and_63_less] .
  have c: "unat ?c = (if unat (?cs ! i) = 63 then 0 else unat (?cs ! i) + 1)" by (rule next_char [OF char_less [OF buf1(6)]])
  have cs: "take (Suc i) ?cs = take i ?cs @ [?cs ! i]" using buf1(6) by (rule take_Suc_conv_app_nth)
  show ?case
  proof (cases "?c = 0")
    case False
    then have "increment_loop buf (Suc i) = Inr (True, buf1)" using buf1 by (simp add: Let_def)
    moreover have "unat ?c = unat (?cs ! i) + 1" using False c by (metis unat_eq_0)
    ultimately show ?thesis using buf1(3,4,6) cs
      by (intro exI [of _ True] exI [of _ buf1]) (simp add: take_Suc_update del: increment_loop.simps)
  next
    case True
    obtain b buf2 where buf2: "increment_loop buf1 i = Inr (b, buf2)" "length buf2 = length buf1"
      "drop i (unpack buf2) = drop i (unpack buf1)"
      "num_of 64 (take i (unpack buf2)) + (if b then 0 else 64 ^ i) = num_of 64 (take i (unpack buf1)) + 1"
      using Suc.IH [OF buf1(5)] Suc.prems(2) by auto
    have "increment_loop buf (Suc i) = Inr (b, buf2)" using True buf1(1,2) buf2(1) by (simp add: Let_def)
    moreover have "unat (?cs ! i) = 63" using True c by (metis add_is_0 one_neq_zero unat_eq_0)
    moreover note carried [OF buf2(3) [unfolded buf1(4)] buf1(6)]
    ultimately show ?thesis using buf2(2,4) buf1(3,4) True cs by (simp del: increment_loop.simps split: if_splits)
  qed
qed auto

lemma decrement_loop_correct:
  assumes "qsize n \<le> length buf" "3 * (n + 1) < 2 ^ 32"
  shows "\<exists>b buf'. decrement_loop buf n = Inr (b, buf') \<and> length buf' = length buf \<and> drop n (unpack buf') = drop n (unpack buf) \<and>
    num_of 64 (take n (unpack buf')) + 1 = num_of 64 (take n (unpack buf)) + (if b then 0 else 64 ^ n)"
  using assms
proof (induction n arbitrary: buf)
  case (Suc i)
  let ?cs = "unpack buf" and ?c = "(unpack buf ! i - 1) AND 0x3f"
  obtain buf1 where buf1: "getQChar buf i = Inr (?cs ! i)" "setQChar buf i ?c = Inr buf1" "length buf1 = length buf"
    "unpack buf1 = ?cs[i := ?c]" "qsize i \<le> length buf1" "i < length ?cs"
    using set_char [OF Suc.prems and_63_less] .
  have c: "unat ?c = (if unat (?cs ! i) = 0 then 63 else unat (?cs ! i) - 1)" by (rule prev_char [OF char_less [OF buf1(6)]])
  have less: "unat (?cs ! i) < 64" using char_less [OF buf1(6)] by (simp add: word_less_nat_alt)
  have cs: "take (Suc i) ?cs = take i ?cs @ [?cs ! i]" using buf1(6) by (rule take_Suc_conv_app_nth)
  show ?case
  proof (cases "?c = 0x3f")
    case False
    then have "decrement_loop buf (Suc i) = Inr (True, buf1)" using buf1 by (simp add: Let_def)
    moreover have "unat ?c \<noteq> unat (0x3f :: 8 word)" using False using unsigned_word_eqI by blast
    then have "unat ?c + 1 = unat (?cs ! i)" using c by (auto split: if_splits)
    ultimately show ?thesis using buf1(3,4,6) cs
      by (intro exI [of _ True] exI [of _ buf1]) (simp add: take_Suc_update del: decrement_loop.simps)
  next
    case True
    obtain b buf2 where buf2: "decrement_loop buf1 i = Inr (b, buf2)" "length buf2 = length buf1"
      "drop i (unpack buf2) = drop i (unpack buf1)"
      "num_of 64 (take i (unpack buf2)) + 1 = num_of 64 (take i (unpack buf1)) + (if b then 0 else 64 ^ i)"
      using Suc.IH [OF buf1(5)] Suc.prems(2) by auto
    have "decrement_loop buf (Suc i) = Inr (b, buf2)" using True buf1(1,2) buf2(1) by (simp add: Let_def)
    moreover have "unat (?cs ! i) = 0" using True c less by (auto split: if_splits)
    moreover note carried [OF buf2(3) [unfolded buf1(4)] buf1(6)]
    ultimately show ?thesis using buf2(2,4) buf1(3,4) True cs by (simp del: decrement_loop.simps split: if_splits)
  qed
qed auto

section \<open>The reader\<close>

definition rdr :: "bytes \<Rightarrow> nat \<Rightarrow> QStrReader" where
  "rdr buf i = \<lparr>rbuffer = buf, rcur = i, roffset = i * 3 div 4\<rparr>"

lemma QStrReader_new_rdr: "QStrReader_new buf = rdr buf 0"
  by (simp add: QStrReader_new_def rdr_def)

lemma offset_Suc: "Suc i * 3 div 4 = i * 3 div 4 + (if i mod 4 = 0 then 0 else 1)"
  by (simp, presburger)

lemma curQChar_eq:
  assumes "qsize (i + 1) \<le> length xs" "3 * (i + 1) < 2 ^ 32"
  shows "curQChar (rdr xs i) = Inr (unpack xs ! i)"
proof -
  have "curQChar (rdr xs i) = getQChar xs i"
    using assms(2) by (simp add: curQChar_def getQChar_def rdr_def u32_def Let_def)
  with getQChar_eq [OF assms] show ?thesis by simp
qed

lemma nextQChar_eq:
  assumes "qsize (i + 1) \<le> length xs" "3 * (i + 1) < 2 ^ 32"
  shows "nextQChar (rdr xs i) = Inr (unpack xs ! i, rdr xs (Suc i))"
  using curQChar_eq [OF assms] assms(2) offset_Suc [of i]
  by (simp add: nextQChar_def rdr_def u32_def)

lemma prevQChar_eq:
  assumes "qsize (i + 1) \<le> length xs" "3 * (i + 1) < 2 ^ 32"
  shows "prevQChar (rdr xs (Suc i)) = Inr (unpack xs ! i, rdr xs i)"
proof -
  have "u32 (Suc i + 2 ^ 32 - 1) = i" "u32 (i * 3 div 4 + 1 + 2 ^ 32 - 1) = i * 3 div 4"
    using assms(2) by (simp_all add: u32_def)
  with curQChar_eq [OF assms] offset_Suc [of i] show ?thesis
    by (simp add: prevQChar_def rdr_def Let_def)
qed

text \<open>Characters without the blanks at the end.\<close>

definition trim :: "8 word list \<Rightarrow> 8 word list" where
  "trim cs = rev (dropWhile (\<lambda>c. c = 0) (rev cs))"

lemma trim_snoc: "trim (cs @ [c]) = (if c = 0 then trim cs else cs @ [c])"
  by (simp add: trim_def)

lemma trim_loop_eq:
  assumes "qsize n \<le> length xs" "3 * (n + 1) < 2 ^ 32"
  shows "trim_loop n (rdr xs n) = Inr (length (trim (take n (unpack xs))))"
  using assms
proof (induction n)
  case (Suc n)
  have "n < length (unpack xs)" using qsize_length_unpack [OF Suc.prems(1)] by simp
  then show ?case using Suc qsize_mono [of n "Suc n"] prevQChar_eq [of n xs]
    by (simp add: take_Suc_conv_app_nth trim_snoc)
qed (simp add: trim_def)

lemma rtlTrimQStrLen_eq:
  assumes "qsize l \<le> length t" "3 * (l + 1) < 2 ^ 32"
  shows "rtlTrimQStrLen l t = Inr (length (trim (take l (unpack t))))"
proof -
  have "reader_seek l (QStrReader_new t) = rdr t l"
    using assms(2) by (simp add: reader_seek_def QStrReader_new_def rdr_def u32_def)
  with trim_loop_eq [OF assms] show ?thesis by (simp add: rtlTrimQStrLen_def)
qed

section \<open>The order\<close>

text \<open>The sign of the first difference of two lists, where the shorter one is padded with zeros.\<close>

fun blank_cmp :: "8 word list \<Rightarrow> 8 word list \<Rightarrow> int" where
  "blank_cmp [] [] = 0"
| "blank_cmp (x # xs) [] = (if x \<noteq> 0 then 1 else blank_cmp xs [])"
| "blank_cmp [] (y # ys) = (if y \<noteq> 0 then - 1 else blank_cmp [] ys)"
| "blank_cmp (x # xs) (y # ys) = (if x \<noteq> y then if x < y then - 1 else 1 else blank_cmp xs ys)"

lemma blank_cmp_Nil:
  "blank_cmp xs [] = (if \<exists>x \<in> set xs. x \<noteq> 0 then 1 else 0)"
  "blank_cmp [] xs = (if \<exists>x \<in> set xs. x \<noteq> 0 then - 1 else 0)"
  by (induction xs) auto

lemma blank_cmp_append:
  "length xs = length ys \<Longrightarrow> blank_cmp (xs @ us) (ys @ vs) = (if blank_cmp xs ys \<noteq> 0 then blank_cmp xs ys else blank_cmp us vs)"
  by (induction xs ys rule: list_induct2) auto

lemma blank_cmp_all_0: "\<forall>z \<in> set zs. z = 0 \<Longrightarrow> blank_cmp zs ys = blank_cmp [] ys"
  by (induction zs ys rule: blank_cmp.induct) (auto simp: word_gt_0)

lemma blank_cmp_zeros: "\<forall>z \<in> set zs. z = 0 \<Longrightarrow> blank_cmp (xs @ zs) ys = blank_cmp xs ys"
  by (induction xs ys rule: blank_cmp.induct) (simp_all add: blank_cmp_all_0 [of zs])

lemma blank_cmp_commute: "blank_cmp ys xs = - blank_cmp xs ys"
  by (induction xs ys rule: blank_cmp.induct) auto

lemma blank_cmp_zeros_right: "\<forall>z \<in> set zs. z = 0 \<Longrightarrow> blank_cmp xs (ys @ zs) = blank_cmp xs ys"
  using blank_cmp_zeros [of zs ys xs] blank_cmp_commute [of xs] by simp

lemma blank_cmp_eq_0: "length xs = length ys \<Longrightarrow> blank_cmp xs ys = 0 \<longleftrightarrow> xs = ys"
  by (induction xs ys rule: list_induct2) auto

text \<open>Lists of the same length are in the order of their numbers.\<close>

lemma blank_cmp_num:
  assumes "length xs = length ys" "\<forall>x \<in> set xs. unat x < B" "\<forall>y \<in> set ys. unat y < B"
  shows "blank_cmp xs ys = sgn (int (num_of B xs) - int (num_of B ys))"
  using assms
proof (induction xs ys rule: list_induct2)
  case (Cons x xs y ys)
  have less: "num_of B us < num_of B vs"
    if "us = a # us'" "vs = b # vs'" "a < b" "length us' = length vs'" "\<forall>c \<in> set us'. unat c < B" for us vs a b us' vs'
  proof -
    have "num_of B us < (unat a + 1) * B ^ length us'" using num_of_less [of us' B] that(1,5) by (simp add: num_of_Cons)
    also have "\<dots> \<le> unat b * B ^ length us'" using that(3) by (intro mult_right_mono) (auto simp: word_less_nat_alt)
    also have "\<dots> \<le> num_of B vs" using that(2,4) by (simp add: num_of_Cons)
    finally show ?thesis .
  qed
  consider "x < y" | "x = y" | "y < x" by fastforce
  then show ?case
  proof cases
    case 1
    then show ?thesis using less [OF refl refl 1, of xs ys] Cons by auto
  next
    case 2
    then show ?thesis using Cons by (simp add: num_of_Cons)
  next
    case 3
    then show ?thesis using less [OF refl refl 3, of ys xs] Cons by auto
  qed
qed simp

lemma unat_hi_lo:
  fixes x y :: "8 word"
  assumes "unat y < 2 ^ k" "k + m \<le> 8"
  shows "unat (push_bit k (x AND mask m) OR y) = 2 ^ k * (unat x mod 2 ^ m) + unat y"
proof -
  let ?h = "push_bit k (take_bit m (unat x))"
  have "x AND mask m = take_bit m x" by (simp only: take_bit_eq_mask)
  then have "unat (push_bit k (x AND mask m)) = take_bit 8 ?h"
    by (simp only: unsigned_push_bit_eq unsigned_take_bit_eq) simp
  also have "\<dots> = ?h"
    using assms(2) by (intro bit_eqI) (auto simp: bit_simps)
  finally have h: "unat (push_bit k (x AND mask m)) = ?h" .
  have y: "take_bit k (unat y) = unat y" using assms(1) by (simp add: take_bit_nat_eq_self)
  have "?h AND take_bit k (unat y) = 0" by (rule bit_eqI) (auto simp: bit_simps)
  then have "?h OR unat y = ?h + unat y" using disjunctive_add_eq_or [of ?h "unat y"] y by simp
  then show ?thesis by (simp only: unsigned_or_eq h) (simp add: push_bit_eq_mult take_bit_eq_mod)
qed

lemma num_of_group: "num_of 256 [a, b, c] = num_of 64 (group_chars a b c)"
proof -
  have u: "unat a < 256" "unat b < 256" "unat c < 256" using unsigned_less [where 'a = nat, of a]
    unsigned_less [where 'a = nat, of b] unsigned_less [where 'a = nat, of c] by simp_all
  have d: "unat (drop_bit k x) = unat x div 2 ^ k" for k and x :: "8 word"
    by (simp only: unat_drop_bit_eq drop_bit_eq_div [of _ "unat x"])
  have d2: "unat (drop_bit 2 a) = unat a div 4" unfolding d by simp
  have "unat (push_bit 4 (a AND 0x3) OR drop_bit 4 b) = 16 * (unat a mod 4) + unat b div 16"
    using unat_hi_lo [of "drop_bit 4 b" 4 2 a] u unfolding masks d by simp
  moreover have "unat (push_bit 2 (b AND 0xf) OR drop_bit 6 c) = 4 * (unat b mod 16) + unat c div 64"
    using unat_hi_lo [of "drop_bit 6 c" 2 4 b] u unfolding masks d by simp
  moreover have "256 * (256 * A + B) + C = 64 * (64 * (64 * a1 + (16 * a0 + b1)) + (4 * b0 + c1)) + c0"
    if "A = 4 * a1 + a0" "B = 16 * b1 + b0" "C = 64 * c1 + c0" for A B C a1 a0 b1 b0 c1 c0 :: nat
    using that by simp
  note this [of "unat a" "unat a div 4" "unat a mod 4" "unat b" "unat b div 16" "unat b mod 16" "unat c" "unat c div 64" "unat c mod 64"]
  ultimately show ?thesis
    unfolding num_of_def group_chars_def foldl_Cons foldl_Nil d2 unat_and_63 by (simp only: mult_div_mod_eq mult_zero_right add_0)
qed

lemma blank_cmp_group: "blank_cmp [a, b, c] [a', b', c'] = blank_cmp (group_chars a b c) (group_chars a' b' c')"
proof -
  have "unat x < 256" for x :: "8 word" using unsigned_less [where 'a = nat, of x] by simp
  moreover have "\<forall>x \<in> set (group_chars a b c). unat x < 64" for a b c
    using group_chars_less by (auto simp: word_less_nat_alt)
  ultimately show ?thesis
    using blank_cmp_num [of "[a, b, c]" "[a', b', c']" 256] blank_cmp_num [of "group_chars a b c" "group_chars a' b' c'" 64]
    by (simp add: num_of_group del: blank_cmp.simps)
qed

lemma blank_cmp_unpack_groups:
  "length xs = 3 * g \<Longrightarrow> length ys = 3 * g \<Longrightarrow> blank_cmp xs ys = blank_cmp (unpack xs) (unpack ys)"
proof (induction g arbitrary: xs ys)
  case (Suc g)
  obtain a b c us a' b' c' vs where s: "xs = a # b # c # us" "ys = a' # b' # c' # vs"
    using Suc.prems by (cases xs rule: unpack.cases; cases ys rule: unpack.cases) auto
  have "blank_cmp ([a, b, c] @ us) ([a', b', c'] @ vs) = blank_cmp (unpack xs) (unpack ys)"
    using Suc.IH [of us vs] Suc.prems s
    by (simp only: blank_cmp_append unpack.simps length_group blank_cmp_group) (simp add: blank_cmp_append blank_cmp_group [symmetric])
  then show ?case using s by simp
qed simp

lemma unpack_zeros:
  assumes "\<forall>z \<in> set zs. z = 0"
  shows "\<exists>ws. unpack (xs @ zs) = unpack xs @ ws \<and> (\<forall>w \<in> set ws. w = 0)"
proof -
  have zero: "\<forall>w \<in> set (unpack zs). w = 0" if "\<forall>z \<in> set zs. z = 0" for zs
    using that by (induction zs rule: unpack.induct) (auto simp: group_chars_def)
  show ?thesis
  proof (induction xs rule: unpack.induct)
    case (2 a b)
    then show ?case using assms zero by (cases zs) auto
  next
    case (3 a)
    have "\<forall>w \<in> set (unpack (drop 2 zs)). w = 0" using zero assms by (meson in_set_dropD)
    then show ?case using assms by (cases zs rule: unpack.cases) auto
  qed (use assms zero in auto)
qed

text \<open>Comparing bytes compares characters.\<close>

lemma blank_cmp_unpack: "blank_cmp xs ys = blank_cmp (unpack xs) (unpack ys)"
proof -
  let ?n = "3 * max (length xs) (length ys)"
  let ?z = "\<lambda>xs. replicate (?n - length xs) (0 :: 8 word)"
  obtain us vs where z: "unpack (xs @ ?z xs) = unpack xs @ us" "\<forall>u \<in> set us. u = 0"
      "unpack (ys @ ?z ys) = unpack ys @ vs" "\<forall>v \<in> set vs. v = 0"
    using unpack_zeros [of "?z xs" xs] unpack_zeros [of "?z ys" ys] by auto
  have "blank_cmp xs ys = blank_cmp (xs @ ?z xs) (ys @ ?z ys)"
    by (simp add: blank_cmp_zeros blank_cmp_zeros_right)
  also have "\<dots> = blank_cmp (unpack xs @ us) (unpack ys @ vs)"
    using blank_cmp_unpack_groups [of "xs @ ?z xs" "max (length xs) (length ys)" "ys @ ?z ys"] z(1,3) by simp
  finally show ?thesis using z(2,4) by (simp add: blank_cmp_zeros blank_cmp_zeros_right)
qed

section \<open>Comparisons\<close>

lemma memcmp_sgn: "length xs = length ys \<Longrightarrow> sgn (memcmp xs ys) = blank_cmp xs ys"
  by (induction xs ys rule: list_induct2) (auto simp: word_less_def sgn_if word_uint_eq_iff)

lemma nonzero_loop_eq:
  "i + k \<le> length xs \<Longrightarrow> nonzero_loop xs i k = Inr (\<exists>x \<in> set (take k (drop i xs)). x \<noteq> 0)"
  by (induction k arbitrary: i) (auto simp: peek_in Cons_nth_drop_Suc [symmetric])

lemma blank_cmp_shorter:
  assumes "length xs \<le> length ys"
  shows "blank_cmp xs ys = (if blank_cmp xs (take (length xs) ys) \<noteq> 0 then blank_cmp xs (take (length xs) ys)
    else if \<exists>y \<in> set (drop (length xs) ys). y \<noteq> 0 then - 1 else 0)"
  using assms blank_cmp_append [of xs "take (length xs) ys" "[]" "drop (length xs) ys"] by (simp add: blank_cmp_Nil)

lemma blank_cmp_longer:
  assumes "length ys \<le> length xs"
  shows "blank_cmp xs ys = (if blank_cmp (take (length ys) xs) ys \<noteq> 0 then blank_cmp (take (length ys) xs) ys
    else if \<exists>x \<in> set (drop (length ys) xs). x \<noteq> 0 then 1 else 0)"
  using assms blank_cmp_append [of "take (length ys) xs" ys "drop (length ys) xs" "[]"] by (simp add: blank_cmp_Nil)

lemma rtlCompareQStrQStr_sgn:
  assumes "qsize llen \<le> length left" "3 * (llen + 1) < 2 ^ 32" "qsize rlen \<le> length right" "3 * (rlen + 1) < 2 ^ 32"
  shows "\<exists>d. rtlCompareQStrQStr llen left rlen right = Inr d \<and>
    sgn d = blank_cmp (take (qsize llen) left) (take (qsize rlen) right)"
proof (cases "qsize llen < qsize rlen")
  case True
  let ?d = "memcmp (take (qsize llen) left) (take (qsize llen) right)"
  have "sgn ?d = blank_cmp (take (qsize llen) left) (take (qsize llen) right)" using assms True by (intro memcmp_sgn) simp
  then show ?thesis
    using True assms blank_cmp_shorter [of "take (qsize llen) left" "take (qsize rlen) right"]
    by (auto simp: rtlCompareQStrQStr_def QStrSize_eq memcmp_iflen_def nonzero_loop_eq Let_def drop_take min_absorb1 min_absorb2 sgn_0_0)
next
  case False
  let ?d = "memcmp (take (qsize rlen) left) (take (qsize rlen) right)"
  have "sgn ?d = blank_cmp (take (qsize rlen) left) (take (qsize rlen) right)" using assms False by (intro memcmp_sgn) simp
  then show ?thesis
    using False assms blank_cmp_longer [of "take (qsize rlen) right" "take (qsize llen) left"]
    by (auto simp: rtlCompareQStrQStr_def QStrSize_eq memcmp_iflen_def nonzero_loop_eq Let_def drop_take min_absorb1 min_absorb2 sgn_0_0)
qed

lemma diff_loop_eq:
  assumes "qsize (i + n) \<le> length xs" "qsize (i + n) \<le> length ys" "3 * (i + n + 1) < 2 ^ 32"
  shows "\<exists>d l r. diff_loop n (rdr xs i) (rdr ys i) = Inr (d, l, r) \<and>
    sgn d = blank_cmp (take n (drop i (unpack xs))) (take n (drop i (unpack ys))) \<and>
    (d = 0 \<longrightarrow> l = rdr xs (i + n) \<and> r = rdr ys (i + n))"
  using assms
proof (induction n arbitrary: i)
  case (Suc n)
  have q: "qsize (i + 1) \<le> length xs" "qsize (i + 1) \<le> length ys" "3 * (i + 1) < 2 ^ 32"
    using Suc.prems qsize_mono [of "i + 1" "i + Suc n"] by auto
  have i: "i < length (unpack xs)" "i < length (unpack ys)"
    using qsize_length_unpack [OF q(1)] qsize_length_unpack [OF q(2)] by auto
  note step = nextQChar_eq [OF q(1,3)] nextQChar_eq [OF q(2,3)] Cons_nth_drop_Suc [OF i(1), symmetric] Cons_nth_drop_Suc [OF i(2), symmetric]
  show ?case
  proof (cases "unpack xs ! i = unpack ys ! i")
    case True
    then show ?thesis using Suc.IH [of "Suc i"] Suc.prems by (simp add: step)
  next
    case False
    then show ?thesis by (auto simp: step word_less_def sgn_if word_uint_eq_iff)
  qed
qed simp

lemma rest_loop_eq:
  assumes "qsize (i + n) \<le> length xs" "3 * (i + n + 1) < 2 ^ 32"
  shows "rest_loop n (rdr xs i) = Inr (\<exists>c \<in> set (take n (drop i (unpack xs))). c \<noteq> 0)"
  using assms
proof (induction n arbitrary: i)
  case (Suc n)
  have q: "qsize (i + 1) \<le> length xs" "3 * (i + 1) < 2 ^ 32" using Suc.prems qsize_mono [of "i + 1" "i + Suc n"] by auto
  have i: "i < length (unpack xs)" using qsize_length_unpack [OF q(1)] by auto
  show ?case using Suc.IH [of "Suc i"] Suc.prems
    by (simp add: nextQChar_eq [OF q] Cons_nth_drop_Suc [OF i, symmetric])
qed simp

lemma rtlSafeCompareQStrQStr_sgn:
  assumes "qsize llen \<le> length left" "3 * (llen + 1) < 2 ^ 32" "qsize rlen \<le> length right" "3 * (rlen + 1) < 2 ^ 32"
  shows "\<exists>d. rtlSafeCompareQStrQStr llen left rlen right = Inr d \<and>
    sgn d = blank_cmp (take llen (unpack left)) (take rlen (unpack right))"
proof -
  let ?l = "take llen (unpack left)" and ?r = "take rlen (unpack right)" and ?n = "min llen rlen"
  have len: "length ?l = llen" "length ?r = rlen" using assms qsize_length_unpack by auto
  have q: "qsize ?n \<le> length left" "qsize ?n \<le> length right" "3 * (?n + 1) < 2 ^ 32"
    using assms qsize_mono [of ?n llen] qsize_mono [of ?n rlen] by auto
  obtain d l r where d: "diff_loop ?n (rdr left 0) (rdr right 0) = Inr (d, l, r)"
    "sgn d = blank_cmp (take ?n (unpack left)) (take ?n (unpack right))" "d = 0 \<longrightarrow> l = rdr left ?n \<and> r = rdr right ?n"
    using diff_loop_eq [of 0 ?n left right] q by auto
  show ?thesis
  proof (cases "rlen \<le> llen")
    case True
    then show ?thesis using d assms len blank_cmp_longer [of ?r ?l] rest_loop_eq [of rlen "llen - rlen" left]
      by (auto simp: rtlSafeCompareQStrQStr_def QStrReader_new_rdr Let_def min_absorb2 drop_take sgn_0_0)
  next
    case False
    then show ?thesis using d assms len blank_cmp_shorter [of ?l ?r] rest_loop_eq [of llen "rlen - llen" right]
      by (auto simp: rtlSafeCompareQStrQStr_def QStrReader_new_rdr Let_def min_absorb1 drop_take sgn_0_0)
  qed
qed

end
