(* ===== verification/Rtlqstr_Range.thy ===== *)
theory Rtlqstr_Range
  imports Rtlqstr_Order
begin

text \<open>
  The builder of six-bit strings, which holds back the bits that do not fill a byte yet, and the lowest and the highest
  key of the range that a comparison of a field selects.
\<close>

section \<open>The builder\<close>

definition bld :: "block \<Rightarrow> 8 word list \<Rightarrow> QStrBuilder" where
  "bld blk cs =
     (let n = 3 * length cs div 4
      in \<lparr>bbuffer = map Some (take n (pack cs)) @ drop n blk, bpos = n, blen = length cs,
          pending = (if length cs mod 4 = 0 then 0 else last (pack cs))\<rparr>)"

lemma QStrBuilder_new_bld: "QStrBuilder_new blk = bld blk []"
  by (simp add: QStrBuilder_new_def bld_def)

lemma list_by_4:
  fixes cs :: "8 word list"
  obtains q us rs where "cs = us @ rs" "length us = 4 * q"
    "rs = [] \<or> (\<exists>x. rs = [x]) \<or> (\<exists>x y. rs = [x, y]) \<or> (\<exists>x y z. rs = [x, y, z])"
proof
  let ?n = "4 * (length cs div 4)"
  show "cs = take ?n cs @ drop ?n cs" "length (take ?n cs) = 4 * (length cs div 4)" by simp_all
  have "length (drop ?n cs) < 4" by simp
  then show "drop ?n cs = [] \<or> (\<exists>x. drop ?n cs = [x]) \<or> (\<exists>x y. drop ?n cs = [x, y]) \<or> (\<exists>x y z. drop ?n cs = [x, y, z])"
    by (cases "drop ?n cs" rule: pack.cases) auto
qed

lemma put_byte_eq:
  "bpos b = length xs \<Longrightarrow> bbuffer b = map Some xs @ drop (length xs) blk \<Longrightarrow> length xs < length blk \<Longrightarrow>
    put_byte v w b = Inr (b\<lparr>bbuffer := map Some (xs @ [v]) @ drop (Suc (length xs)) blk, bpos := Suc (length xs), pending := w\<rparr>)"
  by (simp add: put_byte_def poke_in list_update_append Cons_nth_drop_Suc [symmetric])

lemma appendQChar_eq:
  assumes "3 * (length cs + 1) div 4 \<le> length blk" "length cs + 1 < 2 ^ 32"
  shows "appendQChar c (bld blk cs) = Inr (bld blk (cs @ [c]))"
proof -
  obtain q us rs where p: "cs = us @ rs" "length us = 4 * q"
      "rs = [] \<or> (\<exists>x. rs = [x]) \<or> (\<exists>x y. rs = [x, y]) \<or> (\<exists>x y z. rs = [x, y, z])"
    by (rule list_by_4)
  have us: "length (pack us) = 3 * q" using p(2) by (simp add: qsize_def)
  note app = pack_append [OF p(2)]
  have n: "3 * (4 * q) div 4 = 3 * q" "3 * (4 * q + 1) div 4 = 3 * q" "3 * (4 * q + 2) div 4 = 3 * q + 1"
    "3 * (4 * q + 3) div 4 = 3 * q + 2" "3 * (4 * q + 4) div 4 = 3 * q + 3"
    "(9 + 12 * q) div 4 = 3 * q + 2" by presburger+
  have m: "(4 * q + 1) mod 4 = 1" "(4 * q + 2) mod 4 = 2" "(4 * q + 3) mod 4 = 3" by presburger+
  show ?thesis
    using p(3)
  proof (elim disjE exE)
    assume "rs = []"
    then show ?thesis using p us app n m assms by (simp add: appendQChar_def bld_def Let_def u32_def group_bytes_def)
  next
    fix x assume "rs = [x]"
    then show ?thesis using p us app n m assms put_byte_eq [of "bld blk cs" "pack us" blk]
      by (simp add: appendQChar_def bld_def Let_def u32_def group_bytes_def)
  next
    fix x y assume "rs = [x, y]"
    then show ?thesis using p us app n m assms put_byte_eq [of "bld blk cs" "pack us @ [push_bit 2 x OR drop_bit 4 y]" blk]
      by (simp add: appendQChar_def bld_def Let_def u32_def group_bytes_def)
  next
    fix x y z assume "rs = [x, y, z]"
    moreover have "drop (3 + 3 * q) blk = drop (Suc (Suc (Suc (3 * q)))) blk" by (simp add: numeral_3_eq_3)
    ultimately show ?thesis
      using p us app n m assms put_byte_eq [of "bld blk cs" "pack us @ [push_bit 2 x OR drop_bit 4 y, push_bit 4 y OR drop_bit 2 z]" blk]
      by (simp add: appendQChar_def bld_def Let_def u32_def group_bytes_def)
  qed
qed

lemma appendQCharN_eq:
  assumes "3 * (length cs + n) div 4 \<le> length blk" "length cs + n < 2 ^ 32"
  shows "appendQCharN n c (bld blk cs) = Inr (bld blk (cs @ replicate n c))"
  using assms
proof (induction n arbitrary: cs)
  case (Suc n)
  have "3 * (length cs + 1) div 4 \<le> 3 * (length cs + Suc n) div 4" by (intro div_le_mono) simp
  then have "appendQChar c (bld blk cs) = Inr (bld blk (cs @ [c]))" using Suc.prems by (intro appendQChar_eq) auto
  then show ?case using Suc.IH [of "cs @ [c]"] Suc.prems by simp
qed simp

lemma appendQStr_loop_eq:
  assumes "3 * (length cs + n) div 4 \<le> length blk" "length cs + n < 2 ^ 32"
    "qsize (i + n) \<le> length t" "3 * (i + n + 1) < 2 ^ 32"
  shows "appendQStr_loop n (rdr t i) (bld blk cs) = Inr (bld blk (cs @ take n (drop i (unpack t))))"
  using assms
proof (induction n arbitrary: i cs)
  case (Suc n)
  have q: "qsize (i + 1) \<le> length t" "3 * (i + 1) < 2 ^ 32" using Suc.prems qsize_mono [of "i + 1" "i + Suc n"] by auto
  have i: "i < length (unpack t)" using qsize_length_unpack [OF q(1)] by auto
  have "3 * (length cs + 1) div 4 \<le> 3 * (length cs + Suc n) div 4" by (intro div_le_mono) simp
  then have "appendQChar (unpack t ! i) (bld blk cs) = Inr (bld blk (cs @ [unpack t ! i]))"
    using Suc.prems by (intro appendQChar_eq) auto
  then show ?case using Suc.IH [of "cs @ [unpack t ! i]" "Suc i"] Suc.prems
    by (simp add: nextQChar_eq [OF q] Cons_nth_drop_Suc [OF i, symmetric])
qed simp

lemma appendQStr_eq:
  assumes "3 * (length cs + n) div 4 \<le> length blk" "length cs + n < 2 ^ 32" "qsize n \<le> length t" "3 * (n + 1) < 2 ^ 32"
  shows "appendQStr n t (bld blk cs) = Inr (bld blk (cs @ take n (unpack t)))"
  using appendQStr_loop_eq [of cs n blk 0 t] assms by (simp add: appendQStr_def QStrReader_new_rdr)

lemma builder_finish_eq:
  assumes "length cs \<le> n" "qsize n \<le> length blk" "3 * (n + 1) < 2 ^ 32"
  shows "builder_finish n fill (bld blk cs) = Inr (bld blk (cs @ replicate (Suc n - length cs) (fill AND 0x3f)))"
proof -
  let ?c = "fill AND 0x3f" and ?k = "n - length cs"
  have blen: "blen (bld blk cs) = length cs" by (simp add: bld_def Let_def)
  have "3 * n div 4 \<le> 3 * (n + 1) div 4" by (intro div_le_mono) simp
  then have "appendQCharN ?k ?c (bld blk cs) = Inr (bld blk (cs @ replicate ?k ?c))"
    using assms by (intro appendQCharN_eq) (auto simp: qsize_def)
  moreover have "appendQChar ?c (bld blk (cs @ replicate ?k ?c)) = Inr (bld blk ((cs @ replicate ?k ?c) @ [?c]))"
    using assms by (intro appendQChar_eq) (auto simp: qsize_def)
  moreover have "replicate ?k ?c @ [?c] = replicate (Suc n - length cs) ?c"
    using assms(1) by (simp add: replicate_append_same Suc_diff_le)
  ultimately show ?thesis using blen by (simp add: builder_finish_def)
qed

section \<open>Ranges\<close>

text \<open>The characters that a comparison of \<open>compareLen\<close> characters compares.\<close>

definition range_len :: "nat \<Rightarrow> nat \<Rightarrow> nat" where
  "range_len fieldLen compareLen =
     (if compareLen \<le> fieldLen then compareLen else if compareLen < 2 ^ 31 then fieldLen else 0)"

definition range_bytes :: "nat \<Rightarrow> 8 word list \<Rightarrow> 8 word \<Rightarrow> bytes" where
  "range_bytes n cs fill = take (qsize n) (pack (cs @ replicate (Suc n - length cs) (fill AND 0x3f)))"

lemma rtlCreateQStrRange_eq:
  assumes "3 * (fieldLen + 1) < 2 ^ 32" "qsize len \<le> length qstr"
  shows "rtlCreateQStrRange fieldLen compareLen len qstr fill =
    Inr (fieldLen, map Some
      (if len \<le> fieldLen then range_bytes fieldLen (fit (range_len fieldLen compareLen) 0 (take len (unpack qstr))) fill
       else range_bytes fieldLen [] (if fill = 0 then 255 else 0)))"
proof -
  let ?blk = "malloc (QStrSize fieldLen)" and ?m = "range_len fieldLen compareLen"
  have blk: "length ?blk = qsize fieldLen" using assms by (simp add: malloc_def QStrSize_eq)
  have fin: "res_bind (builder_finish fieldLen f (bld ?blk cs)) (\<lambda>b. Inr (fieldLen, bbuffer b)) =
      Inr (fieldLen, map Some (range_bytes fieldLen cs f))" if "length cs \<le> fieldLen" for cs f
    using that assms(1) blk by (simp add: builder_finish_eq) (simp add: bld_def Let_def range_bytes_def qsize_def)
  have room: "3 * k div 4 \<le> length ?blk" if "k \<le> fieldLen" for k
    unfolding blk qsize_def using that by (intro div_le_mono) simp
  have m: "?m \<le> fieldLen" by (simp add: range_len_def)
  have len: "qsize k \<le> length qstr" "k \<le> length (unpack qstr)" if "k \<le> len" for k
    using that assms(2) qsize_mono [OF that] qsize_length_unpack [of k qstr] by auto
  have build: "(if len \<ge> k then appendQStr k qstr (QStrBuilder_new ?blk)
      else res_bind (appendQStr len qstr (QStrBuilder_new ?blk)) (appendCharN (k - len) 0x20)) =
      Inr (bld ?blk (fit k 0 (take len (unpack qstr))))" if "k \<le> fieldLen" for k
  proof (cases "len \<ge> k")
    case True
    then show ?thesis using that assms(1) len room [of k] by (simp add: QStrBuilder_new_bld appendQStr_eq fit_def)
  next
    case False
    have "compressQChar 0x20 = 0" by (simp add: compressQChar_def compressXlat_def)
    with False show ?thesis using that assms(1) len room [of len] room [of k]
      by (simp add: QStrBuilder_new_bld appendQStr_eq appendCharN_def appendQCharN_eq fit_def)
  qed
  have "rtlCreateQStrRange fieldLen compareLen len qstr fill =
      res_bind (if len \<ge> k then appendQStr k qstr (QStrBuilder_new ?blk)
        else res_bind (appendQStr len qstr (QStrBuilder_new ?blk)) (appendCharN (k - len) 0x20))
      (\<lambda>b. res_bind (builder_finish fieldLen f b) (\<lambda>b. Inr (fieldLen, bbuffer b)))"
    if "(k, f) = (if len > fieldLen then (0, if fill = 0 then 255 else 0) else (?m, fill))" for k f
  proof -
    have "(if compareLen > fieldLen then if compareLen < 2 ^ 31 then fieldLen else 0 else compareLen) = ?m"
      by (simp add: range_len_def)
    then show ?thesis unfolding rtlCreateQStrRange_def Let_def that [symmetric] by (simp only: that [symmetric] prod.case)
  qed
  note range = this
  show ?thesis
  proof (cases "len \<le> fieldLen")
    case True
    then show ?thesis using range [of ?m fill] build [OF m] fin [of "fit ?m 0 (take len (unpack qstr))" fill] m by simp
  next
    case False
    have "fit 0 0 (take len (unpack qstr)) = []" by (simp add: fit_def)
    with False show ?thesis
      using range [of 0 "if fill = 0 then 255 else 0"] build [of 0] fin [of "[]" "if fill = 0 then 255 else 0"] by simp
  qed
qed

lemma length_range_bytes: "length cs \<le> n \<Longrightarrow> length (range_bytes n cs f) = qsize n"
  using qsize_mono [of n "Suc n"] by (simp add: range_bytes_def min_absorb2)

text \<open>The characters of a key are followed by what is left of the last byte.\<close>

lemma unpack_range_bytes:
  assumes "length cs \<le> n" "\<forall>c \<in> set cs. c < 64"
  shows "\<exists>ws. unpack (range_bytes n cs f) = (cs @ replicate (n - length cs) (f AND 0x3f)) @ ws \<and> (f = 0 \<longrightarrow> (\<forall>w \<in> set ws. w = 0))"
proof -
  let ?z = "f AND 0x3f" and ?ds = "cs @ replicate (n - length cs) (f AND 0x3f)"
  have ds: "cs @ replicate (Suc n - length cs) ?z = ?ds @ [?z]"
    using assms(1) by (simp add: Suc_diff_le replicate_append_same [symmetric])
  have n: "length ?ds = n" using assms(1) by simp
  have small: "\<forall>c \<in> set (?ds @ [?z]). c < 64" using assms(2) and_63_less by auto
  show ?thesis
  proof (cases "f = 0")
    case True
    then have "range_bytes n cs f = pack ?ds"
      unfolding range_bytes_def ds using n pack_zeros [of "[?z]" ?ds] by simp
    then show ?thesis using unpack_pack [of ?ds] small by auto
  next
    case False
    have "take n (unpack (range_bytes n cs f)) = take n (unpack (pack (?ds @ [?z])))"
      unfolding range_bytes_def ds using take_unpack [of n "pack (?ds @ [?z])"] n qsize_mono [of n "Suc n"] by simp
    also have "\<dots> = ?ds" using unpack_pack [OF small] n by auto
    finally show ?thesis using False by (metis append_take_drop_id)
  qed
qed

lemma blank_cmp_zeros_le: "\<forall>z \<in> set zs. z = 0 \<Longrightarrow> blank_cmp zs ys \<le> 0"
  by (simp add: blank_cmp_all_0 blank_cmp_Nil)

lemma less_63: "x < 64 \<Longrightarrow> x \<noteq> 63 \<Longrightarrow> x < 63" for x :: "8 word"
proof -
  assume "x < 64" "x \<noteq> 63"
  moreover have "x \<le> 63 \<longleftrightarrow> x < 64" by (simp add: word_less_nat_alt word_le_nat_alt) arith
  ultimately show "x < 63" by simp
qed

lemma blank_cmp_63_le: "\<forall>x \<in> set xs. x < 64 \<Longrightarrow> blank_cmp xs (replicate (length xs) 63) \<le> 0"
  by (induction xs) (auto dest: less_63)

lemma memcmp_pack:
  assumes "length xs = qsize (length fs)" "\<forall>c \<in> set fs. c < 64"
  shows "sgn (memcmp xs (pack fs)) = blank_cmp (unpack xs) fs" "sgn (memcmp (pack fs) xs) = blank_cmp fs (unpack xs)"
proof -
  obtain k where k: "unpack (pack fs) = fs @ replicate k 0" using unpack_pack [OF assms(2)] by auto
  then show "sgn (memcmp xs (pack fs)) = blank_cmp (unpack xs) fs"
    using assms(1) memcmp_sgn [of xs "pack fs"] blank_cmp_unpack [of xs "pack fs"] by (simp add: blank_cmp_zeros_right)
  show "sgn (memcmp (pack fs) xs) = blank_cmp fs (unpack xs)"
    using k assms(1) memcmp_sgn [of "pack fs" xs] blank_cmp_unpack [of "pack fs" xs] by (simp add: blank_cmp_zeros)
qed

lemma sgn_le_0: "sgn (x :: int) \<le> 0 \<longleftrightarrow> x \<le> 0"
  by (simp add: sgn_if)

text \<open>A key is between the ends of a range exactly when it begins with the characters of the range.\<close>

lemma range_low_le:
  assumes "length cs \<le> n" "\<forall>c \<in> set cs. c < 64" "length fs = n" "\<forall>c \<in> set fs. c < 64"
  shows "memcmp (range_bytes n cs 0) (pack fs) \<le> 0 \<longleftrightarrow> blank_cmp cs (take (length cs) fs) \<le> 0"
proof -
  let ?zs = "replicate (n - length cs) (0 :: 8 word)" and ?m = "length cs"
  obtain ws where ws: "unpack (range_bytes n cs 0) = (cs @ ?zs) @ ws" "\<forall>w \<in> set ws. w = 0"
    using unpack_range_bytes [OF assms(1,2), of 0] by auto
  have "sgn (memcmp (range_bytes n cs 0) (pack fs)) = blank_cmp (cs @ ?zs) (take ?m fs @ drop ?m fs)"
    using memcmp_pack(1) [of "range_bytes n cs 0" fs] assms length_range_bytes ws(1) blank_cmp_zeros [OF ws(2), of "cs @ ?zs" fs] by simp
  also have "\<dots> = (if blank_cmp cs (take ?m fs) \<noteq> 0 then blank_cmp cs (take ?m fs) else blank_cmp ?zs (drop ?m fs))"
    using assms(1,3) by (intro blank_cmp_append) simp
  finally show ?thesis using blank_cmp_zeros_le [of ?zs "drop ?m fs"] sgn_le_0 by (metis in_set_replicate order_refl)
qed

lemma range_high_ge:
  assumes "length cs \<le> n" "\<forall>c \<in> set cs. c < 64" "length fs = n" "\<forall>c \<in> set fs. c < 64"
  shows "memcmp (pack fs) (range_bytes n cs 255) \<le> 0 \<longleftrightarrow> blank_cmp (take (length cs) fs) cs \<le> 0"
proof -
  let ?zs = "replicate (n - length cs) (63 :: 8 word)" and ?m = "length cs"
  obtain ws where ws: "unpack (range_bytes n cs 255) = cs @ ?zs @ ws"
    using unpack_range_bytes [OF assms(1,2), of 255] by auto
  have le: "blank_cmp (drop ?m fs) ?zs \<le> 0"
    using blank_cmp_63_le [of "drop ?m fs"] assms(3,4) by (auto dest: in_set_dropD)
  have "blank_cmp (drop ?m fs @ []) (?zs @ ws) \<le> 0"
    using le blank_cmp_append [of "drop ?m fs" ?zs "[]" ws] assms(3) blank_cmp_zeros_le [of "[]" ws] by simp
  moreover have "sgn (memcmp (pack fs) (range_bytes n cs 255)) = blank_cmp (take ?m fs @ drop ?m fs) (cs @ ?zs @ ws)"
    using memcmp_pack(2) [of "range_bytes n cs 255" fs] assms length_range_bytes ws by simp
  then have "sgn (memcmp (pack fs) (range_bytes n cs 255)) =
      (if blank_cmp (take ?m fs) cs \<noteq> 0 then blank_cmp (take ?m fs) cs else blank_cmp (drop ?m fs) (?zs @ ws))"
    using assms(1,3) blank_cmp_append [of "take ?m fs" cs "drop ?m fs" "?zs @ ws"] by simp
  ultimately show ?thesis using sgn_le_0 by (metis append_Nil2 order_refl)
qed

lemma range_selects:
  assumes "length cs \<le> n" "\<forall>c \<in> set cs. c < 64" "length fs = n" "\<forall>c \<in> set fs. c < 64"
  shows "memcmp (range_bytes n cs 0) (pack fs) \<le> 0 \<and> memcmp (pack fs) (range_bytes n cs 255) \<le> 0 \<longleftrightarrow> take (length cs) fs = cs"
  unfolding range_low_le [OF assms] range_high_ge [OF assms]
  using blank_cmp_commute [of cs "take (length cs) fs"] blank_cmp_eq_0 [of "take (length cs) fs" cs] assms(1,3) by auto

text \<open>The ends of the empty range are the wrong way round.\<close>

lemma range_empty:
  assumes "length fs = n" "0 < n" "\<forall>c \<in> set fs. c < 64"
  shows "\<not> (memcmp (range_bytes n [] 255) (pack fs) \<le> 0 \<and> memcmp (pack fs) (range_bytes n [] 0) \<le> 0)"
proof
  assume both: "memcmp (range_bytes n [] 255) (pack fs) \<le> 0 \<and> memcmp (pack fs) (range_bytes n [] 0) \<le> 0"
  obtain f fs' k where f: "fs = f # fs'" "n = Suc k" using assms(1,2) by (cases fs; cases n) auto
  obtain ws vs where w: "unpack (range_bytes n [] 255) = replicate n 63 @ ws" "unpack (range_bytes n [] 0) = replicate n 0 @ vs"
    using unpack_range_bytes [of "[]" n 255] unpack_range_bytes [of "[]" n 0] by auto
  have "blank_cmp (replicate n 63 @ ws) fs \<le> 0" "blank_cmp fs (replicate n 0 @ vs) \<le> 0"
    using both memcmp_pack(1) [of "range_bytes n [] 255" fs] memcmp_pack(2) [of "range_bytes n [] 0" fs] assms(1,3) w
      sgn_le_0 [of "memcmp (range_bytes n [] 255) (pack fs)"] sgn_le_0 [of "memcmp (pack fs) (range_bytes n [] 0)"]
    by (simp_all add: length_range_bytes)
  then show False using f by (auto split: if_splits)
qed

end
