(* ===== verification/Rtlqstr_Sub.thy ===== *)
theory Rtlqstr_Sub
  imports Rtlqstr_Proofs
begin

text \<open>
  The table of characters, and substrings of six-bit strings, which are copied by whole bytes where they begin with a
  group and through a text where they do not.
\<close>

section \<open>Characters\<close>

lemma replicate_numeral: "replicate (numeral k) x = x # replicate (pred_numeral k) x"
  by (simp add: numeral_eq_Suc)

lemma compressXlat_parts:
  "compressXlat = replicate 33 0 @ map (\<lambda>k. of_nat (k - 32)) [33..<96] @ [0] @ map (\<lambda>k. of_nat (k - 64)) [97..<123] @ replicate 133 0"
  by (simp add: compressXlat_def upt_rec_numeral replicate_numeral)

lemma compressXlat_nth:
  assumes "i < 256"
  shows "compressXlat ! i = (if 32 < i \<and> i < 96 then of_nat (i - 32) else if 96 < i \<and> i < 123 then of_nat (i - 64) else 0)"
proof -
  consider "i \<le> 32" | "32 < i" "i < 96" | "i = 96" | "96 < i" "i < 123" | "123 \<le> i" by linarith
  then show ?thesis
    using assms unfolding compressXlat_parts by cases (simp_all add: nth_append nth_Cons' del: upt_rec_numeral of_nat_diff, arith+)
qed

lemma compressQChar_eq: "compressQChar c = compressQChar_else c"
proof -
  have c: "unat c < 256" using unsigned_less [where 'a = nat, of c] by simp
  have sub: "of_nat (unat c - k) = c - of_nat k" if "k \<le> unat c" for k
    using that by (simp add: of_nat_diff)
  show ?thesis
    unfolding compressQChar_def compressXlat_nth [OF c] compressQChar_else_def
    using sub [of 32] sub [of 64] by (auto simp: word_less_nat_alt word_le_nat_alt)
qed

lemma compressQChar_less: "compressQChar c < 64"
proof -
  have c: "unat c < 256" using unsigned_less [where 'a = nat, of c] by simp
  show ?thesis unfolding compressQChar_def compressXlat_nth [OF c]
    by (auto simp: word_less_nat_alt unat_of_nat simp del: of_nat_diff)
qed

lemma unat_32: "unat c = 32 \<Longrightarrow> c = 0x20" for c :: "8 word"
  by (rule unsigned_word_eqI [where 'a = nat]) simp

lemma expand_0 [simp]: "expandQChar 0 = 0x20" "compressQChar 0x20 = 0"
  by (simp_all add: expandQChar_def compressQChar_eq compressQChar_else_def)

lemma compress_expand: "c < 64 \<Longrightarrow> compressQChar (expandQChar c) = c"
proof -
  assume "c < 64"
  then have u: "unat c < 64" by (simp add: word_less_nat_alt)
  then have "unat (0x20 + c) = 32 + unat c" by (simp add: unat_word_ariths)
  with u show ?thesis
    by (auto simp: compressQChar_def expandQChar_def compressXlat_nth word_eq_iff_unsigned unat_of_nat unat_eq_0 simp del: of_nat_diff)
qed

section \<open>Substrings\<close>

lemma mask_last:
  "pack [drop_bit 2 a] = [a AND 0xfc]"
  "pack [drop_bit 2 a, push_bit 4 (a AND 0x3) OR drop_bit 4 b] = [a, b AND 0xf0]"
  "pack [drop_bit 2 a, push_bit 4 (a AND 0x3) OR drop_bit 4 b, push_bit 2 (b AND 0xf) OR drop_bit 6 c] = [a, b, c AND 0xc0]"
  unfolding masks
  by (simp add: group_bytes_def; intro conjI byte_eqI; simp add: byte_bits)+

lemma pack_unpack_groups: "length xs = 3 * q \<Longrightarrow> pack (unpack xs) = xs"
proof (induction q arbitrary: xs)
  case (Suc q)
  then obtain a b c ys where "xs = a # b # c # ys" "length ys = 3 * q" by (cases xs rule: unpack.cases) auto
  with Suc.IH [of ys] show ?case using group_bytes_chars [of a b c] by (simp add: group_chars_def)
qed simp

text \<open>The bytes of \<open>n\<close> characters, with nothing behind them.\<close>

lemma pack_take_unpack:
  assumes "length xs = qsize n"
  shows "pack (take n (unpack xs)) =
    (if n mod 4 = 0 then xs else xs[qsize n - 1 := xs ! (qsize n - 1) AND lastQStrByteMask n])"
proof -
  let ?q = "n div 4" and ?r = "n mod 4"
  let ?us = "take (3 * ?q) xs" and ?ys = "drop (3 * ?q) xs"
  have r: "?r = 0 \<or> ?r = 1 \<or> ?r = 2 \<or> ?r = 3" by linarith
  have "3 * (n + 1) = 3 * ?r + 3 + 4 * (3 * ?q)" using div_mult_mod_eq [of n 4] by (simp only: distrib_left)
  then have q: "qsize n = 3 * ?q + ?r" unfolding qsize_def using r by (elim disjE) simp_all
  have us: "length ?us = 3 * ?q" "length (unpack ?us) = 4 * ?q" "length ?ys = ?r" using assms q by (simp_all add: length_unpack)
  have "take n (unpack xs) = unpack ?us @ take ?r (unpack ?ys)"
    using unpack_append [OF us(1), of ?ys] us(2) by (simp add: minus_mult_div_eq_mod [of n 4] take_append)
  then have p: "pack (take n (unpack xs)) = ?us @ pack (take ?r (unpack ?ys))"
    using pack_append [OF us(2)] pack_unpack_groups [OF us(1)] by simp
  have upd: "(us @ ys)[length us + k := (us @ ys) ! (length us + k) AND m] = us @ ys[k := ys ! k AND m]" for us ys :: bytes and k m
    by (simp add: list_update_append)
  have last: "xs[qsize n - 1 := xs ! (qsize n - 1) AND m] = ?us @ ?ys[?r - 1 := ?ys ! (?r - 1) AND m]" if "?r \<noteq> 0" for m
  proof -
    have "qsize n - 1 = length ?us + (?r - 1)" unfolding us(1) q using that by simp
    then show ?thesis using upd [of ?us ?ys "?r - 1" m] by (simp only: append_take_drop_id)
  qed
  consider "?r = 0" | a where "?r = 1" "?ys = [a]" | a b where "?r = 2" "?ys = [a, b]" | a b c where "?r = 3" "?ys = [a, b, c]"
    using r us(3) by (cases ?ys rule: unpack.cases) auto
  then show ?thesis
  proof cases
    case 1
    then show ?thesis using p us(3) by simp
  next
    case 2
    then show ?thesis using p last mask_last(1) by (simp add: lastQStrByteMask_def group_chars_def)
  next
    case 3
    then show ?thesis using p last mask_last(2) by (simp add: lastQStrByteMask_def group_chars_def)
  next
    case 4
    then show ?thesis using p last mask_last(3) by (simp add: lastQStrByteMask_def group_chars_def)
  qed
qed

lemma rtlQStrToQStr_eq:
  assumes "3 * (n + 1) < 2 ^ 32" "3 * (m + 1) < 2 ^ 32" "n \<le> m" "qsize n \<le> length xs" "qsize m \<le> length tgt"
  shows "rtlQStrToQStr m tgt n xs = Inr (map Some (take (qsize n) xs @ replicate (qsize m - qsize n) 0) @ drop (qsize m) tgt)"
proof -
  have "QStrSize n = qsize n" "QStrSize m = qsize m" "qsize n \<le> qsize m" using QStrSize_eq assms qsize_mono by auto
  then show ?thesis using assms(4,5)
    by (auto simp: rtlQStrToQStr_def Let_def copy_mem_def memset_def store_block_in)
qed

lemma load_written: "n \<le> length xs \<Longrightarrow> load_bytes (map Some xs @ rest) 0 n = Inr (take n xs)"
  by (auto simp: load_bytes_def take_map comp_def)

lemma u32_diff: "f \<le> t \<Longrightarrow> t < 2 ^ 32 \<Longrightarrow> u32 (t + 2 ^ 32 - f) = t - f"
proof -
  assume *: "f \<le> t" "t < 2 ^ 32"
  then have e: "t + 2 ^ 32 - f = (t - f) + 2 ^ 32" by simp
  show ?thesis unfolding u32_def e mod_add_self2 using * by simp
qed

lemma load_byte: "k < length b \<Longrightarrow> b ! k = Some x \<Longrightarrow> load_bytes b k 1 = Inr [x]"
  by (simp add: load_bytes_def take_Suc_conv_app_nth Cons_nth_drop_Suc [symmetric])

lemma drop_unpack: "3 * q \<le> length xs \<Longrightarrow> drop (4 * q) (unpack xs) = unpack (drop (3 * q) xs)"
  using unpack_append [of "take (3 * q) xs" q "drop (3 * q) xs"] by (simp add: length_unpack)

text \<open>Bytes copied from the beginning of a group, with the last one masked.\<close>

lemma copyQStrRange_group:
  assumes "f mod 4 = 0" "f \<le> t" "t - f \<le> m" "3 * (m + 1) < 2 ^ 32" "3 * (t + 1) < 2 ^ 32" "qsize t \<le> length src" "qsize m \<le> length tgt"
  shows "copyQStrRange m tgt src f t = Inr (map Some (pack (fit m 0 (take (t - f) (drop f (unpack src))))) @ drop (qsize m) tgt)"
proof -
  obtain q where q: "f = 4 * q" using assms(1) by auto
  define n where "n = t - f"
  have t: "t = 4 * q + n" using assms(2) q by (simp add: n_def)
  define xs where "xs = take (qsize n) (drop (3 * q) src)"
  define zs where "zs = replicate (qsize m - qsize n) (0 :: 8 word)"
  have nm: "n \<le> m" "3 * (n + 1) < 2 ^ 32" "3 * (f + 1) < 2 ^ 32" using assms(2,3,4,5) by (simp_all add: n_def)
  have sizes: "QStrSize f = 3 * q" "QStrSize n = qsize n" "qsize t = 3 * q + qsize n" "qsize n \<le> qsize m"
    using QStrSize_eq [OF nm(2)] QStrSize_eq [OF nm(3)] t q qsize_groups [of q 0] qsize_groups [of q n] qsize_mono [OF nm(1)] by simp_all
  have xs: "length xs = qsize n" "take n (unpack xs) = take n (drop f (unpack src))"
    using sizes assms(6) q take_unpack [of n "drop (3 * q) src"] drop_unpack [of q src] by (simp_all add: xs_def)
  have "length (take n (unpack xs)) = n" using qsize_length_unpack [of n xs] xs(1) by simp
  then have pack: "pack (fit m 0 (take n (drop f (unpack src)))) = pack (take n (unpack xs)) @ zs"
    using pack_zeros [of "replicate (m - n) 0" "take n (unpack xs)"] nm(1) unfolding xs(2) [symmetric] fit_def zs_def
    by (simp del: length_take)
  have copylen: "u32 (t + 2 ^ 32 - f) = n" using u32_diff [of f t] assms(2,5) by (simp add: n_def)
  have copied: "rtlQStrToQStr m tgt n (drop (3 * q) src) = Inr (map Some (xs @ zs) @ drop (qsize m) tgt)"
    using rtlQStrToQStr_eq [of n m "drop (3 * q) src" tgt] assms sizes by (simp add: n_def xs_def zs_def)
  show ?thesis
  proof (cases "n mod 4 = 0")
    case True
    then show ?thesis using pack_take_unpack [OF xs(1)] pack copied copylen sizes assms(1)
      by (simp add: copyQStrRange_def n_def [symmetric])
  next
    case False
    then have k: "qsize n - 1 < length xs" using xs(1) qsize_mono [of 1 n] by (cases n) auto
    let ?b = "map Some (xs @ zs) @ drop (qsize m) tgt"
    have "load_bytes ?b (qsize n - 1) 1 = Inr [xs ! (qsize n - 1)]" using k by (intro load_byte) (simp_all add: nth_append)
    moreover have "poke ?b (qsize n - 1) v = Inr (map Some (xs[qsize n - 1 := v] @ zs) @ drop (qsize m) tgt)" for v
      using k by (simp add: poke_in list_update_append map_update)
    ultimately show ?thesis using False pack_take_unpack [OF xs(1)] pack copied copylen sizes assms(1)
      by (simp add: copyQStrRange_def n_def [symmetric] Let_def)
  qed
qed

lemma copyQStrRange_eq:
  assumes "f \<le> t" "t - f \<le> m" "3 * (m + 1) < 2 ^ 32" "3 * (t + 1) < 2 ^ 32" "qsize t \<le> length src" "qsize m \<le> length tgt"
  shows "copyQStrRange m tgt src f t = Inr (map Some (pack (fit m 0 (take (t - f) (drop f (unpack src))))) @ drop (qsize m) tgt)"
proof (cases "f mod 4 = 0")
  case True
  then show ?thesis using copyQStrRange_group assms by simp
next
  case False
  have copylen: "u32 (t + 2 ^ 32 - f) = t - f" "u32 (f + (t - f)) = t"
    using u32_diff [of f t] assms(1,4) by (simp_all add: u32_def)
  have len: "t \<le> length (unpack src)" using qsize_length_unpack [OF assms(5)] .
  show ?thesis
  proof (cases "t - f = 0")
    case True
    then show ?thesis using False copylen assms pack_all_0 [of "replicate m 0"]
      by (simp add: copyQStrRange_def memset_def store_block_in QStrSize_eq fit_def)
  next
    case n: False
    let ?cs = "map expandQChar (take t (unpack src))"
    have str: "rtlQStrToStrX t src = Inr (t, map Some ?cs)"
      using rtlQStrToStr_eq [of t "malloc t" t src] assms(5) len by (simp add: rtlQStrToStrX_def malloc_def fit_def)
    have load: "load_bytes (map Some ?cs) 0 t = Inr ?cs" using load_written [of t ?cs "[]"] len by simp
    have "map compressQChar (take (t - f) (drop f ?cs)) = take (t - f) (drop f (unpack src))"
    proof -
      have "map compressQChar ?cs = take t (unpack src)"
        using unpack_less [of _ src] by (auto intro!: map_idI simp: compress_expand dest: in_set_takeD)
      then show ?thesis by (simp only: take_map [symmetric] drop_map [symmetric]) (simp add: drop_take)
    qed
    then show ?thesis using False n copylen str load assms(1,2,3,6) len rtlStrToQStr_eq [of m tgt "t - f" "drop f ?cs"]
      by (simp add: copyQStrRange_def Let_def)
  qed
qed

lemma s32_small: "x < 2 ^ 31 \<Longrightarrow> s32 x = int x"
  by (simp add: s32_def)

lemma normalizeFromTo_eq:
  assumes "1 \<le> f" "f \<le> t + 1" "t < 2 ^ 31 - 1"
  shows "normalizeFromTo f t = (f - 1, t)"
proof -
  have "u32 (f + 2 ^ 32 - 1) = f - 1" using u32_diff [of 1 f] assms by simp
  then show ?thesis using assms by (simp add: normalizeFromTo_def s32_small)
qed

lemma normalizeFrom_eq:
  assumes "1 \<le> f" "f < 2 ^ 31"
  shows "normalizeFrom f n = min (f - 1) n"
proof -
  have "u32 (f + 2 ^ 32 - 1) = f - 1" using u32_diff [of 1 f] assms by simp
  then show ?thesis using assms by (auto simp add: normalizeFrom_def s32_small Let_def)
qed

lemma take_drop_clip:
  assumes "n \<le> length xs"
  shows "take (min t n - min (f - 1) n) (drop (min (f - 1) n) xs) = drop (f - 1) (take (min t n) xs)"
  using assms by (cases "f - 1 \<le> n") (simp_all add: drop_take min_def)

end
