(* ===== verification/Rtlqstr_Theorems.thy ===== *)
theory Rtlqstr_Theorems
  imports Rtlqstr_Range Rtlqstr_Sub Jbuff_Theorems
begin

text \<open>
  The theorems on six-bit strings: what survives the way through one, that the comparison of bytes is the comparison
  of characters on well-formed strings and not on others, counting, the ranges of keys, and serialisation.
\<close>

section \<open>Conversion\<close>

text \<open>
  A six-bit string of \<open>n\<close> characters is well formed when it has the bytes they need and no bit set behind them. Each of
  its characters then is a number below 64.
\<close>

definition qstr_wf :: "nat \<Rightarrow> bytes \<Rightarrow> bool" where
  "qstr_wf n xs \<longleftrightarrow> length xs = QStrSize n \<and> (\<forall>c \<in> set (drop n (unpack xs)). c = 0)"

lemma qstr_wf_pack:
  assumes "3 * (length cs + 1) < 2 ^ 32" "\<forall>c \<in> set cs. c < 64"
  shows "qstr_wf (length cs) (pack cs)" "take (length cs) (unpack (pack cs)) = cs"
proof -
  obtain k where k: "unpack (pack cs) = cs @ replicate k 0" using unpack_pack [OF assms(2)] by auto
  then show "take (length cs) (unpack (pack cs)) = cs" by simp
  show "qstr_wf (length cs) (pack cs)" using k QStrSize_eq [OF assms(1)] by (auto simp: qstr_wf_def)
qed

lemma fit_less: "\<forall>c \<in> set cs. c < 64 \<Longrightarrow> \<forall>c \<in> set (fit n 0 cs). c < (64 :: 8 word)"
  by (auto simp: fit_def dest: in_set_takeD)

lemma compressed_less: "\<forall>c \<in> set (fit n 0 (map compressQChar cs)). c < 64"
  by (rule fit_less) (auto simp: compressQChar_less)

text \<open>C16. A text survives the way through a six-bit string with its lower case letters in upper case and every character that
  a six-bit string cannot hold as a blank; it is cut or padded with blanks to the length of the string and then to the
  length of the text it is written to. Neither function reads or writes out of range, and the bytes behind what they
  write stay as they are. Characters from the blank to the underscore stay as they are.\<close>

theorem qstr_roundtrip:
  assumes "3 * (n + 1) < 2 ^ 32" "QStrSize n \<le> length out" "min inlen n \<le> length src" "outlen \<le> length out2"
  shows "\<exists>xs. rtlStrToQStr n out inlen src = Inr (map Some xs @ drop (QStrSize n) out) \<and>
    rtlQStrToStr outlen out2 n xs =
      Inr (map Some (fit outlen 0x20 (map (\<lambda>c. expandQChar (compressQChar c)) (fit n 0x20 (take inlen src)))) @ drop outlen out2) \<and>
    (\<forall>c. expandQChar (compressQChar c) =
      (if 0x20 \<le> c \<and> c < 0x60 then c else if 0x61 \<le> c \<and> c \<le> 0x7a then c - 0x20 else 0x20))"
proof (intro exI conjI allI)
  let ?cs = "fit n 0 (map compressQChar (take inlen src))"
  have q: "QStrSize n = qsize n" using QStrSize_eq [OF assms(1)] .
  show "rtlStrToQStr n out inlen src = Inr (map Some (pack ?cs) @ drop (QStrSize n) out)"
    using rtlStrToQStr_eq [OF assms(1) _ assms(3)] assms(2) q by simp
  have "take n (unpack (pack ?cs)) = ?cs" using qstr_wf_pack(2) [of ?cs] assms(1) compressed_less by simp
  then have "rtlQStrToStr outlen out2 n (pack ?cs) = Inr (map Some (fit outlen 0x20 (map expandQChar ?cs)) @ drop outlen out2)"
    using rtlQStrToStr_eq [of outlen out2 n "pack ?cs"] assms(4) qsize_mono [of "min n outlen" n] by simp
  then show "rtlQStrToStr outlen out2 n (pack ?cs) =
      Inr (map Some (fit outlen 0x20 (map (\<lambda>c. expandQChar (compressQChar c)) (fit n 0x20 (take inlen src)))) @ drop outlen out2)"
    by (simp add: map_fit comp_def)
  show "expandQChar (compressQChar c) =
      (if 0x20 \<le> c \<and> c < 0x60 then c else if 0x61 \<le> c \<and> c \<le> 0x7a then c - 0x20 else 0x20)" for c
    unfolding compressQChar_eq expandQChar_def compressQChar_else_def
    by (auto simp: word_less_nat_alt word_le_nat_alt dest: unat_32)
qed

theorem qstr_roundtrip_witness:
  "rtlStrToQStr 3 (malloc 4) 2 [0x61, 0x42] = Inr [Some 0x86, Some 0x20, Some 0, None] \<and>
   rtlQStrToStr 4 (malloc 4) 3 [0x86, 0x20, 0] = Inr [Some 0x41, Some 0x42, Some 0x20, Some 0x20]"
proof -
  have size: "QStrSize 3 = 3" by (simp add: QStrSize_def u32_def)
  have out: "rtlStrToQStr 3 (malloc 4) 2 [0x61, 0x42] = Inr [Some 0x86, Some 0x20, Some 0, None]" by code_simp
  obtain xs where xs: "rtlStrToQStr 3 (malloc 4) 2 [0x61, 0x42] = Inr (map Some xs @ drop (QStrSize 3) (malloc 4))"
      "rtlQStrToStr 4 (malloc 4) 3 xs =
        Inr (map Some (fit 4 0x20 (map (\<lambda>c. expandQChar (compressQChar c)) (fit 3 0x20 (take 2 [0x61, 0x42])))) @ drop 4 (malloc 4))"
      "expandQChar (compressQChar 0x61) = 0x41" "expandQChar (compressQChar 0x42) = 0x42"
    using qstr_roundtrip [of 3 "malloc 4" 2 "[0x61, 0x42]" 4 "malloc 4"] size by (auto simp: malloc_def)
  have "xs = [0x86, 0x20, 0]" using xs(1) out size by (auto simp add: malloc_def numeral_eq_Suc map_eq_Cons_conv)
  with xs(2-4) out show ?thesis by (simp add: fit_def malloc_def)
qed

lemma take_all_0: "\<forall>z \<in> set zs. z = (0 :: 8 word) \<Longrightarrow> k \<le> length zs \<Longrightarrow> take k zs = replicate k 0"
  by (intro replicate_eqI) (auto dest: in_set_takeD)

lemma widen_correct:
  assumes "3 * (n + 1) < 2 ^ 32" "qstr_wf n xs" "n \<le> m" "3 * (m + 1) < 2 ^ 32"
  shows "\<exists>ys. rtlQStrToQStr m (malloc (QStrSize m)) n xs = Inr (map Some ys) \<and> qstr_wf m ys \<and>
    take m (unpack ys) = fit m 0 (take n (unpack xs))"
proof -
  let ?ys = "xs @ replicate (qsize m - qsize n) 0"
  have q: "QStrSize n = qsize n" "QStrSize m = qsize m" "qsize n \<le> qsize m" using QStrSize_eq assms qsize_mono by auto
  have xs: "length xs = qsize n" "\<forall>c \<in> set (drop n (unpack xs)). c = 0" using assms(2) q by (auto simp: qstr_wf_def)
  obtain ws where ws: "unpack ?ys = unpack xs @ ws" "\<forall>w \<in> set ws. w = 0" using unpack_zeros [of "replicate (qsize m - qsize n) 0" xs] by auto
  let ?cs = "take n (unpack xs)" and ?zs = "drop n (unpack xs) @ ws"
  have split: "unpack ?ys = ?cs @ ?zs" "\<forall>z \<in> set ?zs. z = 0" using ws xs(2) by auto
  have cs: "length ?cs = n" using qsize_length_unpack [of n xs] xs(1) by simp
  have "m \<le> length (unpack ?ys)" using qsize_length_unpack [of m ?ys] xs(1) q(3) by simp
  then have "m - n \<le> length ?zs" unfolding split(1) length_append cs by simp
  from take_all_0 [OF split(2) this] have "take m (unpack ?ys) = fit m 0 ?cs" using split(1) cs assms(3) by (simp add: fit_def)
  moreover have "drop m (unpack ?ys) = drop (m - n) ?zs" unfolding split(1) drop_append cs using assms(3) by simp
  then have "qstr_wf m ?ys" using split(2) xs(1) q unfolding qstr_wf_def by (metis in_set_dropD length_append length_replicate le_add_diff_inverse)
  moreover have "rtlQStrToQStr m (malloc (QStrSize m)) n xs = Inr (map Some ?ys)"
    using xs(1) q by (auto simp: rtlQStrToQStr_def Let_def copy_mem_def memset_def store_block_in malloc_def)
  ultimately show ?thesis by blast
qed

text \<open>C21. Six-bit strings stay well formed: no bit is set behind the last character after a text is converted, after a string
  is incremented, decremented or changed in place, and after it is copied to a string that is no shorter, which keeps its
  characters and adds blanks.\<close>

theorem qstr_type:
  assumes "3 * (n + 1) < 2 ^ 32"
  shows "(min inlen n \<le> length src \<longrightarrow> (\<exists>xs. rtlStrToQStrNX inlen src n = Inr (n, map Some xs) \<and> qstr_wf n xs)) \<and>
    (qstr_wf n xs \<longrightarrow>
      (\<exists>b ys. incrementQString xs n = Inr (b, ys) \<and> qstr_wf n ys) \<and>
      (\<exists>b ys. decrementQString xs n = Inr (b, ys) \<and> qstr_wf n ys) \<and>
      (\<forall>i v. i < n \<longrightarrow> v < 64 \<longrightarrow> (\<exists>ys. setQChar xs i v = Inr ys \<and> qstr_wf n ys \<and> getQChar ys i = Inr v)) \<and>
      (\<forall>m. n \<le> m \<longrightarrow> 3 * (m + 1) < 2 ^ 32 \<longrightarrow> (\<exists>ys. rtlQStrToQStr m (malloc (QStrSize m)) n xs = Inr (map Some ys) \<and>
        qstr_wf m ys \<and> take m (unpack ys) = fit m 0 (take n (unpack xs)))))"
proof (intro conjI impI allI)
  have q: "QStrSize n = qsize n" using QStrSize_eq [OF assms] .
  {
    assume "min inlen n \<le> length src"
    then have "rtlStrToQStrNX inlen src n = Inr (n, map Some (pack (fit n 0 (map compressQChar (take inlen src)))))"
      using rtlStrToQStr_eq [of n "malloc (qsize n)" inlen src] assms q by (simp add: rtlStrToQStrNX_def malloc_def)
    then show "\<exists>xs. rtlStrToQStrNX inlen src n = Inr (n, map Some xs) \<and> qstr_wf n xs"
      using qstr_wf_pack(1) [of "fit n 0 (map compressQChar (take inlen src))"] compressed_less assms by auto
  }
  assume wf: "qstr_wf n xs"
  then have len: "qsize n \<le> length xs" and zs: "\<forall>c \<in> set (drop n (unpack xs)). c = 0" using q by (simp_all add: qstr_wf_def)
  show "\<exists>b ys. incrementQString xs n = Inr (b, ys) \<and> qstr_wf n ys"
    using increment_loop_correct [OF len assms] wf by (auto simp: incrementQString_def qstr_wf_def)
  show "\<exists>b ys. decrementQString xs n = Inr (b, ys) \<and> qstr_wf n ys"
    using decrement_loop_correct [OF len assms] wf by (auto simp: decrementQString_def qstr_wf_def)
  {
    fix i and v :: "8 word" assume i: "i < n" "v < 64"
    then have iq: "qsize (i + 1) \<le> length xs" "3 * (i + 1) < 2 ^ 32"
      using qsize_mono [of "i + 1" n] len assms by auto
    obtain ys where ys: "setQChar xs i v = Inr ys" "length ys = length xs" "unpack ys = (unpack xs)[i := v]"
      using setQChar_eq [OF iq i(2)] by auto
    moreover have "getQChar ys i = Inr v"
      using getQChar_eq [of i ys] iq ys(2,3) qsize_length_unpack [OF iq(1)] by simp
    ultimately show "\<exists>ys. setQChar xs i v = Inr ys \<and> qstr_wf n ys \<and> getQChar ys i = Inr v"
      using wf i by (auto simp: qstr_wf_def)
  }
  fix m assume m: "n \<le> m" "3 * (m + 1) < 2 ^ 32"
  show "\<exists>ys. rtlQStrToQStr m (malloc (QStrSize m)) n xs = Inr (map Some ys) \<and> qstr_wf m ys \<and>
      take m (unpack ys) = fit m 0 (take n (unpack xs))"
    using widen_correct [OF assms wf m] by simp
qed

theorem qstr_type_witness:
  "3 * (2 + 1) < (2 ^ 32 :: nat) \<and> qstr_wf 2 [0x86, 0x20] \<and>
   (\<exists>ys. rtlQStrToQStr 3 (malloc (QStrSize 3)) 2 [0x86, 0x20] = Inr (map Some ys) \<and> qstr_wf 3 ys \<and>
     take 3 (unpack ys) = [0x21, 0x22, 0])"
proof -
  have wf: "qstr_wf 2 [0x86, 0x20]" by (simp add: qstr_wf_def QStrSize_def u32_def group_chars_def)
  have "\<exists>ys. rtlQStrToQStr 3 (malloc (QStrSize 3)) 2 [0x86, 0x20] = Inr (map Some ys) \<and> qstr_wf 3 ys \<and>
      take 3 (unpack ys) = fit 3 0 (take 2 (unpack [0x86, 0x20]))"
    using qstr_type [of 2 0 "[]" "[0x86, 0x20]"] wf by simp
  moreover have "fit 3 0 (take 2 (unpack [0x86, 0x20])) = [0x21, 0x22, 0]" by (simp add: fit_def group_chars_def)
  ultimately show ?thesis using wf by auto
qed

text \<open>C36. A substring holds the characters from \<open>from\<close> to \<open>to\<close>, both counted from one, with blanks for those that the string does
  not have, in a new well-formed string of exactly that length; without \<open>to\<close> it holds the characters from \<open>from\<close> on. It is the
  same whether the bytes are copied and masked or the characters are converted to a text and back.\<close>

theorem qstr_substring:
  assumes "3 * (slen + 1) < 2 ^ 32" "QStrSize slen \<le> length src" "1 \<le> f" "f \<le> t + 1" "3 * (t + 1) < 2 ^ 32"
  defines "cs \<equiv> fit (t + 1 - f) 0 (drop (f - 1) (take (min t slen) (unpack src)))"
    and "ds \<equiv> drop (f - 1) (take slen (unpack src))"
  shows "rtlSubQStrFTX slen src f t = Inr (t + 1 - f, map Some (pack cs)) \<and> qstr_wf (t + 1 - f) (pack cs) \<and>
    rtlSubQStrFX slen src f = Inr (slen + 1 - f, map Some (pack ds)) \<and> qstr_wf (slen + 1 - f) (pack ds)"
proof -
  have q: "qsize slen \<le> length src" using assms(1,2) QStrSize_eq by simp
  have len: "slen \<le> length (unpack src)" using qsize_length_unpack [OF q] .
  have small: "\<forall>c \<in> set (drop k (take n (unpack src))). c < 64" for k n
    using unpack_less [of _ src] by (auto dest: in_set_dropD in_set_takeD)
  have mins: "qsize (min t slen) \<le> length src" using q qsize_mono [of "min t slen" slen] by simp
  have norm: "normalizeFromTo f t = (f - 1, t)" "clipFromTo (f - 1) t slen = (min (f - 1) slen, min t slen)" "normalizeFrom f slen = min (f - 1) slen"
    using normalizeFromTo_eq [of f t] normalizeFrom_eq [of f slen] assms(3-5) by (auto simp: clipFromTo_def)
  have lens: "u32 (t + 2 ^ 32 - (f - 1)) = t + 1 - f" "u32 (slen + 2 ^ 32 - min (f - 1) slen) = slen + 1 - f"
    using u32_diff [of "f - 1" t] u32_diff [of "min (f - 1) slen" slen] assms(1,3,4,5) by (auto simp: min_def)
  have ft: "copyQStrRange (t + 1 - f) (malloc (QStrSize (t + 1 - f))) src (min (f - 1) slen) (min t slen) = Inr (map Some (pack cs))"
    using copyQStrRange_eq [of "min (f - 1) slen" "min t slen" "t + 1 - f" src "malloc (QStrSize (t + 1 - f))"] assms(1,3,4,5) mins
      take_drop_clip [OF len, of t f] QStrSize_eq [of "t + 1 - f"] by (auto simp: cs_def malloc_def)
  have dlen: "length ds = slen + 1 - f" using len assms(3) by (simp add: ds_def)
  then have fit: "fit (slen + 1 - f) 0 ds = ds" by (simp add: fit_def)
  have ds: "take (slen - min (f - 1) slen) (drop (min (f - 1) slen) (unpack src)) = ds"
    using take_drop_clip [OF len, of slen f] by (simp add: ds_def)
  have room: "slen - min (f - 1) slen \<le> slen + 1 - f" "3 * (slen + 1 - f + 1) < 2 ^ 32" using assms(1,3) by (simp_all add: min_def)
  have fx: "copyQStrRange (slen + 1 - f) (malloc (QStrSize (slen + 1 - f))) src (min (f - 1) slen) slen = Inr (map Some (pack ds))"
    using copyQStrRange_eq [OF _ room assms(1) q, of "malloc (QStrSize (slen + 1 - f))"] QStrSize_eq [OF room(2)]
    unfolding ds fit by (simp add: malloc_def)
  have "qstr_wf (t + 1 - f) (pack cs)" using qstr_wf_pack(1) [of cs] fit_less [OF small] assms(3,5) by (simp add: cs_def)
  moreover have "qstr_wf (slen + 1 - f) (pack ds)" using qstr_wf_pack(1) [of ds] small dlen room(2) by (simp add: ds_def)
  ultimately show ?thesis using ft fx norm lens by (simp add: rtlSubQStrFTX_def rtlSubQStrFX_def rtlQStrSize_def)
qed

theorem qstr_substring_witness:
  "rtlSubQStrFTX 3 [0x86, 0x28, 0xc0] 2 4 = Inr (3, map Some (pack [0x22, 0x23, 0])) \<and>
   rtlSubQStrFX 3 [0x86, 0x28, 0xc0] 2 = Inr (2, map Some (pack [0x22, 0x23]))"
proof -
  have size: "QStrSize 3 \<le> length [0x86, 0x28, 0xc0 :: 8 word]" by (simp add: QStrSize_def u32_def)
  have "fit 3 0 (drop 1 (take 3 (unpack [0x86, 0x28, 0xc0]))) = [0x22, 0x23, 0]" "drop 1 (take 3 (unpack [0x86, 0x28, 0xc0])) = [0x22, 0x23]"
    by (simp_all add: fit_def group_chars_def)
  with qstr_substring [of 3 "[0x86, 0x28, 0xc0]" 2 4, OF _ size] show ?thesis by simp
qed

section \<open>Order\<close>

text \<open>C17. On well-formed six-bit strings the comparison of bytes gives the sign that the comparison of characters, one after
  the other, gives: the sign of the first difference where the shorter string is padded with blanks. Neither reads
  outside the strings.\<close>

theorem qstr_compare_correct:
  assumes "3 * (llen + 1) < 2 ^ 32" "3 * (rlen + 1) < 2 ^ 32" "qstr_wf llen left" "qstr_wf rlen right"
  shows "\<exists>d e. rtlCompareQStrQStr llen left rlen right = Inr d \<and> rtlSafeCompareQStrQStr llen left rlen right = Inr e \<and>
    sgn d = blank_cmp (take llen (unpack left)) (take rlen (unpack right)) \<and> sgn e = sgn d"
proof -
  have q: "QStrSize llen = qsize llen" "QStrSize rlen = qsize rlen" using QStrSize_eq assms(1,2) by auto
  then have len: "length left = qsize llen" "length right = qsize rlen" using assms(3,4) by (auto simp: qstr_wf_def)
  have "blank_cmp left right = blank_cmp (take llen (unpack left) @ drop llen (unpack left)) (take rlen (unpack right) @ drop rlen (unpack right))"
    by (simp add: blank_cmp_unpack [of left right])
  also have "\<dots> = blank_cmp (take llen (unpack left)) (take rlen (unpack right))"
    using blank_cmp_zeros [of "drop llen (unpack left)"] blank_cmp_zeros_right [of "drop rlen (unpack right)"] assms(3,4)
    unfolding qstr_wf_def by presburger
  finally show ?thesis
    using rtlCompareQStrQStr_sgn [of llen left rlen right] rtlSafeCompareQStrQStr_sgn [of llen left rlen right] assms(1,2) len by auto
qed

theorem qstr_compare_correct_witness:
  "qstr_wf 2 [0x86, 0x20] \<and> qstr_wf 1 [0x84] \<and>
   (\<exists>d e. rtlCompareQStrQStr 2 [0x86, 0x20] 1 [0x84] = Inr d \<and> rtlSafeCompareQStrQStr 2 [0x86, 0x20] 1 [0x84] = Inr e \<and>
     sgn d = 1 \<and> sgn e = 1)"
proof -
  have "qstr_wf 2 [0x86, 0x20]" "qstr_wf 1 [0x84]" by (simp_all add: qstr_wf_def QStrSize_def u32_def group_chars_def)
  then show ?thesis using qstr_compare_correct [of 2 1 "[0x86, 0x20]" "[0x84]"] by (auto simp: group_chars_def)
qed

text \<open>C37. A six-bit string that is cut by \<^verbatim>\<open>rtlQStrToQStr\<close> has the characters asked for, but its last byte keeps the bits of the next
  character: it is the prefix of the bytes. The comparison of characters finds it equal to the well-formed string of
  its characters. The comparison of bytes does so only when the mask that \<^verbatim>\<open>copyQStrRange\<close> uses for the same purpose
  would change nothing in the last byte.\<close>

theorem qstr_cut_compare:
  assumes "3 * (n + 1) < 2 ^ 32" "m \<le> n" "0 < m" "QStrSize n \<le> length xs"
  defines "pre \<equiv> take (QStrSize m) xs" and "canon \<equiv> pack (take m (unpack xs))"
  shows "rtlQStrToQStr m (malloc (QStrSize m)) n xs = Inr (map Some pre) \<and>
    take m (unpack pre) = take m (unpack xs) \<and> qstr_wf m canon \<and> take m (unpack canon) = take m (unpack xs) \<and>
    rtlSafeCompareQStrQStr m pre m canon = Inr 0 \<and>
    (\<exists>d. rtlCompareQStrQStr m pre m canon = Inr d \<and>
      (d = 0 \<longleftrightarrow> m mod 4 = 0 \<or> pre ! (QStrSize m - 1) AND lastQStrByteMask m = pre ! (QStrSize m - 1)))"
proof -
  have m: "3 * (m + 1) < 2 ^ 32" using assms(1,2) by simp
  have q: "QStrSize n = qsize n" "QStrSize m = qsize m" "qsize m \<le> qsize n" using QStrSize_eq assms(1) m qsize_mono [OF assms(2)] by auto
  have pre: "length pre = qsize m" "take m (unpack pre) = take m (unpack xs)"
    using q assms(4) take_unpack [of m xs] by (auto simp: pre_def)
  have len: "length (take m (unpack xs)) = m" using qsize_length_unpack [of m xs] q assms(4) by simp
  have chars: "\<forall>c \<in> set (take m (unpack xs)). c < 64" using unpack_less [of _ xs] by (auto dest: in_set_takeD)
  have canon: "qstr_wf m canon" "take m (unpack canon) = take m (unpack xs)"
    using qstr_wf_pack [of "take m (unpack xs)"] len m chars by (simp_all add: canon_def)
  then have cl: "length canon = qsize m" using q by (simp add: qstr_wf_def)
  have copy: "rtlQStrToQStr m (malloc (QStrSize m)) n xs = Inr (map Some pre)"
    using q assms(4) by (auto simp: rtlQStrToQStr_def Let_def copy_mem_def store_block_in malloc_def pre_def)
  obtain e where "rtlSafeCompareQStrQStr m pre m canon = Inr e" "sgn e = blank_cmp (take m (unpack pre)) (take m (unpack canon))"
    using rtlSafeCompareQStrQStr_sgn [of m pre m canon] pre cl m by auto
  then have safe: "rtlSafeCompareQStrQStr m pre m canon = Inr 0"
    using pre(2) canon(2) blank_cmp_eq_0 [of "take m (unpack xs)" "take m (unpack xs)"] by (simp add: sgn_0_0)
  obtain d where d: "rtlCompareQStrQStr m pre m canon = Inr d" "sgn d = blank_cmp pre canon"
    using rtlCompareQStrQStr_sgn [of m pre m canon] pre cl m by auto
  have masked: "canon = (if m mod 4 = 0 then pre else pre[qsize m - 1 := pre ! (qsize m - 1) AND lastQStrByteMask m])"
    using pack_take_unpack [OF pre(1)] pre(2) by (simp add: canon_def)
  have "d = 0 \<longleftrightarrow> pre = canon" using d(2) blank_cmp_eq_0 [of pre canon] pre(1) cl sgn_0_0 [of d] by auto
  moreover have "pre = pre[qsize m - 1 := v] \<longleftrightarrow> v = pre ! (qsize m - 1)" for v
    using pre(1) qsize_mono [of 1 m] assms(3) list_update_same_conv [of "qsize m - 1" pre v] by (auto simp: qsize_def)
  ultimately have "d = 0 \<longleftrightarrow> m mod 4 = 0 \<or> pre ! (qsize m - 1) AND lastQStrByteMask m = pre ! (qsize m - 1)"
    using masked by (cases "m mod 4 = 0") simp_all
  then show ?thesis using copy pre(2) canon safe d(1) q(2) by simp
qed

theorem qstr_cut_compare_witness:
  "rtlQStrToQStr 1 (malloc 1) 2 [0x86, 0x20] = Inr [Some 0x86] \<and> rtlSafeCompareQStrQStr 1 [0x86] 1 [0x84] = Inr 0 \<and>
   (\<exists>d. rtlCompareQStrQStr 1 [0x86] 1 [0x84] = Inr d \<and> d \<noteq> 0)"
proof -
  have "pack (take 1 (unpack [0x86, 0x20])) = [0x84]" by code_simp
  moreover have "QStrSize 1 = 1" "QStrSize 2 = 2" by (simp_all add: QStrSize_def u32_def)
  moreover have "0x86 AND lastQStrByteMask 1 \<noteq> 0x86" by code_simp
  ultimately show ?thesis using qstr_cut_compare [of 2 1 "[0x86, 0x20]"] by auto
qed

text \<open>A substring from the beginning of a group that is longer than the target is masked at the last byte it would have: when the
  target has fewer bytes, behind its end.\<close>

lemma qstr_sub_mask_out:
  assumes "3 * (slen + 1) < 2 ^ 32" "QStrSize slen \<le> length src" "1 \<le> f" "(f - 1) mod 4 = 0" "f \<le> t" "t \<le> slen"
    "(t + 1 - f) mod 4 \<noteq> 0" "length tgt = QStrSize tlen" "QStrSize tlen < QStrSize (t + 1 - f)"
  shows "rtlSubQStrFT tlen tgt slen src f t = Inl OutOfRange"
proof -
  let ?n = "t + 1 - f"
  have small: "3 * (t + 1) < 2 ^ 32" "3 * (?n + 1) < 2 ^ 32" "3 * (f - 1 + 1) < 2 ^ 32" using assms(1,3,5,6) by auto
  have norm: "normalizeFromTo f t = (f - 1, t)" "clipFromTo (f - 1) t slen = (f - 1, t)"
    using normalizeFromTo_eq [of f t] assms(3,5,6) small by (auto simp: clipFromTo_def)
  have len: "u32 (t + 2 ^ 32 - (f - 1)) = ?n" using u32_diff [of "f - 1" t] assms(3,5) small by simp
  obtain q where q: "f - 1 = 4 * q" using assms(4) by auto
  have t: "t = 4 * q + ?n" using q assms(3,5) by simp
  have "qsize t = 3 * q + qsize ?n" using qsize_groups [of q ?n] t by simp
  moreover have "qsize t \<le> length src" using qsize_mono [OF assms(6)] assms(2) QStrSize_eq [OF assms(1)] by simp
  moreover have "QStrSize (f - 1) = 3 * q" using QStrSize_eq [OF small(3)] q qsize_groups [of q 0] by simp
  moreover have "QStrSize ?n = qsize ?n" using QStrSize_eq [OF small(2)] .
  ultimately have "\<exists>xs. rtlQStrToQStr tlen tgt ?n (drop (QStrSize (f - 1)) src) = Inr xs \<and> length xs = length tgt"
    using assms(8,9) by (simp add: rtlQStrToQStr_def Let_def copy_mem_def store_block_in)
  then obtain xs where "rtlQStrToQStr tlen tgt ?n (drop (QStrSize (f - 1)) src) = Inr xs" "length xs = length tgt" by blast
  moreover have "load_bytes xs (QStrSize ?n - 1) 1 = Inl OutOfRange" if "length xs = length tgt" for xs :: block
    using assms(8,9) that by (simp add: load_bytes_def)
  ultimately show ?thesis unfolding rtlSubQStrFT_def norm Let_def case_prod_conv copyQStrRange_def len using assms(4,7) by simp
qed

section \<open>Counting\<close>

lemma num_less: "num_of 64 (take n (unpack buf)) < 64 ^ n"
proof -
  have "num_of 64 (take n (unpack buf)) < 64 ^ length (take n (unpack buf))"
    using unpack_less by (intro num_of_less) (fastforce simp: word_less_nat_alt dest: in_set_takeD)
  also have "\<dots> \<le> 64 ^ n" by (intro power_increasing) auto
  finally show ?thesis .
qed

lemma count_up: "k + (if b then 0 else M) = n + 1 \<Longrightarrow> n < M \<Longrightarrow> k = (n + 1) mod M \<and> (b \<longleftrightarrow> n + 1 < M)" if "k < M" for k n M :: nat
  using that by (cases "n + 1 = M") (auto split: if_splits)

lemma count_down: "k + 1 = n + (if b then 0 else M) \<Longrightarrow> n < M \<Longrightarrow> k = (n + (M - 1)) mod M \<and> (b \<longleftrightarrow> 0 < n)" if "k < M" for k n M :: nat
proof -
  assume k: "k + 1 = n + (if b then 0 else M)" "n < M"
  show "k = (n + (M - 1)) mod M \<and> (b \<longleftrightarrow> 0 < n)"
  proof (cases b)
    case True
    then have "n + (M - 1) = k + M" using k by simp
    then show ?thesis using True k that by simp
  qed (use k that in auto)
qed

text \<open>C38. Incrementing and decrementing a string of \<open>n\<close> characters is counting up and down in base 64 with the first character
  as the most significant digit. They return \<open>False\<close> exactly when the count wraps around, and leave everything behind
  the \<open>n\<close> characters alone.\<close>

theorem qstr_count_correct:
  assumes "QStrSize n \<le> length buf" "3 * (n + 1) < 2 ^ 32"
  shows "(\<exists>b buf'. incrementQString buf n = Inr (b, buf') \<and> length buf' = length buf \<and> drop n (unpack buf') = drop n (unpack buf) \<and>
      num_of 64 (take n (unpack buf')) = (num_of 64 (take n (unpack buf)) + 1) mod 64 ^ n \<and>
      (b \<longleftrightarrow> num_of 64 (take n (unpack buf)) + 1 < 64 ^ n)) \<and>
    (\<exists>b buf'. decrementQString buf n = Inr (b, buf') \<and> length buf' = length buf \<and> drop n (unpack buf') = drop n (unpack buf) \<and>
      num_of 64 (take n (unpack buf')) = (num_of 64 (take n (unpack buf)) + (64 ^ n - 1)) mod 64 ^ n \<and>
      (b \<longleftrightarrow> 0 < num_of 64 (take n (unpack buf))))"
proof -
  have len: "qsize n \<le> length buf" using assms QStrSize_eq [OF assms(2)] by simp
  obtain b buf' where 1: "increment_loop buf n = Inr (b, buf')" "length buf' = length buf" "drop n (unpack buf') = drop n (unpack buf)"
    "num_of 64 (take n (unpack buf')) + (if b then 0 else 64 ^ n) = num_of 64 (take n (unpack buf)) + 1"
    using increment_loop_correct [OF len assms(2)] by blast
  obtain b2 buf2 where 2: "decrement_loop buf n = Inr (b2, buf2)" "length buf2 = length buf" "drop n (unpack buf2) = drop n (unpack buf)"
    "num_of 64 (take n (unpack buf2)) + 1 = num_of 64 (take n (unpack buf)) + (if b2 then 0 else 64 ^ n)"
    using decrement_loop_correct [OF len assms(2)] by blast
  show ?thesis
    using 1 count_up [OF num_less 1(4) num_less] 2 count_down [OF num_less 2(4) num_less]
    unfolding incrementQString_def decrementQString_def by blast
qed

theorem qstr_count_correct_witness:
  "QStrSize 2 \<le> length [0x87, 0xf0 :: 8 word] \<and>
   (\<exists>b buf'. incrementQString [0x87, 0xf0] 2 = Inr (b, buf') \<and> num_of 64 (take 2 (unpack buf')) = 0x22 * 64 \<and> b)"
proof -
  have n: "num_of 64 (take 2 (unpack [0x87, 0xf0])) = 0x21 * 64 + 63" by (simp add: group_chars_def num_of_def)
  have "QStrSize 2 \<le> length [0x87, 0xf0 :: 8 word]" by (simp add: QStrSize_def u32_def)
  with qstr_count_correct [of 2 "[0x87, 0xf0]"] show ?thesis unfolding n by auto
qed

section \<open>Ranges of keys\<close>

lemma trim_le: "length (trim cs) \<le> length cs"
  by (induction cs rule: rev_induct) (auto simp: trim_snoc trim_def)

lemma take_trim: "take (length (trim cs)) cs = trim cs"
proof (induction cs rule: rev_induct)
  case (snoc c cs)
  then show ?case using trim_le [of cs] by (simp add: trim_snoc)
qed (simp add: trim_def)

lemma range_ends:
  assumes "3 * (fieldLen + 1) < 2 ^ 32" "3 * (len + 1) < 2 ^ 32" "qsize len \<le> length qstr"
  defines "ys \<equiv> trim (take len (unpack qstr))"
  shows "res_bind (rtlTrimQStrLen len qstr) (\<lambda>len. rtlCreateQStrRange fieldLen compareLen len qstr fill) =
    Inr (fieldLen, map Some (if length ys \<le> fieldLen then range_bytes fieldLen (fit (range_len fieldLen compareLen) 0 ys) fill
      else range_bytes fieldLen [] (if fill = 0 then 255 else 0)))"
proof -
  have le: "length ys \<le> len" using trim_le [of "take len (unpack qstr)"] by (simp add: ys_def)
  then have "take (length ys) (unpack qstr) = ys" using take_trim [of "take len (unpack qstr)"] by (simp add: ys_def min_def)
  moreover have "qsize (length ys) \<le> length qstr" using qsize_mono [OF le] assms(3) by simp
  ultimately show ?thesis
    using rtlTrimQStrLen_eq [OF assms(3,2)] rtlCreateQStrRange_eq [OF assms(1), of "length ys" qstr] by (simp add: ys_def)
qed

text \<open>C18. The keys of a field that lie between the low and the high end made from \<open>qstr\<close>, in the order of their bytes, are exactly
  those whose first \<open>compareLen\<close> characters are those of \<open>qstr\<close> without the blanks at its end, cut or padded with blanks
  to that length. A length that is too long is cut to the field and a negative one is zero. No key lies between the ends
  when \<open>qstr\<close> is longer than the field; when it is longer than the length compared, but not than the field, it is
  cut, so that the keys that begin with the part of it that is left lie between the ends although they do not equal it.\<close>

theorem qstr_range_selects:
  assumes "3 * (fieldLen + 1) < 2 ^ 32" "0 < fieldLen" "3 * (len + 1) < 2 ^ 32" "QStrSize len \<le> length qstr"
  shows "\<exists>low high. rtlCreateQStrRangeLow fieldLen compareLen len qstr = Inr (fieldLen, map Some low) \<and>
    rtlCreateQStrRangeHigh fieldLen compareLen len qstr = Inr (fieldLen, map Some high) \<and>
    length low = QStrSize fieldLen \<and> length high = QStrSize fieldLen \<and>
    (\<forall>key. length key = fieldLen \<longrightarrow> (\<forall>c \<in> set key. c < 64) \<longrightarrow>
      (memcmp low (pack key) \<le> 0 \<and> memcmp (pack key) high \<le> 0 \<longleftrightarrow>
       length (trim (take len (unpack qstr))) \<le> fieldLen \<and>
       take (range_len fieldLen compareLen) key = fit (range_len fieldLen compareLen) 0 (trim (take len (unpack qstr)))))"
proof -
  define ys where "ys = trim (take len (unpack qstr))"
  let ?m = "range_len fieldLen compareLen"
  have q: "QStrSize len = qsize len" "QStrSize fieldLen = qsize fieldLen" using QStrSize_eq assms(1,3) by auto
  note ends = range_ends [OF assms(1,3) assms(4) [unfolded q(1)], of compareLen, folded ys_def]
  have m: "?m \<le> fieldLen" by (simp add: range_len_def)
  have "\<forall>c \<in> set ys. c < 64"
    using take_trim [of "take len (unpack qstr)"] unpack_less [of _ qstr] unfolding ys_def by (metis in_set_takeD)
  then have small: "\<forall>c \<in> set (fit ?m 0 ys). c < 64" by (rule fit_less)
  show ?thesis
  proof (cases "length ys \<le> fieldLen")
    case True
    then show ?thesis using ends [of 0] ends [of 255] range_selects [of "fit ?m 0 ys" fieldLen] m small q(2)
      unfolding rtlCreateQStrRangeLow_def rtlCreateQStrRangeHigh_def ys_def [symmetric]
      by (auto simp: length_range_bytes)
  next
    case False
    then show ?thesis using ends [of 0] ends [of 255] range_empty [of _ fieldLen] assms(2) q(2)
      unfolding rtlCreateQStrRangeLow_def rtlCreateQStrRangeHigh_def ys_def [symmetric]
      by (auto simp: length_range_bytes)
  qed
qed

theorem qstr_range_selects_witness:
  "\<exists>low high. rtlCreateQStrRangeLow 3 2 4 [0x84, 0, 0] = Inr (3, map Some low) \<and>
    rtlCreateQStrRangeHigh 3 2 4 [0x84, 0, 0] = Inr (3, map Some high) \<and>
    memcmp low (pack [0x21, 0, 0x25]) \<le> 0 \<and> memcmp (pack [0x21, 0, 0x25]) high \<le> 0"
proof -
  have size: "QStrSize 4 \<le> length [0x84, 0, 0 :: 8 word]" by (simp add: QStrSize_def u32_def)
  have ys: "trim (take 4 (unpack [0x84, 0, 0])) = [0x21]" by (simp add: group_chars_def trim_def)
  obtain low high where e: "rtlCreateQStrRangeLow 3 2 4 [0x84, 0, 0] = Inr (3, map Some low)"
      "rtlCreateQStrRangeHigh 3 2 4 [0x84, 0, 0] = Inr (3, map Some high)"
      "\<And>key. length key = 3 \<Longrightarrow> \<forall>c \<in> set key. c < 64 \<Longrightarrow> memcmp low (pack key) \<le> 0 \<and> memcmp (pack key) high \<le> 0 \<longleftrightarrow>
        length [0x21 :: 8 word] \<le> 3 \<and> take (range_len 3 2) key = fit (range_len 3 2) 0 [0x21]"
    using qstr_range_selects [of 3 4 "[0x84, 0, 0]" 2, OF _ _ _ size] unfolding ys by auto
  have "memcmp low (pack [0x21, 0, 0x25]) \<le> 0 \<and> memcmp (pack [0x21, 0, 0x25]) high \<le> 0"
    using e(3) [of "[0x21, 0, 0x25]"] by (simp add: range_len_def fit_def)
  with e(1,2) show ?thesis by blast
qed

section \<open>Serialisation\<close>

lemma appends_qstr:
  assumes "length data = QStrSize len"
  shows "appends (serializeQStrX len data) b (endian b (var32 (of_nat len)) @ data)"
  using appends_bind [OF unsigned.puts appends_mem] assms by (simp add: serializeQStrX_def)

text \<open>The length is read as the bytes lie, whatever the byte order of the buffer.\<close>

lemma deserializeQStrX_eq:
  assumes "mb_inv mb" "readPos mb \<le> curLen mb" "drop (readPos mb) (mb_bytes mb) = map Some (xs @ ys)" "length xs = 4"
  shows "deserializeQStrX mb =
    (let n = unat (load32 xs 0) in op_bind (read_mem (QStrSize n)) (\<lambda>data. op_return (n, data)) (mb\<lparr>readPos := readPos mb + 4\<rparr>))"
proof -
  have "read_mem 4 mb = (Inr xs, mb\<lparr>readPos := readPos mb + 4\<rparr>)"
    using reads_mem [of xs "swapEndian mb"] assms unfolding reads_def by auto
  then show ?thesis by (simp add: deserializeQStrX_def op_bind_def Let_def)
qed

text \<open>C39. A six-bit string that was serialised is read back as it was in a buffer in the byte order of the machine. In the other byte
  order its length is written reversed, but read as it lies, so that as many bytes are read as the reversed length says.\<close>

theorem qstr_serialize:
  assumes "mb_inv mb" "len < 2 ^ 32" "length data = QStrSize len" "mb_room mb (4 + QStrSize len)"
  shows "\<exists>mb'. serializeQStrX len data mb = (Inr (), mb') \<and>
    deserializeQStrX (mb'\<lparr>readPos := curLen mb\<rparr>) =
      (if swapEndian mb then
         let n = unat (load32 (rev (var32 (of_nat len))) 0)
         in op_bind (read_mem (QStrSize n)) (\<lambda>data. op_return (n, data)) (mb'\<lparr>readPos := curLen mb + 4\<rparr>)
       else (Inr (len, data), mb'\<lparr>readPos := curLen mb'\<rparr>))"
proof -
  let ?n = "endian (swapEndian mb) (var32 (of_nat len))"
  obtain mb' where mb': "serializeQStrX len data mb = (Inr (), mb')" "appended mb (map Some (?n @ data)) mb'"
    using appends_qstr [OF assms(3), of "swapEndian mb"] assms unfolding appends_def by auto
  let ?r = "mb'\<lparr>readPos := curLen mb\<rparr>"
  have cur: "curLen mb' = curLen mb + length (?n @ data)" using appended_curLen [OF assms(1) mb'(2)] by simp
  have r: "mb_inv ?r" "readPos ?r \<le> curLen ?r" "drop (readPos ?r) (mb_bytes ?r) = map Some (?n @ data)"
    using mb'(2) length_mb_bytes [OF assms(1)] cur by (auto simp: appended_def mb_inv_def mb_bytes_def)
  have des: "deserializeQStrX ?r = (let n = unat (load32 ?n 0) in op_bind (read_mem (QStrSize n)) (\<lambda>data. op_return (n, data)) (mb'\<lparr>readPos := curLen mb + 4\<rparr>))"
    using deserializeQStrX_eq [OF r] by simp
  show ?thesis
  proof (cases "swapEndian mb")
    case True
    then show ?thesis using mb'(1) des by (auto simp: endian_def cpyrevn_rev)
  next
    case False
    let ?s = "mb'\<lparr>readPos := curLen mb + 4\<rparr>"
    have "mb_inv ?s" "readPos ?s \<le> curLen ?s" "drop (readPos ?s) (mb_bytes ?s) = map Some data @ []"
      using r(1) arg_cong [OF r(3), of "drop 4"] cur by (auto simp: mb_inv_def mb_bytes_def add.commute)
    then have "read_mem (length data) ?s = (Inr data, mb'\<lparr>readPos := curLen mb'\<rparr>)"
      using reads_mem [of data "swapEndian ?s"] cur unfolding reads_def by (auto simp: add.assoc)
    then show ?thesis using mb'(1) des False assms(2,3)
      by (auto simp: endian_def unat_of_nat32 op_bind_def op_return_def Let_def)
  qed
qed

theorem qstr_serialize_witness:
  "mb_inv mb_init \<and> mb_room mb_init (4 + QStrSize 1) \<and>
   (\<exists>mb'. serializeQStrX 1 [0x84] mb_init = (Inr (), mb') \<and>
     deserializeQStrX (mb'\<lparr>readPos := curLen mb_init\<rparr>) = (Inr (1, [0x84]), mb'\<lparr>readPos := curLen mb'\<rparr>))"
proof -
  have "mb_inv mb_init" "mb_room mb_init (4 + QStrSize 1)" "length [0x84 :: 8 word] = QStrSize 1" "\<not> swapEndian mb_init"
    by (simp_all add: mb_init_def mb_inv_def mb_room_def QStrSize_def u32_def)
  with qstr_serialize [of mb_init 1 "[0x84]"] show ?thesis by auto
qed

end
