(* ===== verification/Rtlstr.thy ===== *)
theory Rtlstr
  imports Rtlqstr
begin

text \<open>
  Strings of fixed length, data and zero-terminated strings in the ECL run-time library (rtl/eclrtl/eclrtl.cpp):
  copying, concatenation, substrings, trimming, comparison, binary search in tables, ranges of keys, and packed
  integers.

  Memory that is read is a list of bytes and memory that is written a \<open>block\<close>, as for six-bit strings. The
  indices of binary search are \<^verbatim>\<open>int\<close>: a sum of two of them that does not fit is undefined.
\<close>

section \<open>Truth values\<close>

fun rtlDataToBool :: "nat \<Rightarrow> bytes \<Rightarrow> bool res" where
  "rtlDataToBool 0 src = Inr False"
| "rtlDataToBool (Suc len) src = res_bind (peek src 0) (\<lambda>c. if c \<noteq> 0 then Inr True else rtlDataToBool len (tl src))"

definition rtlBoolToData :: "nat \<Rightarrow> block \<Rightarrow> bool \<Rightarrow> block res" where
  "rtlBoolToData tlen tgt src =
     (if tlen \<noteq> 0 then res_bind (memset tgt 0 0 tlen) (\<lambda>tgt. if src then poke tgt (tlen - 1) 1 else Inr tgt) else Inr tgt)"

definition rtlBoolToStr :: "nat \<Rightarrow> block \<Rightarrow> bool \<Rightarrow> block res" where
  "rtlBoolToStr tlen tgt src =
     (if tlen \<noteq> 0 then res_bind (memset tgt 0 0x20 tlen) (\<lambda>tgt. if src then poke tgt (tlen - 1) 0x31 else Inr tgt) else Inr tgt)"

definition rtlBoolToVStr :: "block \<Rightarrow> bool \<Rightarrow> block res" where
  "rtlBoolToVStr tgt src = (if src then res_bind (poke tgt 0 0x31) (\<lambda>tgt. poke tgt 1 0) else poke tgt 0 0)"

definition rtlBoolToStrX :: "bool \<Rightarrow> nat \<times> block" where
  "rtlBoolToStrX src = (if src then (1, [Some 0x31]) else (0, []))"

definition rtlBoolToVStrX :: "bool \<Rightarrow> block" where
  "rtlBoolToVStrX src = (if src then [Some 0x31, Some 0] else [Some 0])"

section \<open>Copying\<close>

definition rtlDataToData :: "nat \<Rightarrow> block \<Rightarrow> nat \<Rightarrow> bytes \<Rightarrow> block res" where
  "rtlDataToData tlen tgt slen src =
     (let slen = (if slen > tlen then tlen else slen)
      in res_bind (copy_mem tgt 0 src slen) (\<lambda>tgt. if tlen > slen then memset tgt slen 0 (tlen - slen) else Inr tgt))"

definition rtlStrToData :: "nat \<Rightarrow> block \<Rightarrow> nat \<Rightarrow> bytes \<Rightarrow> block res" where
  "rtlStrToData tlen tgt slen src =
     (let slen = (if slen > tlen then tlen else slen)
      in res_bind (copy_mem tgt 0 src slen) (\<lambda>tgt. if tlen > slen then memset tgt slen 0 (tlen - slen) else Inr tgt))"

definition rtlStrToStr :: "nat \<Rightarrow> block \<Rightarrow> nat \<Rightarrow> bytes \<Rightarrow> block res" where
  "rtlStrToStr tlen tgt slen src =
     (let slen = (if slen > tlen then tlen else slen)
      in res_bind (copy_mem tgt 0 src slen) (\<lambda>tgt. if tlen > slen then memset tgt slen 0x20 (tlen - slen) else Inr tgt))"

definition rtlEStrToEStr :: "nat \<Rightarrow> block \<Rightarrow> nat \<Rightarrow> bytes \<Rightarrow> block res" where
  "rtlEStrToEStr tlen tgt slen src =
     (let slen = (if slen > tlen then tlen else slen)
      in res_bind (copy_mem tgt 0 src slen) (\<lambda>tgt. if tlen > slen then memset tgt slen 0x40 (tlen - slen) else Inr tgt))"

text \<open>The target begins at \<open>i\<close>.\<close>

definition rtlStrToVStr_at :: "nat \<Rightarrow> block \<Rightarrow> nat \<Rightarrow> nat \<Rightarrow> bytes \<Rightarrow> block res" where
  "rtlStrToVStr_at tlen tgt i slen src =
     (let slen = (if slen \<ge> tlen \<and> tlen \<noteq> 0 then tlen - 1 else slen)
      in res_bind (copy_mem tgt i src slen) (\<lambda>tgt. poke tgt (i + slen) 0))"

definition rtlStrToVStr :: "nat \<Rightarrow> block \<Rightarrow> nat \<Rightarrow> bytes \<Rightarrow> block res" where
  "rtlStrToVStr tlen tgt slen src = rtlStrToVStr_at tlen tgt 0 slen src"

definition strlen_bytes :: "bytes \<Rightarrow> nat res" where
  "strlen_bytes src = strlen (map Some src)"

definition rtlVStrToData :: "nat \<Rightarrow> block \<Rightarrow> bytes \<Rightarrow> block res" where
  "rtlVStrToData tlen tgt src = res_bind (strlen_bytes src) (\<lambda>n. rtlStrToData tlen tgt n src)"

definition rtlVStrToStr :: "nat \<Rightarrow> block \<Rightarrow> bytes \<Rightarrow> block res" where
  "rtlVStrToStr tlen tgt src = res_bind (strlen_bytes src) (\<lambda>n. rtlStrToStr tlen tgt n src)"

definition rtlVStrToVStr :: "nat \<Rightarrow> block \<Rightarrow> bytes \<Rightarrow> block res" where
  "rtlVStrToVStr tlen tgt src = res_bind (strlen_bytes src) (\<lambda>n. rtlStrToVStr tlen tgt n src)"

section \<open>Concatenation\<close>

definition rtlConcatStrToStr :: "nat \<Rightarrow> block \<Rightarrow> nat \<Rightarrow> nat \<Rightarrow> bytes \<Rightarrow> (nat \<times> block) res" where
  "rtlConcatStrToStr tlen tgt idx slen src =
     (let len = u32 (tlen + 2 ^ 32 - idx);
          len = (if len > slen then slen else len)
      in res_bind (copy_mem tgt idx src len) (\<lambda>tgt. Inr (u32 (idx + len), tgt)))"

fun rtlConcatVStrToStr :: "nat \<Rightarrow> block \<Rightarrow> nat \<Rightarrow> bytes \<Rightarrow> (nat \<times> block) res" where
  "rtlConcatVStrToStr tlen tgt idx [] = (if idx \<noteq> tlen then Inl OutOfRange else Inr (idx, tgt))"
| "rtlConcatVStrToStr tlen tgt idx (c # src) =
     (if idx \<noteq> tlen then
        if c = 0 then Inr (idx, tgt)
        else res_bind (poke tgt idx c) (\<lambda>tgt. rtlConcatVStrToStr tlen tgt (u32 (idx + 1)) src)
      else Inr (idx, tgt))"

definition rtlConcatStrToVStr :: "nat \<Rightarrow> block \<Rightarrow> nat \<Rightarrow> bytes \<Rightarrow> block res" where
  "rtlConcatStrToVStr tlen tgt slen src =
     res_bind (strlen tgt) (\<lambda>tend. rtlStrToVStr_at (u32 (tlen + 2 ^ 32 - tend)) tgt tend slen src)"

definition rtlConcatVStrToVStr :: "nat \<Rightarrow> block \<Rightarrow> bytes \<Rightarrow> block res" where
  "rtlConcatVStrToVStr tlen tgt src =
     res_bind (strlen tgt) (\<lambda>tend. res_bind (strlen_bytes src) (\<lambda>n. rtlStrToVStr_at (u32 (tlen + 2 ^ 32 - tend)) tgt tend n src))"

definition rtlESpaceFill :: "nat \<Rightarrow> block \<Rightarrow> nat \<Rightarrow> block res" where
  "rtlESpaceFill tlen tgt idx = (if idx < tlen then memset tgt idx 0x40 (tlen - idx) else Inr tgt)"

definition rtlSpaceFill :: "nat \<Rightarrow> block \<Rightarrow> nat \<Rightarrow> block res" where
  "rtlSpaceFill tlen tgt idx = (if idx < tlen then memset tgt idx 0x20 (tlen - idx) else Inr tgt)"

definition rtlZeroFill :: "nat \<Rightarrow> block \<Rightarrow> nat \<Rightarrow> block res" where
  "rtlZeroFill tlen tgt idx = (if idx < tlen then memset tgt idx 0 (tlen - idx) else Inr tgt)"

definition rtlNullTerminate :: "nat \<Rightarrow> block \<Rightarrow> nat \<Rightarrow> block res" where
  "rtlNullTerminate tlen tgt idx = poke tgt (if idx \<ge> tlen then u32 (tlen + 2 ^ 32 - 1) else idx) 0"

definition rtlConcatExtend :: "nat \<Rightarrow> block \<Rightarrow> nat \<Rightarrow> bytes \<Rightarrow> (nat \<times> block) res" where
  "rtlConcatExtend tlen tgt slen src =
     (let len = u32 (tlen + slen); tgt = realloc tgt len
      in res_bind (copy_mem tgt tlen src slen) (\<lambda>tgt. Inr (len, tgt)))"

section \<open>Substrings of strings and data\<close>

definition doSubStrFT :: "nat \<Rightarrow> bytes \<Rightarrow> nat \<Rightarrow> nat \<Rightarrow> 8 word \<Rightarrow> (nat \<times> block) res" where
  "doSubStrFT slen src from_pos to_pos fillChar =
     (let (from_pos, to_pos) = normalizeFromTo from_pos to_pos;
          len = u32 (to_pos + 2 ^ 32 - from_pos);
          (from_pos, to_pos) = clipFromTo from_pos to_pos slen;
          copylen = u32 (to_pos + 2 ^ 32 - from_pos)
      in res_bind (copy_mem (malloc len) 0 (drop from_pos src) copylen) (\<lambda>buf.
         res_bind (if copylen < len then memset buf copylen fillChar (len - copylen) else Inr buf) (\<lambda>buf. Inr (len, buf))))"

definition rtlSubStrFX :: "nat \<Rightarrow> bytes \<Rightarrow> nat \<Rightarrow> (nat \<times> block) res" where
  "rtlSubStrFX slen src from_pos =
     (let from_pos = normalizeFrom from_pos slen; tlen = u32 (slen + 2 ^ 32 - from_pos)
      in res_bind (copy_mem (malloc tlen) 0 (drop from_pos src) tlen) (\<lambda>tgt. Inr (tlen, tgt)))"

definition rtlSubStrFTX :: "nat \<Rightarrow> bytes \<Rightarrow> nat \<Rightarrow> nat \<Rightarrow> (nat \<times> block) res" where
  "rtlSubStrFTX slen src from_pos to_pos = doSubStrFT slen src from_pos to_pos 0x20"

definition rtlSubStrFT :: "nat \<Rightarrow> block \<Rightarrow> nat \<Rightarrow> bytes \<Rightarrow> nat \<Rightarrow> nat \<Rightarrow> block res" where
  "rtlSubStrFT tlen tgt slen src from_pos to_pos =
     (let (from_pos, to_pos) = normalizeFromTo from_pos to_pos;
          (from_pos, to_pos) = clipFromTo from_pos to_pos slen;
          copylen = u32 (to_pos + 2 ^ 32 - from_pos);
          copylen = (if copylen > tlen then tlen else copylen)
      in res_bind (copy_mem tgt 0 (drop from_pos src) copylen) (\<lambda>tgt.
         if copylen < tlen then memset tgt copylen 0x20 (tlen - copylen) else Inr tgt))"

definition rtlSubDataFT :: "nat \<Rightarrow> block \<Rightarrow> nat \<Rightarrow> bytes \<Rightarrow> nat \<Rightarrow> nat \<Rightarrow> block res" where
  "rtlSubDataFT tlen tgt slen src from_pos to_pos =
     (let (from_pos, to_pos) = normalizeFromTo from_pos to_pos;
          (from_pos, to_pos) = clipFromTo from_pos to_pos slen;
          copylen = u32 (to_pos + 2 ^ 32 - from_pos);
          copylen = (if copylen > tlen then tlen else copylen)
      in res_bind (copy_mem tgt 0 (drop from_pos src) copylen) (\<lambda>tgt.
         if copylen < tlen then memset tgt copylen 0 (tlen - copylen) else Inr tgt))"

definition rtlSubDataFTX :: "nat \<Rightarrow> bytes \<Rightarrow> nat \<Rightarrow> nat \<Rightarrow> (nat \<times> block) res" where
  "rtlSubDataFTX slen src from_pos to_pos = doSubStrFT slen src from_pos to_pos 0"

definition rtlSubDataFX :: "nat \<Rightarrow> bytes \<Rightarrow> nat \<Rightarrow> (nat \<times> block) res" where
  "rtlSubDataFX slen src from_pos =
     (let from_pos = normalizeFrom from_pos slen; tlen = u32 (slen + 2 ^ 32 - from_pos)
      in res_bind (copy_mem (malloc tlen) 0 (drop from_pos src) tlen) (\<lambda>tgt. Inr (tlen, tgt)))"

section \<open>Trimming\<close>

fun trim_right :: "8 word \<Rightarrow> nat \<Rightarrow> bytes \<Rightarrow> nat res" where
  "trim_right pad 0 t = Inr 0"
| "trim_right pad (Suc l) t = res_bind (peek t l) (\<lambda>c. if c \<noteq> pad then Inr (Suc l) else trim_right pad l t)"

definition rtlTrimStrLen :: "nat \<Rightarrow> bytes \<Rightarrow> nat res" where
  "rtlTrimStrLen l t = trim_right 0x20 l t"

definition rtlTrimDataLen :: "nat \<Rightarrow> bytes \<Rightarrow> nat res" where
  "rtlTrimDataLen l t = trim_right 0 l t"

text \<open>\<open>n\<close> is the number of characters read and \<open>lst\<close> the number up to the last one that is not blank.\<close>

fun vtrim_loop :: "bytes \<Rightarrow> nat \<Rightarrow> nat \<Rightarrow> nat res" where
  "vtrim_loop [] n lst = Inl OutOfRange"
| "vtrim_loop (c # t) n lst = (if c = 0 then Inr lst else vtrim_loop t (n + 1) (if c \<noteq> 0x20 then n + 1 else lst))"

definition rtlTrimVStrLen :: "bytes \<Rightarrow> nat res" where
  "rtlTrimVStrLen t = vtrim_loop t 0 0"

text \<open>\<open>k\<close> characters are left.\<close>

fun left_loop :: "bytes \<Rightarrow> nat \<Rightarrow> nat \<Rightarrow> nat res" where
  "left_loop src i 0 = Inr i"
| "left_loop src i (Suc k) = res_bind (peek src i) (\<lambda>c. if c = 0x20 then left_loop src (i + 1) k else Inr i)"

definition rtlLeftTrimStrStart :: "nat \<Rightarrow> bytes \<Rightarrow> nat res" where
  "rtlLeftTrimStrStart slen src = left_loop src 0 slen"

fun rtlLeftTrimVStrStart :: "bytes \<Rightarrow> nat res" where
  "rtlLeftTrimVStrStart [] = Inl OutOfRange"
| "rtlLeftTrimVStrStart (c # src) = (if c = 0x20 then res_bind (rtlLeftTrimVStrStart src) (\<lambda>i. Inr (i + 1)) else Inr 0)"

definition rtlDupSubString :: "bytes \<Rightarrow> nat \<Rightarrow> block res" where
  "rtlDupSubString src len = res_bind (copy_mem (malloc (u32 (len + 1))) 0 src len) (\<lambda>buf. poke buf len 0)"

definition rtlCopySubStringV :: "nat \<Rightarrow> block \<Rightarrow> nat \<Rightarrow> bytes \<Rightarrow> block res" where
  "rtlCopySubStringV tlen tgt slen src =
     (let slen = (if slen \<ge> tlen then u32 (tlen + 2 ^ 32 - 1) else slen)
      in res_bind (copy_mem tgt 0 src slen) (\<lambda>tgt. poke tgt slen 0))"

definition rtlCopySubString :: "nat \<Rightarrow> block \<Rightarrow> nat \<Rightarrow> bytes \<Rightarrow> 8 word \<Rightarrow> block res" where
  "rtlCopySubString tlen tgt slen src fill =
     (if tlen = 0 then Inr tgt
      else let slen = (if slen > tlen then tlen else slen)
        in res_bind (copy_mem tgt 0 src slen) (\<lambda>tgt. memset tgt slen fill (tlen - slen)))"

definition rtlTrimRight :: "nat \<Rightarrow> bytes \<Rightarrow> (nat \<times> block) res" where
  "rtlTrimRight slen src = res_bind (rtlTrimStrLen slen src) (\<lambda>tlen. res_bind (rtlDupSubString src tlen) (\<lambda>tgt. Inr (tlen, tgt)))"

definition rtlTrimVRight :: "bytes \<Rightarrow> (nat \<times> block) res" where
  "rtlTrimVRight src = res_bind (rtlTrimVStrLen src) (\<lambda>tlen. res_bind (rtlDupSubString src tlen) (\<lambda>tgt. Inr (tlen, tgt)))"

definition rtlAssignTrimRightV :: "nat \<Rightarrow> block \<Rightarrow> nat \<Rightarrow> bytes \<Rightarrow> block res" where
  "rtlAssignTrimRightV tlen tgt slen src = res_bind (rtlTrimStrLen slen src) (\<lambda>len. rtlCopySubStringV tlen tgt len src)"

definition rtlAssignTrimVRightV :: "nat \<Rightarrow> block \<Rightarrow> bytes \<Rightarrow> block res" where
  "rtlAssignTrimVRightV tlen tgt src = res_bind (rtlTrimVStrLen src) (\<lambda>len. rtlCopySubStringV tlen tgt len src)"

definition rtlTrimLeft :: "nat \<Rightarrow> bytes \<Rightarrow> (nat \<times> block) res" where
  "rtlTrimLeft slen src =
     res_bind (rtlLeftTrimStrStart slen src) (\<lambda>start. let len = slen - start in
       res_bind (rtlDupSubString (drop start src) len) (\<lambda>tgt. Inr (len, tgt)))"

definition rtlTrimVLeft :: "bytes \<Rightarrow> (nat \<times> block) res" where
  "rtlTrimVLeft src =
     res_bind (rtlLeftTrimVStrStart src) (\<lambda>start. res_bind (strlen_bytes (drop start src)) (\<lambda>len.
       res_bind (rtlDupSubString (drop start src) len) (\<lambda>tgt. Inr (len, tgt))))"

definition rtlAssignTrimLeftV :: "nat \<Rightarrow> block \<Rightarrow> nat \<Rightarrow> bytes \<Rightarrow> block res" where
  "rtlAssignTrimLeftV tlen tgt slen src =
     res_bind (rtlLeftTrimStrStart slen src) (\<lambda>start. rtlCopySubStringV tlen tgt (slen - start) (drop start src))"

definition rtlAssignTrimVLeftV :: "nat \<Rightarrow> block \<Rightarrow> bytes \<Rightarrow> block res" where
  "rtlAssignTrimVLeftV tlen tgt src =
     res_bind (rtlLeftTrimVStrStart src) (\<lambda>start. res_bind (strlen_bytes (drop start src)) (\<lambda>len.
       rtlCopySubStringV tlen tgt len (drop start src)))"

definition rtlTrimBoth :: "nat \<Rightarrow> bytes \<Rightarrow> (nat \<times> block) res" where
  "rtlTrimBoth slen src =
     res_bind (rtlTrimStrLen slen src) (\<lambda>len.
     res_bind (if len \<noteq> 0 then rtlLeftTrimStrStart slen src else Inr 0) (\<lambda>start.
       let len = u32 (len + 2 ^ 32 - start)
       in res_bind (rtlDupSubString (drop start src) len) (\<lambda>tgt. Inr (len, tgt))))"

definition rtlTrimVBoth :: "bytes \<Rightarrow> (nat \<times> block) res" where
  "rtlTrimVBoth src =
     res_bind (rtlTrimVStrLen src) (\<lambda>len.
     res_bind (if len \<noteq> 0 then rtlLeftTrimVStrStart src else Inr 0) (\<lambda>start.
       let len = u32 (len + 2 ^ 32 - start)
       in res_bind (rtlDupSubString (drop start src) len) (\<lambda>tgt. Inr (len, tgt))))"

definition rtlAssignTrimBothV :: "nat \<Rightarrow> block \<Rightarrow> nat \<Rightarrow> bytes \<Rightarrow> block res" where
  "rtlAssignTrimBothV tlen tgt slen src =
     res_bind (rtlTrimStrLen slen src) (\<lambda>len.
     res_bind (if len \<noteq> 0 then rtlLeftTrimStrStart slen src else Inr 0) (\<lambda>start.
       rtlCopySubStringV tlen tgt (u32 (len + 2 ^ 32 - start)) (drop start src)))"

definition rtlAssignTrimVBothV :: "nat \<Rightarrow> block \<Rightarrow> bytes \<Rightarrow> block res" where
  "rtlAssignTrimVBothV tlen tgt src =
     res_bind (rtlTrimVStrLen src) (\<lambda>len.
     res_bind (if len \<noteq> 0 then rtlLeftTrimVStrStart src else Inr 0) (\<lambda>start.
       rtlCopySubStringV tlen tgt (u32 (len + 2 ^ 32 - start)) (drop start src)))"

fun rtlTrimStrLenNonBlank :: "nat \<Rightarrow> bytes \<Rightarrow> nat res" where
  "rtlTrimStrLenNonBlank 0 t = Inr 0"
| "rtlTrimStrLenNonBlank (Suc l) t =
     res_bind (peek t l) (\<lambda>c. res_bind (rtlTrimStrLenNonBlank l t) (\<lambda>n. Inr (if c \<noteq> 0x20 then n + 1 else n)))"

fun rtlTrimVStrLenNonBlank :: "bytes \<Rightarrow> nat res" where
  "rtlTrimVStrLenNonBlank [] = Inl OutOfRange"
| "rtlTrimVStrLenNonBlank (c # t) =
     (if c = 0 then Inr 0 else res_bind (rtlTrimVStrLenNonBlank t) (\<lambda>n. Inr (if c \<noteq> 0x20 then n + 1 else n)))"

fun all_loop :: "bytes \<Rightarrow> nat \<Rightarrow> nat \<Rightarrow> nat \<Rightarrow> block \<Rightarrow> block res" where
  "all_loop src i 0 ind buf = Inr buf"
| "all_loop src i (Suc k) ind buf =
     res_bind (peek src i) (\<lambda>c. if c \<noteq> 0x20 then res_bind (poke buf ind c) (all_loop src (i + 1) k (ind + 1)) else all_loop src (i + 1) k ind buf)"

definition rtlTrimAll :: "nat \<Rightarrow> bytes \<Rightarrow> (nat \<times> block) res" where
  "rtlTrimAll slen src =
     res_bind (rtlTrimStrLenNonBlank slen src) (\<lambda>tlen. res_bind (all_loop src 0 slen 0 (malloc tlen)) (\<lambda>tgt. Inr (tlen, tgt)))"

fun vall_loop :: "bytes \<Rightarrow> nat \<Rightarrow> block \<Rightarrow> block res" where
  "vall_loop [] ind buf = Inl OutOfRange"
| "vall_loop (c # src) ind buf =
     (if c = 0 then Inr buf
      else if c \<noteq> 0x20 then res_bind (poke buf ind c) (vall_loop src (ind + 1)) else vall_loop src ind buf)"

definition rtlTrimVAll :: "bytes \<Rightarrow> (nat \<times> block) res" where
  "rtlTrimVAll src = res_bind (rtlTrimVStrLenNonBlank src) (\<lambda>tlen. res_bind (vall_loop src 0 (malloc tlen)) (\<lambda>tgt. Inr (tlen, tgt)))"

fun assign_all_loop :: "nat \<Rightarrow> bytes \<Rightarrow> nat \<Rightarrow> nat \<Rightarrow> nat \<Rightarrow> block \<Rightarrow> (nat \<times> block) res" where
  "assign_all_loop tlen src i 0 to_pos tgt = Inr (to_pos, tgt)"
| "assign_all_loop tlen src i (Suc k) to_pos tgt =
     (if u32 (to_pos + 1) < tlen then
        res_bind (peek src i) (\<lambda>c.
          if c \<noteq> 0x20 then res_bind (poke tgt to_pos c) (assign_all_loop tlen src (i + 1) k (u32 (to_pos + 1)))
          else assign_all_loop tlen src (i + 1) k to_pos tgt)
      else Inr (to_pos, tgt))"

definition rtlAssignTrimAllV :: "nat \<Rightarrow> block \<Rightarrow> nat \<Rightarrow> bytes \<Rightarrow> block res" where
  "rtlAssignTrimAllV tlen tgt slen src =
     res_bind (assign_all_loop tlen src 0 slen 0 tgt) (\<lambda>(to_pos, tgt). poke tgt to_pos 0)"

fun assign_vall_loop :: "nat \<Rightarrow> bytes \<Rightarrow> nat \<Rightarrow> block \<Rightarrow> (nat \<times> block) res" where
  "assign_vall_loop tlen [] to_pos tgt = Inl OutOfRange"
| "assign_vall_loop tlen (c # src) to_pos tgt =
     (if c \<noteq> 0 \<and> u32 (to_pos + 1) < tlen then
        if c \<noteq> 0x20 then res_bind (poke tgt to_pos c) (assign_vall_loop tlen src (u32 (to_pos + 1)))
        else assign_vall_loop tlen src to_pos tgt
      else Inr (to_pos, tgt))"

definition rtlAssignTrimVAllV :: "nat \<Rightarrow> block \<Rightarrow> bytes \<Rightarrow> block res" where
  "rtlAssignTrimVAllV tlen tgt src = res_bind (assign_vall_loop tlen src 0 tgt) (\<lambda>(to_pos, tgt). poke tgt to_pos 0)"

section \<open>Comparing\<close>

text \<open>The difference of the first of \<open>k\<close> characters from \<open>i\<close> on that is not \<open>pad\<close>, or zero.\<close>

fun pad_diff_loop :: "8 word \<Rightarrow> bytes \<Rightarrow> nat \<Rightarrow> nat \<Rightarrow> int res" where
  "pad_diff_loop pad p i 0 = Inr 0"
| "pad_diff_loop pad p i (Suc k) =
     res_bind (peek p i) (\<lambda>c. let diff = int (unat c) - int (unat pad) in if diff \<noteq> 0 then Inr diff else pad_diff_loop pad p (i + 1) k)"

definition compare_padded :: "8 word \<Rightarrow> nat \<Rightarrow> bytes \<Rightarrow> nat \<Rightarrow> bytes \<Rightarrow> int res" where
  "compare_padded pad l1 p1 l2 p2 =
     (let len = (if l1 > l2 then l2 else l1)
      in res_bind (memcmp_iflen p1 p2 len) (\<lambda>diff.
           if diff = 0 then
             if len \<noteq> l1 then pad_diff_loop pad p1 len (l1 - len)
             else if len \<noteq> l2 then res_bind (pad_diff_loop pad p2 len (l2 - len)) (\<lambda>d. Inr (- d))
             else Inr diff
           else Inr diff))"

definition rtlCompareStrStr :: "nat \<Rightarrow> bytes \<Rightarrow> nat \<Rightarrow> bytes \<Rightarrow> int res" where
  "rtlCompareStrStr l1 p1 l2 p2 = compare_padded 0x20 l1 p1 l2 p2"

definition rtlCompareVStrVStr :: "bytes \<Rightarrow> bytes \<Rightarrow> int res" where
  "rtlCompareVStrVStr p1 p2 =
     res_bind (strlen_bytes p1) (\<lambda>l1. res_bind (strlen_bytes p2) (\<lambda>l2. rtlCompareStrStr l1 p1 l2 p2))"

definition rtlCompareStrBlank :: "nat \<Rightarrow> bytes \<Rightarrow> int res" where
  "rtlCompareStrBlank l1 p1 = pad_diff_loop 0x20 p1 0 l1"

definition rtlCompareDataData :: "nat \<Rightarrow> bytes \<Rightarrow> nat \<Rightarrow> bytes \<Rightarrow> int res" where
  "rtlCompareDataData l1 p1 l2 p2 =
     (let len = (if l1 > l2 then l2 else l1)
      in res_bind (memcmp_iflen p1 p2 len) (\<lambda>diff.
           Inr (if diff = 0 then if l1 > l2 then 1 else if l1 < l2 then - 1 else diff else diff)))"

definition rtlCompareEStrEStr :: "nat \<Rightarrow> bytes \<Rightarrow> nat \<Rightarrow> bytes \<Rightarrow> int res" where
  "rtlCompareEStrEStr l1 p1 l2 p2 = compare_padded 0x40 l1 p1 l2 p2"

text \<open>The position of the first difference as an \<^verbatim>\<open>int\<close>, negated when the first string is less; the least \<^verbatim>\<open>int\<close> has no
  negation.\<close>

definition prefix_pos :: "bool \<Rightarrow> nat \<Rightarrow> int res" where
  "prefix_pos lt n =
     (let n = s32 (u32 n) in if lt then if n = - (2 ^ 31) then Inl Undefined else Inr (- n) else Inr n)"

fun prefix_loop :: "bytes \<Rightarrow> bytes \<Rightarrow> nat \<Rightarrow> nat \<Rightarrow> nat \<Rightarrow> int option res" where
  "prefix_loop p1 p2 i 0 origin = Inr None"
| "prefix_loop p1 p2 i (Suc k) origin =
     res_bind (peek p1 i) (\<lambda>c1. res_bind (peek p2 i) (\<lambda>c2.
       if c1 \<noteq> c2 then res_bind (prefix_pos (c1 < c2) (i + origin + 1)) (\<lambda>d. Inr (Some d))
       else prefix_loop p1 p2 (i + 1) k origin))"

definition rtlPrefixDiffStrEx :: "nat \<Rightarrow> bytes \<Rightarrow> nat \<Rightarrow> bytes \<Rightarrow> nat \<Rightarrow> int res" where
  "rtlPrefixDiffStrEx l1 p1 l2 p2 origin =
     (let len = (if l1 < l2 then l1 else l2)
      in res_bind (prefix_loop p1 p2 0 len origin) (\<lambda>r.
           case r of Some d \<Rightarrow> Inr d
           | None \<Rightarrow> if l1 \<noteq> l2 then prefix_pos (l1 < l2) (len + origin + 1) else Inr 0))"

definition rtlPrefixDiffStr :: "nat \<Rightarrow> bytes \<Rightarrow> nat \<Rightarrow> bytes \<Rightarrow> int res" where
  "rtlPrefixDiffStr l1 p1 l2 p2 = rtlPrefixDiffStrEx l1 p1 l2 p2 0"

section \<open>Binary search\<close>

text \<open>
  The loop that the functions share; \<open>cmp\<close> compares what is searched with an element. The body runs once before the
  condition is tested. The indices are signed 32 bit numbers, and so is the number of elements once it is assigned to one of
  them; their sum is undefined when it is not such a number.
\<close>

function search_loop :: "('a \<Rightarrow> int res) \<Rightarrow> 'a list \<Rightarrow> int \<Rightarrow> int \<Rightarrow> int res" where
  "search_loop cmp tbl left right =
     (if left + right < - (2 ^ 31) \<or> left + right \<ge> 2 ^ 31 then Inl Undefined
      else let mid = (left + right) div 2
        in res_bind (rd tbl mid) (\<lambda>x. res_bind (cmp x) (\<lambda>c.
             if c < 0 then if left < mid then search_loop cmp tbl left mid else Inr (- 1)
             else if c > 0 then if mid + 1 < right then search_loop cmp tbl (mid + 1) right else Inr (- 1)
             else Inr mid)))"
  by pat_completeness auto
termination
  by (relation "measure (\<lambda>(cmp, tbl, left, right). nat (right - left))") auto

declare search_loop.simps [simp del]

fun strcmp :: "bytes \<Rightarrow> bytes \<Rightarrow> int res" where
  "strcmp (x # xs) (y # ys) = (if x \<noteq> y then Inr (int (unat x) - int (unat y)) else if x = 0 then Inr 0 else strcmp xs ys)"
| "strcmp _ _ = Inl OutOfRange"

definition searchTableStringN :: "nat \<Rightarrow> bytes list \<Rightarrow> nat \<Rightarrow> bytes \<Rightarrow> int res" where
  "searchTableStringN cnt tbl width srch = search_loop (\<lambda>x. memcmp_iflen srch x width) tbl 0 (s32 cnt)"

definition rtlSearchTableStringN :: "nat \<Rightarrow> bytes list \<Rightarrow> nat \<Rightarrow> bytes \<Rightarrow> int res" where
  "rtlSearchTableStringN cnt tbl width srch = search_loop (\<lambda>x. memcmp_iflen srch x width) tbl 0 (s32 cnt)"

definition rtlSearchTableVStringN :: "nat \<Rightarrow> bytes list \<Rightarrow> bytes \<Rightarrow> int res" where
  "rtlSearchTableVStringN cnt tbl srch = search_loop (strcmp srch) tbl 0 (s32 cnt)"

definition rtlNewSearchDataTable :: "nat \<Rightarrow> nat \<Rightarrow> bytes list \<Rightarrow> nat \<Rightarrow> bytes \<Rightarrow> int res" where
  "rtlNewSearchDataTable cnt elemlen tbl width srch =
     search_loop (\<lambda>x. rtlCompareDataData width srch elemlen x) tbl 0 (s32 cnt)"

definition rtlNewSearchEStringTable :: "nat \<Rightarrow> nat \<Rightarrow> bytes list \<Rightarrow> nat \<Rightarrow> bytes \<Rightarrow> int res" where
  "rtlNewSearchEStringTable cnt elemlen tbl width srch =
     search_loop (\<lambda>x. rtlCompareEStrEStr width srch elemlen x) tbl 0 (s32 cnt)"

definition rtlNewSearchQStringTable :: "nat \<Rightarrow> nat \<Rightarrow> bytes list \<Rightarrow> nat \<Rightarrow> bytes \<Rightarrow> int res" where
  "rtlNewSearchQStringTable cnt elemlen tbl width srch =
     search_loop (\<lambda>x. rtlCompareQStrQStr width srch elemlen x) tbl 0 (s32 cnt)"

definition rtlNewSearchStringTable :: "nat \<Rightarrow> nat \<Rightarrow> bytes list \<Rightarrow> nat \<Rightarrow> bytes \<Rightarrow> int res" where
  "rtlNewSearchStringTable cnt elemlen tbl width srch =
     search_loop (\<lambda>x. rtlCompareStrStr width srch elemlen x) tbl 0 (s32 cnt)"

definition rtlSearchIntegerTable :: "nat \<Rightarrow> int list \<Rightarrow> int \<Rightarrow> int res" where
  "rtlSearchIntegerTable cnt tbl srch =
     search_loop (\<lambda>x. Inr (if srch < x then - 1 else if srch > x then 1 else 0)) tbl 0 (s32 cnt)"

definition rtlSearchTableInteger8 :: "nat \<Rightarrow> 64 word list \<Rightarrow> 64 word \<Rightarrow> int res" where
  "rtlSearchTableInteger8 cnt tbl srch = rtlSearchIntegerTable cnt (map sint tbl) (sint srch)"

definition rtlSearchTableUInteger8 :: "nat \<Rightarrow> 64 word list \<Rightarrow> 64 word \<Rightarrow> int res" where
  "rtlSearchTableUInteger8 cnt tbl srch = rtlSearchIntegerTable cnt (map uint tbl) (uint srch)"

definition rtlSearchTableInteger4 :: "nat \<Rightarrow> 32 word list \<Rightarrow> 32 word \<Rightarrow> int res" where
  "rtlSearchTableInteger4 cnt tbl srch = rtlSearchIntegerTable cnt (map sint tbl) (sint srch)"

definition rtlSearchTableUInteger4 :: "nat \<Rightarrow> 32 word list \<Rightarrow> 32 word \<Rightarrow> int res" where
  "rtlSearchTableUInteger4 cnt tbl srch = rtlSearchIntegerTable cnt (map uint tbl) (uint srch)"

section \<open>Ranges of keys of strings and data\<close>

text \<open>\<open>k\<close> characters are left above \<open>compareLen\<close>.\<close>

fun range_trim :: "8 word \<Rightarrow> bytes \<Rightarrow> nat \<Rightarrow> nat \<Rightarrow> nat res" where
  "range_trim pad str compareLen 0 = Inr compareLen"
| "range_trim pad str compareLen (Suc k) =
     res_bind (peek str (compareLen + k)) (\<lambda>c. if c = pad then range_trim pad str compareLen k else Inr (compareLen + Suc k))"

definition rtlCreateRange :: "nat \<Rightarrow> nat \<Rightarrow> nat \<Rightarrow> bytes \<Rightarrow> 8 word \<Rightarrow> 8 word \<Rightarrow> (nat \<times> block) res" where
  "rtlCreateRange fieldLen compareLen len str fill pad =
     (let compareLen = (if compareLen > fieldLen then if s32 compareLen \<ge> 0 then fieldLen else 0 else compareLen)
      in res_bind
        (if len > compareLen then
           res_bind (range_trim pad str compareLen (len - compareLen)) (\<lambda>len.
             if len > compareLen then Inr (len, 0, if fill = 0 then 255 else 0) else Inr (len, compareLen, fill))
         else Inr (len, compareLen, fill))
        (\<lambda>(len, compareLen, fill).
          res_bind
            (if len \<ge> compareLen then copy_mem (malloc fieldLen) 0 str compareLen
             else res_bind (copy_mem (malloc fieldLen) 0 str len) (\<lambda>out. memset out len pad (compareLen - len)))
            (\<lambda>out. res_bind (if fieldLen > compareLen then memset out compareLen fill (fieldLen - compareLen) else Inr out)
              (\<lambda>out. Inr (fieldLen, out)))))"

definition rtlCreateStrRangeLow :: "nat \<Rightarrow> nat \<Rightarrow> nat \<Rightarrow> bytes \<Rightarrow> (nat \<times> block) res" where
  "rtlCreateStrRangeLow fieldLen compareLen len str = rtlCreateRange fieldLen compareLen len str 0 0x20"

definition rtlCreateStrRangeHigh :: "nat \<Rightarrow> nat \<Rightarrow> nat \<Rightarrow> bytes \<Rightarrow> (nat \<times> block) res" where
  "rtlCreateStrRangeHigh fieldLen compareLen len str = rtlCreateRange fieldLen compareLen len str 255 0x20"

definition rtlCreateDataRangeLow :: "nat \<Rightarrow> nat \<Rightarrow> nat \<Rightarrow> bytes \<Rightarrow> (nat \<times> block) res" where
  "rtlCreateDataRangeLow fieldLen compareLen len str = rtlCreateRange fieldLen compareLen len str 0 0"

definition rtlCreateDataRangeHigh :: "nat \<Rightarrow> nat \<Rightarrow> nat \<Rightarrow> bytes \<Rightarrow> (nat \<times> block) res" where
  "rtlCreateDataRangeHigh fieldLen compareLen len str = rtlCreateRange fieldLen compareLen len str 255 0"

definition rtlCreateRangeLow :: "nat \<Rightarrow> nat \<Rightarrow> nat \<Rightarrow> bytes \<Rightarrow> (nat \<times> block) res" where
  "rtlCreateRangeLow fieldLen compareLen len str = rtlCreateRange fieldLen compareLen len str 0 0x20"

definition rtlCreateRangeHigh :: "nat \<Rightarrow> nat \<Rightarrow> nat \<Rightarrow> bytes \<Rightarrow> (nat \<times> block) res" where
  "rtlCreateRangeHigh fieldLen compareLen len str = rtlCreateRange fieldLen compareLen len str 255 0x20"

section \<open>Packed integers\<close>

definition numExtraBytesFromValue :: "64 word \<Rightarrow> nat" where
  "numExtraBytesFromValue first =
     (if first \<ge> 0x10000000 then
        if first \<ge> 0x40000000000 then
          if first \<ge> 0x2000000000000 then if first \<ge> 0x100000000000000 then 8 else 7 else 6
        else if first \<ge> 0x800000000 then 5 else 4
      else if first \<ge> 0x4000 then if first \<ge> 0x200000 then 3 else 2
      else if first \<ge> 0x80 then 1 else 0)"

definition numExtraBytesFromFirst :: "8 word \<Rightarrow> nat" where
  "numExtraBytesFromFirst first =
     (if first \<ge> 0xF0 then
        if first \<ge> 0xFC then if first \<ge> 0xFE then if first \<ge> 0xFF then 8 else 7 else 6
        else if first \<ge> 0xF8 then 5 else 4
      else if first \<ge> 0xC0 then if first \<ge> 0xE0 then 3 else 2
      else if first \<ge> 0x80 then 1 else 0)"

definition leadingValueMask :: "8 word list" where
  "leadingValueMask = [0x7f, 0x3f, 0x1f, 0x0f, 0x07, 0x03, 0x01, 0x00, 0x00]"

definition leadingLengthMask :: "8 word list" where
  "leadingLengthMask = [0x00, 0x80, 0xC0, 0xE0, 0xF0, 0xF8, 0xFC, 0xFE, 0xFF]"

fun get_packed_loop :: "nat \<Rightarrow> bytes \<Rightarrow> 64 word \<Rightarrow> 64 word res" where
  "get_packed_loop 0 ptr v = Inr v"
| "get_packed_loop (Suc n) ptr v = res_bind (peek ptr 0) (\<lambda>b. get_packed_loop n (tl ptr) (push_bit 8 v OR ucast b))"

definition rtlGetPackedUnsigned :: "bytes \<Rightarrow> 64 word res" where
  "rtlGetPackedUnsigned ptr =
     res_bind (peek ptr 0) (\<lambda>first. let numExtra = numExtraBytesFromFirst first in
       get_packed_loop numExtra (tl ptr) (ucast (first AND (leadingValueMask ! numExtra))))"

fun set_packed_loop :: "nat \<Rightarrow> block \<Rightarrow> 64 word \<Rightarrow> (block \<times> 64 word) res" where
  "set_packed_loop 0 ptr v = Inr (ptr, v)"
| "set_packed_loop (Suc n) ptr v = res_bind (poke ptr (Suc n) (ucast v)) (\<lambda>ptr. set_packed_loop n ptr (drop_bit 8 v))"

definition rtlSetPackedUnsigned :: "block \<Rightarrow> 64 word \<Rightarrow> block res" where
  "rtlSetPackedUnsigned ptr v =
     (let numExtra = numExtraBytesFromValue v; firstMask = leadingLengthMask ! numExtra
      in res_bind (set_packed_loop numExtra ptr v) (\<lambda>(ptr, v). poke ptr 0 (ucast v OR firstMask)))"

definition rtlGetPackedSize :: "bytes \<Rightarrow> nat res" where
  "rtlGetPackedSize ptr = res_bind (peek ptr 0) (\<lambda>first. Inr (numExtraBytesFromFirst first + 1))"

definition rtlGetPackedSizeFromFirst :: "8 word \<Rightarrow> nat" where
  "rtlGetPackedSizeFromFirst first = numExtraBytesFromFirst first + 1"

definition rtlGetPackedSigned :: "bytes \<Rightarrow> 64 word res" where
  "rtlGetPackedSigned ptr =
     res_bind (rtlGetPackedUnsigned ptr) (\<lambda>v. let shifted = drop_bit 1 v in Inr (if v AND 1 \<noteq> 0 then NOT shifted else shifted))"

definition rtlSetPackedSigned :: "block \<Rightarrow> 64 word \<Rightarrow> block res" where
  "rtlSetPackedSigned ptr v =
     (let storeValue = (if v <s 0 then push_bit 1 (NOT v) OR 1 else push_bit 1 v) in rtlSetPackedUnsigned ptr storeValue)"

end
