(* ===== verification/Rtlstr_Proofs.thy ===== *)
theory Rtlstr_Proofs
  imports Rtlstr Rtlqstr_Range Rtlqstr_Sub
begin

text \<open>
  Comparison of strings as the order of numbers, and binary search for every comparison that is such an order: the
  locale \<open>keyed_search\<close> states what the search relies on, and it is interpreted for the comparisons of strings, of data,
  of six-bit strings and of integers.
\<close>

section \<open>Padded comparison\<close>

lemma pad_diff_loop_eq:
  assumes "i + k \<le> length p"
  shows "\<exists>d. pad_diff_loop pad p i k = Inr d \<and> sgn d = blank_cmp (take k (drop i p)) (replicate k pad)"
  using assms
proof (induction k arbitrary: i)
  case (Suc k)
  then have i: "i < length p" by simp
  show ?case
  proof (cases "p ! i = pad")
    case True
    then show ?thesis using Suc.IH [of "i + 1"] Suc.prems by (simp add: peek_in i Cons_nth_drop_Suc [OF i, symmetric])
  next
    case False
    then show ?thesis by (auto simp: peek_in i Cons_nth_drop_Suc [OF i, symmetric] word_less_def sgn_if word_uint_eq_iff)
  qed
qed simp

lemma compare_padded_eq:
  assumes "l1 \<le> length p1" "l2 \<le> length p2"
  shows "\<exists>d. compare_padded pad l1 p1 l2 p2 = Inr d \<and>
    sgn d = blank_cmp (fit (max l1 l2) pad (take l1 p1)) (fit (max l1 l2) pad (take l2 p2))"
proof (cases "l1 > l2")
  case True
  let ?a = "take l2 p1" and ?b = "take l2 p2"
  have fits: "fit (max l1 l2) pad (take l1 p1) = ?a @ take (l1 - l2) (drop l2 p1)" "fit (max l1 l2) pad (take l2 p2) = ?b @ replicate (l1 - l2) pad"
    using True assms take_add [of l2 "l1 - l2" p1] by (simp_all add: fit_def)
  have d: "sgn (memcmp ?a ?b) = blank_cmp ?a ?b" using True assms by (intro memcmp_sgn) simp
  obtain e where e: "pad_diff_loop pad p1 l2 (l1 - l2) = Inr e" "sgn e = blank_cmp (take (l1 - l2) (drop l2 p1)) (replicate (l1 - l2) pad)"
    using pad_diff_loop_eq [of l2 "l1 - l2" p1 pad] True assms by auto
  show ?thesis unfolding fits using True assms d e blank_cmp_append [of ?a ?b]
    by (auto simp: compare_padded_def memcmp_iflen_def Let_def sgn_0_0)
next
  case False
  let ?a = "take l1 p1" and ?b = "take l1 p2"
  have fits: "fit (max l1 l2) pad (take l2 p2) = ?b @ take (l2 - l1) (drop l1 p2)" "fit (max l1 l2) pad (take l1 p1) = ?a @ replicate (l2 - l1) pad"
    using False assms take_add [of l1 "l2 - l1" p2] by (simp_all add: fit_def)
  have d: "sgn (memcmp ?a ?b) = blank_cmp ?a ?b" using False assms by (intro memcmp_sgn) simp
  obtain e where e: "pad_diff_loop pad p2 l1 (l2 - l1) = Inr e" "sgn e = blank_cmp (take (l2 - l1) (drop l1 p2)) (replicate (l2 - l1) pad)"
    using pad_diff_loop_eq [of l1 "l2 - l1" p2 pad] False assms by auto
  then have e': "sgn (- e) = blank_cmp (replicate (l2 - l1) pad) (take (l2 - l1) (drop l1 p2))"
    using blank_cmp_commute [of "replicate (l2 - l1) pad"] by (simp add: sgn_minus)
  show ?thesis unfolding fits using False assms d e(1) e' blank_cmp_append [of ?a ?b]
    by (auto simp: compare_padded_def memcmp_iflen_def Let_def sgn_0_0)
qed

text \<open>The order of byte strings of one length is the order of their numbers.\<close>

definition bkey :: "nat \<Rightarrow> 8 word \<Rightarrow> bytes \<Rightarrow> int" where
  "bkey n pad xs = int (num_of 256 (fit n pad xs))"

lemma unat_less_256: "unat x < 256" for x :: "8 word"
  using unsigned_less [where 'a = nat, of x] by simp

lemma blank_cmp_bkey: "blank_cmp (fit n pad xs) (fit n pad ys) = sgn (bkey n pad xs - bkey n pad ys)"
  unfolding bkey_def by (rule blank_cmp_num) (simp_all add: unat_less_256)

section \<open>Binary search\<close>

text \<open>What is searched and the elements have keys, and the comparison has the sign of their difference.\<close>

locale keyed_search =
  fixes cmp :: "'k \<Rightarrow> 'a \<Rightarrow> int res" and kkey :: "'k \<Rightarrow> int" and akey :: "'a \<Rightarrow> int" and kok :: "'k \<Rightarrow> bool" and aok :: "'a \<Rightarrow> bool"
  assumes cmp_sgn: "kok k \<Longrightarrow> aok a \<Longrightarrow> \<exists>d. cmp k a = Inr d \<and> sgn d = sgn (kkey k - akey a)"
begin

lemma search_loop_correct:
  assumes "kok k" "\<forall>a \<in> set tbl. aok a" "sorted (map akey tbl)" "l < r" "r \<le> length tbl" "length tbl \<le> 2 ^ 30"
    "\<forall>i < l. akey (tbl ! i) < kkey k" "\<forall>i. r \<le> i \<longrightarrow> i < length tbl \<longrightarrow> kkey k < akey (tbl ! i)"
  shows "(\<exists>i. search_loop (cmp k) tbl (int l) (int r) = Inr (int i) \<and> i < length tbl \<and> akey (tbl ! i) = kkey k) \<or>
    search_loop (cmp k) tbl (int l) (int r) = Inr (- 1) \<and> (\<forall>a \<in> set tbl. akey a \<noteq> kkey k)"
  using assms(4-)
proof (induction "r - l" arbitrary: l r rule: less_induct)
  case less
  let ?m = "(l + r) div 2"
  have m: "l \<le> ?m" "?m < r" using less.prems(1) by auto
  then have mlen: "?m < length tbl" using less.prems(2) by simp
  have sort: "akey (tbl ! i) \<le> akey (tbl ! j)" if "i \<le> j" "j < length tbl" for i j
    using assms(3) that sorted_nth_mono [of "map akey tbl" i j] by simp
  have none: "\<forall>a \<in> set tbl. akey a \<noteq> kkey k"
    if "\<And>i. i < s \<Longrightarrow> akey (tbl ! i) < kkey k" "\<And>i. s \<le> i \<Longrightarrow> i < length tbl \<Longrightarrow> kkey k < akey (tbl ! i)" for s
    using that by (metis in_set_conv_nth less_irrefl not_le)
  obtain d where d: "cmp k (tbl ! ?m) = Inr d" "sgn d = sgn (kkey k - akey (tbl ! ?m))"
    using cmp_sgn [of k "tbl ! ?m"] assms(1,2) mlen by auto
  have fits: "\<not> (int l + int r < - (2 ^ 31) \<or> int l + int r \<ge> 2 ^ 31)" using less.prems(1-3) by simp
  have mid: "(int l + int r) div 2 = int ?m" by simp
  have rdm: "rd tbl (int ?m) = Inr (tbl ! ?m)" using mlen by (simp add: rd_def)
  have step: "search_loop (cmp k) tbl (int l) (int r) =
      (if d < 0 then if l < ?m then search_loop (cmp k) tbl (int l) (int ?m) else Inr (- 1)
       else if d > 0 then if Suc ?m < r then search_loop (cmp k) tbl (int (Suc ?m)) (int r) else Inr (- 1)
       else Inr (int ?m))"
    unfolding search_loop.simps [of "cmp k" tbl "int l" "int r"] if_not_P [OF fits] Let_def mid rdm
    using d(1) by (simp add: add.commute)
  consider "d < 0" "kkey k < akey (tbl ! ?m)" | "d = 0" "kkey k = akey (tbl ! ?m)" | "d > 0" "akey (tbl ! ?m) < kkey k"
    using d(2) by (auto simp: sgn_if split: if_splits)
  then show ?case
  proof cases
    case 1
    have above: "\<forall>i. ?m \<le> i \<longrightarrow> i < length tbl \<longrightarrow> kkey k < akey (tbl ! i)" using 1(2) sort by (metis less_le_trans)
    show ?thesis
    proof (cases "l < ?m")
      case True
      have "search_loop (cmp k) tbl (int l) (int r) = search_loop (cmp k) tbl (int l) (int ?m)" using step 1(1) True by simp
      then show ?thesis using less.hyps [of ?m l] True m mlen less.prems(3,4) above by simp
    next
      case False
      then have "search_loop (cmp k) tbl (int l) (int r) = Inr (- 1)" using step 1(1) by simp
      moreover have "?m = l" using False m by simp
      ultimately show ?thesis using none [of l] less.prems(3,4) above by simp
    qed
  next
    case 2
    then show ?thesis using step mlen by auto
  next
    case 3
    have below: "\<forall>i < Suc ?m. akey (tbl ! i) < kkey k" using 3(2) sort mlen by (metis le_less_trans less_Suc_eq_le)
    show ?thesis
    proof (cases "Suc ?m < r")
      case True
      have "search_loop (cmp k) tbl (int l) (int r) = search_loop (cmp k) tbl (int (Suc ?m)) (int r)" using step 3(1) True by simp
      then show ?thesis using less.hyps [of r "Suc ?m"] True m less.prems(2,3,5) below by simp
    next
      case False
      then have "search_loop (cmp k) tbl (int l) (int r) = Inr (- 1)" using step 3(1) by simp
      moreover have "Suc ?m = r" using False m by simp
      ultimately show ?thesis using none [of r] less.prems(5) below by simp
    qed
  qed
qed

lemma search_correct:
  assumes "kok k" "\<forall>a \<in> set tbl. aok a" "sorted (map akey tbl)" "tbl \<noteq> []" "length tbl \<le> 2 ^ 30"
  shows "(\<exists>i. search_loop (cmp k) tbl 0 (s32 (length tbl)) = Inr (int i) \<and> i < length tbl \<and> akey (tbl ! i) = kkey k) \<or>
    search_loop (cmp k) tbl 0 (s32 (length tbl)) = Inr (- 1) \<and> (\<forall>a \<in> set tbl. akey a \<noteq> kkey k)"
  using search_loop_correct [OF assms(1-3), of 0 "length tbl"] assms(4,5) by (simp add: s32_small)

text \<open>In a table of more elements, a search for a key above all of them reaches a sum of indices that is undefined.\<close>

lemma search_loop_overflow:
  assumes "kok k" "\<forall>a \<in> set tbl. aok a \<and> akey a < kkey k" "2 ^ 30 < length tbl" "length tbl < 2 ^ 31" "l < length tbl"
  shows "search_loop (cmp k) tbl (int l) (int (length tbl)) = Inl Undefined"
  using assms(5)
proof (induction "length tbl - l" arbitrary: l rule: less_induct)
  case less
  let ?m = "(l + length tbl) div 2"
  show ?case
  proof (cases "l + length tbl \<ge> 2 ^ 31")
    case True
    then have "int l + int (length tbl) \<ge> 2 ^ 31" by simp
    then show ?thesis by (simp add: search_loop.simps [of _ _ "int l"])
  next
    case False
    then have m: "Suc ?m < length tbl" "l \<le> ?m" using assms(3) less.prems by auto
    then obtain d where d: "cmp k (tbl ! ?m) = Inr d" "sgn d = sgn (kkey k - akey (tbl ! ?m))"
      using cmp_sgn [of k "tbl ! ?m"] assms(1,2) by auto
    moreover have "akey (tbl ! ?m) < kkey k" using assms(2) m(1) by simp
    ultimately have "d > 0" by (simp add: sgn_if split: if_splits)
    moreover have "\<not> (int l + int (length tbl) < - (2 ^ 31) \<or> int l + int (length tbl) \<ge> 2 ^ 31)" using False by simp
    moreover have "(int l + int (length tbl)) div 2 = int ?m" by simp
    moreover have "rd tbl (int ?m) = Inr (tbl ! ?m)" using m(1) by (simp add: rd_def)
    ultimately have "search_loop (cmp k) tbl (int l) (int (length tbl)) = search_loop (cmp k) tbl (int (Suc ?m)) (int (length tbl))"
      using d(1) m(1) search_loop.simps [of "cmp k" tbl "int l" "int (length tbl)"] by (simp add: Let_def add.commute)
    then show ?thesis using less.hyps [of "Suc ?m"] m by simp
  qed
qed

end

text \<open>An empty table is read all the same.\<close>

lemma search_empty: "search_loop cmp [] 0 (s32 0) = Inl OutOfRange"
  by (simp add: search_loop.simps rd_def s32_def)

interpretation string_table: keyed_search "\<lambda>k a. compare_padded pad w k e a" "\<lambda>k. bkey (max w e) pad (take w k)"
    "\<lambda>a. bkey (max w e) pad (take e a)" "\<lambda>k. w \<le> length k" "\<lambda>a. e \<le> length a" for pad w e
  by unfold_locales (metis blank_cmp_bkey compare_padded_eq)

interpretation integer_table: keyed_search "\<lambda>k a. Inr (if k < a then - 1 else if k > a then 1 else 0)" "\<lambda>k. k" "\<lambda>a. a" "\<lambda>_. True" "\<lambda>_. True"
  by unfold_locales auto

lemma memcmp_num: "length xs = length ys \<Longrightarrow> sgn (memcmp xs ys) = sgn (int (num_of 256 xs) - int (num_of 256 ys))"
  using memcmp_sgn [of xs ys] blank_cmp_num [of xs ys 256] unat_less_256 by simp

interpretation fixed_table: keyed_search "\<lambda>k a. memcmp_iflen k a w" "\<lambda>k. int (num_of 256 (take w k))" "\<lambda>a. int (num_of 256 (take w a))"
    "\<lambda>k. w \<le> length k" "\<lambda>a. w \<le> length a" for w
  by unfold_locales (simp add: memcmp_iflen_def memcmp_num)

lemma data_sgn:
  fixes a b m :: int and w e :: nat
  assumes "sgn m = sgn (a - b)"
  shows "sgn (if m = 0 then if w > e then 1 else if w < e then - 1 else 0 else m) =
    sgn (2 * a + (if w > e then 1 else 0) - (2 * b + (if w < e then 1 else 0)))"
proof -
  consider "m = 0" "a = b" | "m > 0" "a > b" | "m < 0" "a < b" using assms by (auto simp: sgn_if split: if_splits)
  then show ?thesis by cases simp_all
qed

interpretation data_table: keyed_search "\<lambda>k a. rtlCompareDataData w k e a"
    "\<lambda>k. 2 * int (num_of 256 (take (min w e) k)) + (if w > e then 1 else 0)"
    "\<lambda>a. 2 * int (num_of 256 (take (min w e) a)) + (if w < e then 1 else 0)" "\<lambda>k. w \<le> length k" "\<lambda>a. e \<le> length a" for w e
proof
  fix k a :: bytes assume len: "w \<le> length k" "e \<le> length a"
  let ?k = "take (min w e) k" and ?a = "take (min w e) a"
  have d: "sgn (memcmp ?k ?a) = sgn (int (num_of 256 ?k) - int (num_of 256 ?a))" using len by (intro memcmp_num) simp
  have c: "rtlCompareDataData w k e a =
      Inr (if memcmp ?k ?a = 0 then if w > e then 1 else if w < e then - 1 else 0 else memcmp ?k ?a)"
    using len by (auto simp: rtlCompareDataData_def memcmp_iflen_def min_def Let_def)
  show "\<exists>d. rtlCompareDataData w k e a = Inr d \<and> sgn d =
      sgn (2 * int (num_of 256 ?k) + (if w > e then 1 else 0) - (2 * int (num_of 256 ?a) + (if w < e then 1 else 0)))"
    by (rule exI, rule conjI, rule c, rule data_sgn [OF d])
qed

lemma blank_cmp_fit:
  assumes "length xs \<le> n" "length ys \<le> n"
  shows "blank_cmp xs ys = blank_cmp (fit n 0 xs) (fit n 0 ys)"
  using assms by (simp add: fit_def blank_cmp_zeros blank_cmp_zeros_right)

interpretation qstring_table: keyed_search "\<lambda>k a. rtlCompareQStrQStr w k e a" "\<lambda>k. bkey (max (qsize w) (qsize e)) 0 (take (qsize w) k)"
    "\<lambda>a. bkey (max (qsize w) (qsize e)) 0 (take (qsize e) a)" "\<lambda>k. qsize w \<le> length k \<and> 3 * (w + 1) < 2 ^ 32"
    "\<lambda>a. qsize e \<le> length a \<and> 3 * (e + 1) < 2 ^ 32" for w e
proof
  fix k a :: bytes assume "qsize w \<le> length k \<and> 3 * (w + 1) < 2 ^ 32" "qsize e \<le> length a \<and> 3 * (e + 1) < 2 ^ 32"
  then show "\<exists>d. rtlCompareQStrQStr w k e a = Inr d \<and> sgn d =
      sgn (bkey (max (qsize w) (qsize e)) 0 (take (qsize w) k) - bkey (max (qsize w) (qsize e)) 0 (take (qsize e) a))"
    using rtlCompareQStrQStr_sgn [of w k e a] blank_cmp_fit [of "take (qsize w) k" "max (qsize w) (qsize e)" "take (qsize e) a"] blank_cmp_bkey by simp
qed

section \<open>Trimming\<close>

definition rstrip :: "8 word \<Rightarrow> bytes \<Rightarrow> bytes" where
  "rstrip pad xs = rev (dropWhile (\<lambda>c. c = pad) (rev xs))"

lemma rstrip_snoc: "rstrip pad (xs @ [c]) = (if c = pad then rstrip pad xs else xs @ [c])"
  by (simp add: rstrip_def)

lemma rstrip_Nil [simp]: "rstrip pad [] = []"
  by (simp add: rstrip_def)

lemma rstrip_prefix: "\<exists>k. xs = rstrip pad xs @ replicate k pad"
proof (induction xs rule: rev_induct)
  case (snoc c xs)
  then obtain k where "xs = rstrip pad xs @ replicate k pad" by blast
  then have "xs @ [pad] = rstrip pad xs @ replicate (Suc k) pad" by (metis append_assoc replicate_append_same replicate_Suc)
  then show ?case by (cases "c = pad") (metis rstrip_snoc, simp add: rstrip_snoc)
qed simp

lemma length_rstrip: "length (rstrip pad xs) \<le> length xs" and take_rstrip: "take (length (rstrip pad xs)) xs = rstrip pad xs"
  using rstrip_prefix [of xs pad] by (metis append_eq_conv_conj length_append le_add1)+

lemma trim_right_eq: "l \<le> length t \<Longrightarrow> trim_right pad l t = Inr (length (rstrip pad (take l t)))"
proof (induction l)
  case (Suc l)
  then show ?case by (simp add: peek_in take_Suc_conv_app_nth rstrip_snoc)
qed simp

lemma left_loop_eq:
  "i + k \<le> length src \<Longrightarrow> left_loop src i k = Inr (i + length (takeWhile (\<lambda>c. c = 0x20) (take k (drop i src))))"
  by (induction k arbitrary: i) (auto simp: peek_in Cons_nth_drop_Suc [symmetric])

lemma rtlDupSubString_eq:
  assumes "len \<le> length src" "len + 1 < 2 ^ 32"
  shows "rtlDupSubString src len = Inr (map Some (take len src @ [0]))"
proof -
  have "copy_mem (malloc (u32 (len + 1))) 0 src len = Inr (map Some (take len src) @ [None])"
    using assms by (simp add: u32_def copy_mem_def store_block_in malloc_def del: replicate_Suc) simp
  then show ?thesis using assms by (simp add: rtlDupSubString_def poke_in list_update_append)
qed

lemma NonBlank_eq: "l \<le> length t \<Longrightarrow> rtlTrimStrLenNonBlank l t = Inr (length (filter (\<lambda>c. c \<noteq> 0x20) (take l t)))"
  by (induction l) (simp_all add: peek_in take_Suc_conv_app_nth)

lemma all_loop_eq:
  assumes "i + k \<le> length src" "ind + length (filter (\<lambda>c. c \<noteq> 0x20) (take k (drop i src))) \<le> length buf"
  shows "all_loop src i k ind buf = store_block buf ind (map Some (filter (\<lambda>c. c \<noteq> 0x20) (take k (drop i src))))"
  using assms
proof (induction k arbitrary: i ind buf)
  case 0
  then show ?case by (simp add: store_block_in)
next
  case (Suc k)
  then have i: "i < length src" by simp
  let ?rest = "filter (\<lambda>c. c \<noteq> 0x20) (take k (drop (Suc i) src))"
  have d: "take (Suc k) (drop i src) = src ! i # take k (drop (Suc i) src)" by (simp add: Cons_nth_drop_Suc [OF i, symmetric])
  show ?case
  proof (cases "src ! i = 0x20")
    case True
    then show ?thesis using Suc.IH [of "Suc i" ind buf] Suc.prems unfolding d by (simp add: peek_in i)
  next
    case False
    have "poke buf ind (src ! i) = Inr (take ind buf @ [Some (src ! i)] @ drop (ind + 1) buf)"
      using Suc.prems(2) False unfolding d by (simp add: poke_def store_block_in)
    then show ?thesis using False Suc.prems Suc.IH [of "Suc i" "Suc ind" "take ind buf @ [Some (src ! i)] @ drop (ind + 1) buf"]
        store_block_append [of ind "[Some (src ! i)]" "map Some ?rest" buf] unfolding d by (simp add: peek_in i)
  qed
qed

section \<open>Ranges of keys\<close>

lemma range_trim_eq:
  "c + k \<le> length str \<Longrightarrow> range_trim pad str c k = Inr (max c (length (rstrip pad (take (c + k) str))))"
proof (induction k)
  case 0
  then show ?case using length_rstrip [of pad "take c str"] by simp
next
  case (Suc k)
  have "take (c + Suc k) str = take (c + k) str @ [str ! (c + k)]" using Suc.prems by (simp add: take_Suc_conv_app_nth)
  then show ?case using Suc by (simp add: peek_in rstrip_snoc)
qed

definition str_range :: "nat \<Rightarrow> bytes \<Rightarrow> 8 word \<Rightarrow> bytes" where
  "str_range n ys fill = ys @ replicate (n - length ys) fill"

lemma length_str_range: "length ys \<le> n \<Longrightarrow> length (str_range n ys f) = n"
  by (simp add: str_range_def)

text \<open>The part of \<^verbatim>\<open>rtlCreateRange\<close> that fills the key.\<close>

lemma range_fill:
  assumes "len \<le> length str" "m \<le> n"
  shows "res_bind
      (if len \<ge> m then copy_mem (malloc n) 0 str m else res_bind (copy_mem (malloc n) 0 str len) (\<lambda>out. memset out len pad (m - len)))
      (\<lambda>out. res_bind (if n > m then memset out m fill (n - m) else Inr out) (\<lambda>out. Inr (n, out))) =
    Inr (n, map Some (str_range n (fit m pad (take len str)) fill))"
proof (cases "len \<ge> m")
  case True
  then have "copy_mem (malloc n) 0 str m = Inr (map Some (take m str) @ replicate (n - m) None)" "fit m pad (take len str) = take m str"
    using assms by (simp_all add: copy_mem_def store_block_in malloc_def fit_def)
  then show ?thesis using True assms by (auto simp: memset_def store_block_in str_range_def)
next
  case False
  then have "copy_mem (malloc n) 0 str len = Inr (map Some (take len str) @ replicate (n - len) None)"
    "fit m pad (take len str) = take len str @ replicate (m - len) pad"
    using assms by (simp_all add: copy_mem_def store_block_in malloc_def fit_def)
  moreover have "memset (map Some (take len str) @ replicate (n - len) None) len pad (m - len) =
      Inr (map Some (take len str @ replicate (m - len) pad) @ replicate (n - m) None)"
    using False assms by (simp add: memset_def store_block_in)
  ultimately show ?thesis using False assms by (auto simp: memset_def store_block_in str_range_def)
qed

lemma rtlCreateRange_eq:
  fixes fieldLen compareLen len :: nat and str :: bytes and fill pad :: "8 word"
  assumes "len \<le> length str" "compareLen < 2 ^ 32"
  defines "m \<equiv> range_len fieldLen compareLen" and "ys \<equiv> rstrip pad (take len str)"
  shows "rtlCreateRange fieldLen compareLen len str fill pad =
    Inr (fieldLen, map Some (if length ys \<le> m then str_range fieldLen (fit m pad ys) fill
      else str_range fieldLen [] (if fill = 0 then 255 else 0)))"
proof -
  have m: "(if compareLen > fieldLen then if s32 compareLen \<ge> 0 then fieldLen else 0 else compareLen) = m" "m \<le> fieldLen"
    using assms(2) by (auto simp: m_def range_len_def s32_def)
  obtain k where k: "take len str = ys @ replicate k pad" using rstrip_prefix [of "take len str" pad] unfolding ys_def by blast
  have "length (take len str) = len" using assms(1) by simp
  then have lk: "len = length ys + k" unfolding k by simp
  have pads: "fit m pad (take l str) = fit m pad ys" if "length ys \<le> l" "l \<le> len" for l
  proof -
    have "take l str = take l (take len str)" using that(2) by (simp add: min_def)
    also have "\<dots> = ys @ replicate (l - length ys) pad" unfolding k using that lk by simp
    finally show ?thesis by (auto simp: fit_def replicate_add [symmetric] min_def)
  qed
  show ?thesis
  proof (cases "len > m")
    case True
    then have trim: "range_trim pad str m (len - m) = Inr (max m (length ys))"
      using range_trim_eq [of m "len - m" str pad] assms(1) by (simp add: ys_def)
    show ?thesis
    proof (cases "length ys \<le> m")
      case le: True
      then show ?thesis using True trim m assms(1) range_fill [of m str m fieldLen pad fill] pads [of m]
        unfolding rtlCreateRange_def m(1) by (simp add: max_def)
    next
      case False
      then show ?thesis using True trim m assms(1) lk range_fill [of "length ys" str 0 fieldLen pad "if fill = 0 then 255 else 0"]
        unfolding rtlCreateRange_def m(1) by (simp add: max_def fit_def)
    qed
  next
    case False
    then have le: "length ys \<le> m" "length ys \<le> len" "\<not> m < len" using lk by simp_all
    then show ?thesis using range_fill [OF assms(1) m(2), of pad fill] pads [of len]
      unfolding rtlCreateRange_def m(1) by simp
  qed
qed

lemma blank_cmp_255_le: "blank_cmp xs (replicate (length xs) 255) \<le> 0"
proof (induction xs)
  case (Cons x xs)
  have "- 1 = (255 :: 8 word)" by simp
  then have "x \<noteq> 255 \<Longrightarrow> x < 255" using word_order.not_eq_extremum [of x] by metis
  with Cons show ?case by auto
qed simp

lemma memcmp_le: "length xs = length ys \<Longrightarrow> memcmp xs ys \<le> 0 \<longleftrightarrow> blank_cmp xs ys \<le> 0"
  using memcmp_sgn [of xs ys] sgn_le_0 [of "memcmp xs ys"] by simp

lemma str_range_selects:
  assumes "length ys \<le> n" "length key = n"
  shows "memcmp (str_range n ys 0) key \<le> 0 \<and> memcmp key (str_range n ys 255) \<le> 0 \<longleftrightarrow> take (length ys) key = ys"
proof -
  let ?m = "length ys"
  have key: "key = take ?m key @ drop ?m key" by simp
  have low: "blank_cmp (str_range n ys 0) key = (if blank_cmp ys (take ?m key) \<noteq> 0 then blank_cmp ys (take ?m key)
      else blank_cmp (replicate (n - ?m) 0) (drop ?m key))"
    unfolding str_range_def using assms blank_cmp_append [of ys "take ?m key" _ "drop ?m key"] by simp
  have high: "blank_cmp key (str_range n ys 255) = (if blank_cmp (take ?m key) ys \<noteq> 0 then blank_cmp (take ?m key) ys
      else blank_cmp (drop ?m key) (replicate (n - ?m) 255))"
    unfolding str_range_def using assms blank_cmp_append [of "take ?m key" ys "drop ?m key"] by simp
  have "blank_cmp (replicate (n - ?m) 0) (drop ?m key) \<le> 0" by (rule blank_cmp_zeros_le) simp
  moreover have "blank_cmp (drop ?m key) (replicate (n - ?m) 255) \<le> 0" using blank_cmp_255_le [of "drop ?m key"] assms by simp
  moreover have "blank_cmp (take ?m key) ys = - blank_cmp ys (take ?m key)" "blank_cmp (take ?m key) ys = 0 \<longleftrightarrow> take ?m key = ys"
    using blank_cmp_commute [of "take ?m key"] blank_cmp_eq_0 [of "take ?m key" ys] assms by simp_all
  ultimately show ?thesis using low high assms memcmp_le [of "str_range n ys 0" key] memcmp_le [of key "str_range n ys 255"]
    by (auto simp: length_str_range)
qed

lemma str_range_empty:
  assumes "length key = n" "0 < n"
  shows "\<not> (memcmp (str_range n [] 255) key \<le> 0 \<and> memcmp key (str_range n [] 0) \<le> 0)"
proof
  assume both: "memcmp (str_range n [] 255) key \<le> 0 \<and> memcmp key (str_range n [] 0) \<le> 0"
  obtain c cs k where c: "key = c # cs" "n = Suc k" using assms by (cases key; cases n) auto
  have "blank_cmp (replicate n 255) key \<le> 0" "blank_cmp key (replicate n 0) \<le> 0"
    using both assms(1) memcmp_le [of "replicate n 255" key] memcmp_le [of key "replicate n 0"] by (simp_all add: str_range_def)
  then show False using c by (auto split: if_splits)
qed

end
