(* ===== verification/Rtlstr_Packed.thy ===== *)
theory Rtlstr_Packed
  imports Rtlstr Rtlqstr_Order
begin

text \<open>
  Packed integers: the number of leading ones of the first byte is the number of bytes behind it, and the value follows
  with its most significant bits first.
\<close>

text \<open>The last \<open>n\<close> bytes of a number, the most significant one first.\<close>

fun be_bytes :: "nat \<Rightarrow> 64 word \<Rightarrow> bytes" where
  "be_bytes 0 v = []"
| "be_bytes (Suc n) v = be_bytes n (drop_bit 8 v) @ [ucast v]"

lemma length_be_bytes [simp]: "length (be_bytes n v) = n"
  by (induction n arbitrary: v) simp_all

lemma set_packed_loop_eq:
  "n < length ptr \<Longrightarrow> set_packed_loop n ptr v = Inr (take 1 ptr @ map Some (be_bytes n v) @ drop (Suc n) ptr, drop_bit (8 * n) v)"
proof (induction n arbitrary: ptr v)
  case 0
  then show ?case by (cases ptr) simp_all
next
  case (Suc n)
  let ?p = "ptr[Suc n := Some (ucast v)]"
  have "take 1 ?p = take 1 ptr" by (cases ptr) simp_all
  moreover have "drop (Suc n) ?p = Some (ucast v) # drop (Suc (Suc n)) ptr"
    using Suc.prems by (simp add: drop_update_swap Cons_nth_drop_Suc [symmetric])
  ultimately show ?case using Suc.IH [of ?p "drop_bit 8 v"] Suc.prems by (simp add: poke_in drop_bit_drop_bit add.commute)
qed

lemma get_packed_step: "get_packed_loop (Suc n) (a # ys) v = get_packed_loop n ys (push_bit 8 v OR ucast a)"
  by (simp add: peek_in)

lemma get_packed_loop_snoc:
  "get_packed_loop (Suc (length xs)) (xs @ b # rest) v = res_bind (get_packed_loop (length xs) (xs @ b # rest) v) (\<lambda>a. Inr (push_bit 8 a OR ucast b))"
proof (induction xs arbitrary: v)
  case (Cons a xs)
  then show ?case by (simp only: append_Cons list.size(4) get_packed_step add_Suc_right add_0_right)
qed (simp add: peek_in)

lemma get_packed_loop_eq:
  "get_packed_loop n (be_bytes n v @ rest) a = Inr (push_bit (8 * n) a OR take_bit (8 * n) v)"
proof (induction n arbitrary: v rest)
  case (Suc n)
  have "push_bit 8 (push_bit (8 * n) a OR take_bit (8 * n) (drop_bit 8 v)) OR ucast (ucast v :: 8 word) =
      push_bit (8 * Suc n) a OR take_bit (8 * Suc n) v"
    by (rule bit_word_eqI) (auto simp: bit_simps)
  then show ?case
    using get_packed_loop_snoc [of "be_bytes n (drop_bit 8 v)" "ucast v" rest a] Suc.IH [of "drop_bit 8 v" "ucast v # rest"]
    by (simp del: get_packed_loop.simps)
qed simp

lemma numExtra_bound:
  "numExtraBytesFromValue v \<le> 8"
  "numExtraBytesFromValue v < 8 \<Longrightarrow> unat v < 2 ^ (7 * (numExtraBytesFromValue v + 1))"
  by (auto simp: numExtraBytesFromValue_def word_less_nat_alt word_le_nat_alt not_le)

text \<open>The first byte: \<open>n\<close> ones, a zero, and \<open>7 - n\<close> bits of the value.\<close>

lemma leading_masks:
  assumes "n < 8"
  shows "leadingLengthMask ! n = push_bit (8 - n) (mask n)" "leadingValueMask ! n = mask (7 - n)"
proof -
  consider "n = 0" | "n = 1" | "n = 2" | "n = 3" | "n = 4" | "n = 5" | "n = 6" | "n = 7" using assms by linarith
  then show "leadingLengthMask ! n = push_bit (8 - n) (mask n)" "leadingValueMask ! n = mask (7 - n)"
    by (cases; simp add: leadingLengthMask_def leadingValueMask_def mask_eq_exp_minus_1)+
qed

lemma first_byte:
  assumes "n < 8" "unat x < 2 ^ (7 - n)"
  shows "numExtraBytesFromFirst (x OR leadingLengthMask ! n) = n" "(x OR leadingLengthMask ! n) AND leadingValueMask ! n = x"
proof -
  have or: "unat (x OR push_bit k (mask m AND mask m)) = 2 ^ k * (unat (mask m :: 8 word) mod 2 ^ m) + unat x"
    if "unat x < 2 ^ k" "k + m \<le> 8" for k m
    using unat_hi_lo [OF that, of "mask m"] by (simp add: or.commute)
  consider "n = 0" | "n = 1" | "n = 2" | "n = 3" | "n = 4" | "n = 5" | "n = 6" | "n = 7" using assms(1) by linarith
  then show "numExtraBytesFromFirst (x OR leadingLengthMask ! n) = n"
    using assms(2) or [of 7 1] or [of 6 2] or [of 5 3] or [of 4 4] or [of 3 5] or [of 2 6] or [of 1 7]
    by cases (simp_all add: leadingLengthMask_def numExtraBytesFromFirst_def word_le_nat_alt mask_eq_exp_minus_1)
  have "take_bit (7 - n) (unat x) = unat x" using assms(2) by (simp add: take_bit_nat_eq_self)
  then have x: "take_bit (7 - n) x = x" by (metis unsigned_take_bit_eq unsigned_word_eqI)
  have "(take_bit (7 - n) x OR push_bit (8 - n) (mask n)) AND mask (7 - n) = take_bit (7 - n) x"
    by (rule bit_word_eqI) (auto simp: bit_simps)
  then show "(x OR leadingLengthMask ! n) AND leadingValueMask ! n = x" using x leading_masks [OF assms(1)] by simp
qed

lemma packed_first:
  fixes v :: "64 word"
  defines "n \<equiv> numExtraBytesFromValue v"
  defines "b \<equiv> ucast (drop_bit (8 * n) v) OR leadingLengthMask ! n"
  shows "numExtraBytesFromFirst b = n" "push_bit (8 * n) (ucast (b AND leadingValueMask ! n)) OR take_bit (8 * n) v = v"
proof -
  let ?w = "drop_bit (8 * n) v"
  have "numExtraBytesFromFirst b = n \<and> push_bit (8 * n) (ucast (b AND leadingValueMask ! n)) OR take_bit (8 * n) v = v"
  proof (cases "n < 8")
    case True
    have "unat v < 2 ^ (7 * (n + 1))" using numExtra_bound(2) [of v] True by (simp add: n_def)
    also have "\<dots> = 2 ^ (7 - n) * 2 ^ (8 * n)" using True by (simp flip: power_add)
    finally have w: "unat ?w < 2 ^ (7 - n)" by (simp add: unat_drop_bit_eq drop_bit_eq_div [of _ "unat v"] div_less_iff_less_mult)
    also have "\<dots> \<le> (2 :: nat) ^ 7" by (intro power_increasing) simp_all
    finally have "unat ?w < 2 ^ 8" by simp
    then have small: "unat (ucast ?w :: 8 word) = unat ?w" by (simp add: unsigned_ucast_eq take_bit_nat_eq_self)
    have "unat (ucast (ucast ?w :: 8 word) :: 64 word) = unat ?w"
      using \<open>unat ?w < 2 ^ 8\<close> by (simp add: unsigned_ucast_eq [where 'a = nat] small take_bit_nat_eq_self)
    then have "ucast (ucast ?w :: 8 word) = ?w" by (rule unsigned_word_eqI)
    moreover have "push_bit (8 * n) ?w OR take_bit (8 * n) v = v" by (rule bit_word_eqI) (auto simp: bit_simps)
    ultimately show ?thesis using first_byte [OF True, of "ucast ?w"] w small by (simp add: b_def)
  next
    case False
    then have "n = 8" using numExtra_bound(1) [of v] by (simp add: n_def)
    moreover have "take_bit 64 v = v" by (rule take_bit_word_eq_self) simp
    ultimately show ?thesis by (simp add: b_def leadingLengthMask_def leadingValueMask_def numExtraBytesFromFirst_def)
  qed
  then show "numExtraBytesFromFirst b = n" "push_bit (8 * n) (ucast (b AND leadingValueMask ! n)) OR take_bit (8 * n) v = v" by simp_all
qed

text \<open>The bytes of a packed number.\<close>

definition packed_int :: "64 word \<Rightarrow> bytes" where
  "packed_int v =
     (let n = numExtraBytesFromValue v in (ucast (drop_bit (8 * n) v) OR leadingLengthMask ! n) # be_bytes n v)"

lemma length_packed_int: "length (packed_int v) = numExtraBytesFromValue v + 1"
  by (simp add: packed_int_def Let_def)

lemma rtlSetPackedUnsigned_eq:
  assumes "numExtraBytesFromValue v < length ptr"
  shows "rtlSetPackedUnsigned ptr v = Inr (map Some (packed_int v) @ drop (numExtraBytesFromValue v + 1) ptr)"
proof -
  have "take 1 ptr = [hd ptr]" using assms by (cases ptr) auto
  then show ?thesis using set_packed_loop_eq [OF assms, of v]
    by (simp add: rtlSetPackedUnsigned_def Let_def poke_in packed_int_def)
qed

lemma rtlGetPackedUnsigned_eq:
  "rtlGetPackedUnsigned (packed_int v @ rest) = Inr v" "rtlGetPackedSize (packed_int v @ rest) = Inr (numExtraBytesFromValue v + 1)"
  using packed_first [of v] get_packed_loop_eq [of "numExtraBytesFromValue v" v rest]
  by (simp_all add: rtlGetPackedUnsigned_def rtlGetPackedSize_def packed_int_def Let_def peek_in)

text \<open>The sign is the last bit of what is stored for a signed number.\<close>

definition zigzag :: "64 word \<Rightarrow> 64 word" where
  "zigzag v = (if v <s 0 then push_bit 1 (NOT v) OR 1 else push_bit 1 v)"

lemma zigzag_inverse: "(if zigzag v AND 1 \<noteq> 0 then NOT (drop_bit 1 (zigzag v)) else drop_bit 1 (zigzag v)) = v"
proof -
  have neg: "v <s 0 \<longleftrightarrow> bit v 63" using bit_last_iff [of v] by (simp add: word_sless_alt)
  have odd: "zigzag v AND 1 \<noteq> 0 \<longleftrightarrow> v <s 0" by (simp add: zigzag_def and_one_eq odd_iff_mod_2_eq_one [symmetric] even_or_iff)
  have "NOT (drop_bit 1 (push_bit 1 (NOT v) OR 1)) = v" if "bit v 63"
  proof (rule bit_word_eqI)
    fix n :: nat assume "n < LENGTH(64)"
    then show "bit (NOT (drop_bit 1 (push_bit 1 (NOT v) OR 1))) n \<longleftrightarrow> bit v n"
      using that by (cases "n = 63") (simp_all add: bit_simps del: push_bit_Suc One_nat_def)
  qed
  moreover have "drop_bit 1 (push_bit 1 v) = v" if "\<not> bit v 63"
  proof (rule bit_word_eqI)
    fix n :: nat assume "n < LENGTH(64)"
    then show "bit (drop_bit 1 (push_bit 1 v)) n \<longleftrightarrow> bit v n" using that by (cases "n = 63") (simp_all add: bit_simps del: push_bit_Suc One_nat_def)
  qed
  ultimately show ?thesis using neg odd by (simp add: zigzag_def)
qed

lemma rtlSetPackedSigned_eq:
  assumes "numExtraBytesFromValue (zigzag v) < length ptr"
  shows "rtlSetPackedSigned ptr v = Inr (map Some (packed_int (zigzag v)) @ drop (numExtraBytesFromValue (zigzag v) + 1) ptr)"
  using rtlSetPackedUnsigned_eq [OF assms] by (simp add: rtlSetPackedSigned_def zigzag_def Let_def)

lemma rtlGetPackedSigned_eq: "rtlGetPackedSigned (packed_int (zigzag v) @ rest) = Inr v"
  using zigzag_inverse [of v] unfolding rtlGetPackedSigned_def rtlGetPackedUnsigned_eq(1) Let_def res_bind_simps by presburger

text \<open>The number of bytes behind the first is the least one whose bits hold the value.\<close>

lemma numExtra_least: "j < numExtraBytesFromValue v \<Longrightarrow> 2 ^ (7 * (j + 1)) \<le> unat v"
proof -
  assume j: "j < numExtraBytesFromValue v"
  have "j < 8" using j numExtra_bound(1) [of v] by simp
  then consider "j = 0" | "j = 1" | "j = 2" | "j = 3" | "j = 4" | "j = 5" | "j = 6" | "j = 7" by linarith
  then show ?thesis using j
    by cases (auto simp: numExtraBytesFromValue_def word_less_nat_alt word_le_nat_alt not_le split: if_splits)
qed

end
