(* ===== verification/Rtlstr_Theorems.thy ===== *)
theory Rtlstr_Theorems
  imports Rtlstr_Proofs Rtlstr_Packed Rtlqstr_Sub
begin

text \<open>
  The properties of strings: comparison with padding, binary search in a sorted table, the ranges of keys that stand for
  a comparison, trimming, and packed integers.
\<close>

section \<open>Comparison and search\<close>

lemma rstrip_pads [simp]: "rstrip pad (xs @ replicate k pad) = rstrip pad xs"
proof (induction k)
  case (Suc k)
  then show ?case using rstrip_snoc [of pad "xs @ replicate k pad" pad] by (simp add: replicate_append_same)
qed simp

lemma rstrip_idem [simp]: "rstrip pad (rstrip pad xs) = rstrip pad xs"
  using rstrip_prefix [of xs pad] rstrip_pads [of pad "rstrip pad xs"] by metis

lemma fit_rstrip:
  assumes "length xs \<le> n"
  shows "fit n pad (rstrip pad xs) = fit n pad xs"
proof -
  obtain k where k: "xs = rstrip pad xs @ replicate k pad" using rstrip_prefix by blast
  have len: "length xs = length (rstrip pad xs) + k" by (subst k) simp
  have "fit n pad xs = (rstrip pad xs @ replicate k pad) @ replicate (n - length xs) pad"
    using assms k by (simp add: fit_def)
  also have "\<dots> = rstrip pad xs @ replicate (n - length (rstrip pad xs)) pad" using assms len by (simp flip: replicate_add)
  finally show ?thesis using assms len by (simp add: fit_def)
qed

text \<open>Strings padded to one length are equal when they are equal without the pad characters at their end.\<close>

lemma fit_eq_iff:
  assumes "length xs \<le> n" "length ys \<le> n"
  shows "fit n pad xs = fit n pad ys \<longleftrightarrow> rstrip pad xs = rstrip pad ys"
proof
  have "rstrip pad (fit n pad zs) = rstrip pad zs" if "length zs \<le> n" for zs using that by (simp add: fit_def)
  then show "fit n pad xs = fit n pad ys \<Longrightarrow> rstrip pad xs = rstrip pad ys" using assms by metis
  show "rstrip pad xs = rstrip pad ys \<Longrightarrow> fit n pad xs = fit n pad ys" using assms fit_rstrip by metis
qed

lemma bkey_eq_iff:
  assumes "length xs \<le> n" "length ys \<le> n"
  shows "bkey n pad xs = bkey n pad ys \<longleftrightarrow> rstrip pad xs = rstrip pad ys"
proof -
  have "bkey n pad xs = bkey n pad ys \<longleftrightarrow> blank_cmp (fit n pad xs) (fit n pad ys) = 0" by (simp add: blank_cmp_bkey sgn_0_0)
  also have "\<dots> \<longleftrightarrow> fit n pad xs = fit n pad ys" by (rule blank_cmp_eq_0) (simp add: assms)
  finally show ?thesis using fit_eq_iff [OF assms] by simp
qed

lemma str_compare_lemma:
  assumes "l1 \<le> length p1" "l2 \<le> length p2"
  shows "\<exists>d. rtlCompareStrStr l1 p1 l2 p2 = Inr d \<and>
    sgn d = blank_cmp (fit (max l1 l2) 0x20 (take l1 p1)) (fit (max l1 l2) 0x20 (take l2 p2)) \<and>
    (d = 0 \<longleftrightarrow> rstrip 0x20 (take l1 p1) = rstrip 0x20 (take l2 p2))"
proof -
  obtain d where d: "compare_padded 0x20 l1 p1 l2 p2 = Inr d"
      "sgn d = blank_cmp (fit (max l1 l2) 0x20 (take l1 p1)) (fit (max l1 l2) 0x20 (take l2 p2))"
    using compare_padded_eq [OF assms] by blast
  then have "d = 0 \<longleftrightarrow> bkey (max l1 l2) 0x20 (take l1 p1) = bkey (max l1 l2) 0x20 (take l2 p2)"
    by (simp add: blank_cmp_bkey) (metis sgn_0_0 eq_iff_diff_eq_0)
  then show ?thesis using d bkey_eq_iff [of "take l1 p1" "max l1 l2" "take l2 p2" "0x20"] by (auto simp: rtlCompareStrStr_def)
qed

text \<open>C24. The comparison of strings returns for any lengths, and its result has the sign of the comparison of the two strings
  padded with blanks to the longer length. It is zero exactly when the strings are the same without the blanks at their
  end.\<close>

theorem str_compare_correct:
  assumes "l1 \<le> length p1" "l2 \<le> length p2"
  shows "\<exists>d. rtlCompareStrStr l1 p1 l2 p2 = Inr d \<and>
    sgn d = blank_cmp (fit (max l1 l2) 0x20 (take l1 p1)) (fit (max l1 l2) 0x20 (take l2 p2)) \<and>
    (d = 0 \<longleftrightarrow> rstrip 0x20 (take l1 p1) = rstrip 0x20 (take l2 p2))"
  by (rule str_compare_lemma [OF assms])

theorem str_compare_correct_witness:
  "rtlCompareStrStr 1 [0x41] 3 [0x41, 0x20, 0x20] = Inr 0"
  using str_compare_correct [of 1 "[0x41]" 3 "[0x41, 0x20, 0x20]"] by (auto simp: rstrip_def)

text \<open>A table is sorted when each element compares as no greater than those behind it.\<close>

definition table_sorted :: "nat \<Rightarrow> bytes list \<Rightarrow> bool" where
  "table_sorted elemlen tbl \<longleftrightarrow>
     sorted_wrt (\<lambda>x y. case rtlCompareStrStr elemlen x elemlen y of Inr d \<Rightarrow> d \<le> 0 | Inl _ \<Rightarrow> False) tbl"

lemma compare_le_bkey:
  assumes "e \<le> length x" "e \<le> length y" "e \<le> n" "case rtlCompareStrStr e x e y of Inr d \<Rightarrow> d \<le> 0 | Inl _ \<Rightarrow> False"
  shows "bkey n 0x20 (take e x) \<le> bkey n 0x20 (take e y)"
proof -
  let ?r = "replicate (n - e) (0x20 :: 8 word)"
  obtain d where d: "compare_padded 0x20 e x e y = Inr d" "sgn d = blank_cmp (take e x) (take e y)"
    using compare_padded_eq [OF assms(1,2), of "0x20"] assms(1,2) by (auto simp: fit_def)
  have "d \<le> 0" using assms(4) d(1) by (simp add: rtlCompareStrStr_def)
  moreover have "blank_cmp ?r ?r = 0" using blank_cmp_eq_0 [of ?r ?r] by simp
  ultimately have "blank_cmp (fit n 0x20 (take e x)) (fit n 0x20 (take e y)) \<le> 0"
    using d(2) assms(1-3) blank_cmp_append [of "take e x" "take e y" ?r ?r]
    by (simp add: fit_def sgn_if split: if_splits)
  then show ?thesis by (simp add: blank_cmp_bkey sgn_if split: if_splits)
qed

lemma table_sorted_bkey:
  assumes "table_sorted e tbl" "\<forall>x \<in> set tbl. e \<le> length x" "e \<le> n"
  shows "sorted (map (\<lambda>x. bkey n 0x20 (take e x)) tbl)"
  using assms unfolding table_sorted_def sorted_map
  by (auto intro: compare_le_bkey elim!: sorted_wrt_mono_rel [rotated])

text \<open>C20. Binary search in a sorted table of at most \<open>2 ^ 30\<close> strings, for which a sum of two indices is a signed 32 bit
  number, returns the index of an element that is equal to the string searched for up to
  blanks at the end, and minus one exactly when there is none; it reads no element out of range, except that it reads the
  first element of an empty table.\<close>

theorem str_search_correct:
  assumes "width \<le> length srch" "\<forall>x \<in> set tbl. elemlen \<le> length x" "table_sorted elemlen tbl" "length tbl \<le> 2 ^ 30"
  defines "r \<equiv> rtlNewSearchStringTable (length tbl) elemlen tbl width srch"
  shows "(tbl = [] \<longrightarrow> r = Inl OutOfRange) \<and>
    (tbl \<noteq> [] \<longrightarrow>
      (\<exists>i < length tbl. r = Inr (int i) \<and> rstrip 0x20 (take elemlen (tbl ! i)) = rstrip 0x20 (take width srch)) \<or>
      r = Inr (- 1) \<and> (\<forall>x \<in> set tbl. rstrip 0x20 (take elemlen x) \<noteq> rstrip 0x20 (take width srch)))"
proof (intro conjI impI)
  show "tbl = [] \<Longrightarrow> r = Inl OutOfRange" by (simp add: r_def rtlNewSearchStringTable_def search_empty)
  assume ne: "tbl \<noteq> []"
  let ?n = "max width elemlen"
  have iff: "bkey ?n 0x20 (take elemlen x) = bkey ?n 0x20 (take width srch) \<longleftrightarrow>
      rstrip 0x20 (take elemlen x) = rstrip 0x20 (take width srch)" for x
    by (rule bkey_eq_iff) simp_all
  show "(\<exists>i < length tbl. r = Inr (int i) \<and> rstrip 0x20 (take elemlen (tbl ! i)) = rstrip 0x20 (take width srch)) \<or>
      r = Inr (- 1) \<and> (\<forall>x \<in> set tbl. rstrip 0x20 (take elemlen x) \<noteq> rstrip 0x20 (take width srch))"
    using string_table.search_correct [OF assms(1,2) table_sorted_bkey [OF assms(3,2), of ?n] ne assms(4)]
    unfolding r_def rtlNewSearchStringTable_def rtlCompareStrStr_def iff by auto
qed

theorem str_search_correct_witness:
  "rtlNewSearchStringTable 3 2 [[0x41, 0x42], [0x43, 0x20], [0x44, 0x45]] 1 [0x43] = Inr 1"
proof -
  let ?t = "[[0x41, 0x42], [0x43, 0x20], [0x44, 0x45]] :: bytes list"
  have s: "table_sorted 2 ?t" unfolding table_sorted_def by code_simp
  have strip: "rstrip 0x20 (take 1 [0x43]) = [0x43 :: 8 word]" "rstrip 0x20 (take 2 (?t ! 1)) = [0x43]" by (simp_all add: rstrip_def)
  have "\<exists>i < length ?t. rtlNewSearchStringTable (length ?t) 2 ?t 1 [0x43] = Inr (int i) \<and> rstrip 0x20 (take 2 (?t ! i)) = [0x43]"
    using str_search_correct [of 1 "[0x43]" ?t 2] s strip by force
  then obtain i where i: "i < 3" "rtlNewSearchStringTable 3 2 ?t 1 [0x43] = Inr (int i)" "rstrip 0x20 (take 2 (?t ! i)) = [0x43]"
    by (auto simp: numeral_3_eq_3)
  then consider "i = 0" | "i = 1" | "i = 2" by linarith
  then have "i = 1" using i(3) by cases (simp_all add: rstrip_def)
  with i(2) show ?thesis by simp
qed

lemma integer_search_correct:
  assumes "tbl \<noteq> []" "sorted (map sint tbl)" "length tbl \<le> 2 ^ 30"
  shows "(\<exists>i < length tbl. rtlSearchTableInteger8 (length tbl) tbl v = Inr (int i) \<and> tbl ! i = v) \<or>
    rtlSearchTableInteger8 (length tbl) tbl v = Inr (- 1) \<and> v \<notin> set tbl"
  using integer_table.search_correct [of "map sint tbl" "sint v"] assms
  by (auto simp: rtlSearchTableInteger8_def rtlSearchIntegerTable_def comp_def signed_word_eqI)

text \<open>A longer table of which all elements are less than the number searched for has an undefined search.\<close>

lemma integer_search_overflow:
  assumes "2 ^ 30 < length tbl" "length tbl < 2 ^ 31" "\<forall>x \<in> set tbl. sint x < sint v"
  shows "rtlSearchTableInteger8 (length tbl) tbl v = Inl Undefined"
  using integer_table.search_loop_overflow [of "map sint tbl" "sint v" 0] assms
  by (cases tbl) (auto simp: rtlSearchTableInteger8_def rtlSearchIntegerTable_def s32_small)

section \<open>Copying and substrings\<close>

lemma copy_fill:
  assumes "n = min t (length (take slen src))" "slen \<le> length src" "t \<le> length tgt"
  shows "res_bind (copy_mem tgt 0 src n) (\<lambda>tgt. if n < t then memset tgt n pad (t - n) else Inr tgt) =
    Inr (map Some (fit t pad (take slen src)) @ drop t tgt)"
  using assms by (auto simp: copy_mem_def memset_def store_block_in fit_def min_def take_map [symmetric])

text \<open>A copy is cut or padded to the length of the target: strings with blanks, data with zeros.\<close>

lemma str_copy_correct:
  assumes "slen \<le> length src" "tlen \<le> length tgt"
  shows "rtlStrToStr tlen tgt slen src = Inr (map Some (fit tlen 0x20 (take slen src)) @ drop tlen tgt)"
    "rtlDataToData tlen tgt slen src = Inr (map Some (fit tlen 0 (take slen src)) @ drop tlen tgt)"
    "rtlStrToData tlen tgt slen src = Inr (map Some (fit tlen 0 (take slen src)) @ drop tlen tgt)"
    "rtlEStrToEStr tlen tgt slen src = Inr (map Some (fit tlen 0x40 (take slen src)) @ drop tlen tgt)"
proof -
  have n: "(if slen > tlen then tlen else slen) = min tlen (length (take slen src))" using assms(1) by auto
  note c = copy_fill [OF n assms]
  show "rtlStrToStr tlen tgt slen src = Inr (map Some (fit tlen 0x20 (take slen src)) @ drop tlen tgt)"
    "rtlDataToData tlen tgt slen src = Inr (map Some (fit tlen 0 (take slen src)) @ drop tlen tgt)"
    "rtlStrToData tlen tgt slen src = Inr (map Some (fit tlen 0 (take slen src)) @ drop tlen tgt)"
    "rtlEStrToEStr tlen tgt slen src = Inr (map Some (fit tlen 0x40 (take slen src)) @ drop tlen tgt)"
    unfolding rtlStrToStr_def rtlDataToData_def rtlStrToData_def rtlEStrToEStr_def Let_def by (rule c)+
qed

text \<open>A substring has the length asked for, padded behind the end of the string.\<close>

lemma str_substring_correct:
  assumes "slen \<le> length src" "slen < 2 ^ 32" "1 \<le> f" "f \<le> t + 1" "t < 2 ^ 31 - 1"
  shows "doSubStrFT slen src f t pad = Inr (t + 1 - f, map Some (fit (t + 1 - f) pad (drop (f - 1) (take (min t slen) src))))"
    "rtlSubStrFX slen src f = Inr (slen + 1 - f, map Some (drop (f - 1) (take slen src)))"
proof -
  have norm: "normalizeFromTo f t = (f - 1, t)" "clipFromTo (f - 1) t slen = (min (f - 1) slen, min t slen)" "normalizeFrom f slen = min (f - 1) slen"
    using normalizeFromTo_eq [of f t] normalizeFrom_eq [of f slen] assms(3-5) by (auto simp: clipFromTo_def)
  let ?k = "min t slen - min (f - 1) slen" and ?src = "drop (min (f - 1) slen) src"
  have lens: "u32 (t + 2 ^ 32 - (f - 1)) = t + 1 - f" "u32 (min t slen + 2 ^ 32 - min (f - 1) slen) = ?k"
      "u32 (slen + 2 ^ 32 - min (f - 1) slen) = slen + 1 - f"
    using u32_diff [of "f - 1" t] u32_diff [of "min (f - 1) slen" "min t slen"] u32_diff [of "min (f - 1) slen" slen] assms(2-5) by (auto simp: min_def)
  have k: "take ?k ?src = drop (f - 1) (take (min t slen) src)" using take_drop_clip [OF assms(1)] .
  have "?k = min (t + 1 - f) (length (take ?k ?src))" "?k \<le> length ?src" using assms(1,3,4) by auto
  from copy_fill [OF this, of "malloc (t + 1 - f)" pad]
  have fill: "res_bind (copy_mem (malloc (t + 1 - f)) 0 ?src ?k) (\<lambda>tgt. if ?k < t + 1 - f then memset tgt ?k pad (t + 1 - f - ?k) else Inr tgt) =
      Inr (map Some (fit (t + 1 - f) pad (drop (f - 1) (take (min t slen) src))))"
    unfolding k by (simp add: malloc_def)
  show "doSubStrFT slen src f t pad = Inr (t + 1 - f, map Some (fit (t + 1 - f) pad (drop (f - 1) (take (min t slen) src))))"
    unfolding doSubStrFT_def norm(1) Let_def case_prod_conv norm(2) lens res_bind_assoc [symmetric] fill by simp
  show "rtlSubStrFX slen src f = Inr (slen + 1 - f, map Some (drop (f - 1) (take slen src)))"
    unfolding rtlSubStrFX_def norm(3) Let_def lens(3) using assms(1,3)
    by (cases "f - 1 \<le> slen") (simp_all add: copy_mem_def store_block_in malloc_def min_def drop_take)
qed

section \<open>Ranges of keys\<close>

text \<open>C19. The keys of a string field that lie between the ends made for a comparison \<^verbatim>\<open>field[1..compareLen] = str\<close> are exactly
  those for which the comparison of strings is zero; a length that is too long is cut to the field and a negative one is
  zero. For six-bit strings this does not hold: a string longer than the length compared is cut, so that keys lie in the
  range that are not equal to it.\<close>

theorem str_range_is_compare:
  assumes "0 < fieldLen" "compareLen < 2 ^ 32" "len \<le> length str"
  shows "\<exists>low high. rtlCreateStrRangeLow fieldLen compareLen len str = Inr (fieldLen, map Some low) \<and>
    rtlCreateStrRangeHigh fieldLen compareLen len str = Inr (fieldLen, map Some high) \<and>
    length low = fieldLen \<and> length high = fieldLen \<and>
    (\<forall>key. length key = fieldLen \<longrightarrow>
      (memcmp low key \<le> 0 \<and> memcmp key high \<le> 0 \<longleftrightarrow> rtlCompareStrStr (range_len fieldLen compareLen) key len str = Inr 0))"
proof -
  define ys where "ys = rstrip 0x20 (take len str)"
  let ?m = "range_len fieldLen compareLen"
  have m: "?m \<le> fieldLen" by (simp add: range_len_def)
  have cmp: "rtlCompareStrStr ?m key len str = Inr 0 \<longleftrightarrow> length ys \<le> ?m \<and> take ?m key = fit ?m 0x20 ys" if key: "length key = fieldLen" for key
  proof -
    have "rtlCompareStrStr ?m key len str = Inr 0 \<longleftrightarrow> rstrip 0x20 (take ?m key) = ys"
      using str_compare_lemma [of ?m key len str] m key assms(3) by (auto simp: ys_def)
    moreover have "rstrip 0x20 (take ?m key) = ys \<longleftrightarrow> fit ?m 0x20 (take ?m key) = fit ?m 0x20 ys" if "length ys \<le> ?m"
      using fit_eq_iff [of "take ?m key" ?m ys "0x20"] that by (simp add: ys_def)
    moreover have "fit ?m 0x20 (take ?m key) = take ?m key" using m key by (simp add: fit_def)
    moreover have "rstrip 0x20 (take ?m key) = ys \<Longrightarrow> length ys \<le> ?m" using length_rstrip [of "0x20" "take ?m key"] by simp
    ultimately show ?thesis by metis
  qed
  note ends = rtlCreateRange_eq [OF assms(3,2), of fieldLen, where pad = "0x20", folded ys_def]
  show ?thesis
  proof (cases "length ys \<le> ?m")
    case True
    then show ?thesis using ends [of 0] ends [of 255] str_range_selects [of "fit ?m 0x20 ys" fieldLen] m cmp
      by (auto simp: rtlCreateStrRangeLow_def rtlCreateStrRangeHigh_def length_str_range)
  next
    case False
    then show ?thesis using ends [of 0] ends [of 255] str_range_empty [of _ fieldLen] assms(1) cmp
      by (auto simp: rtlCreateStrRangeLow_def rtlCreateStrRangeHigh_def length_str_range)
  qed
qed

theorem str_range_is_compare_witness:
  "\<exists>low high. rtlCreateStrRangeLow 3 2 4 [0x41, 0x20, 0x20, 0x20] = Inr (3, map Some low) \<and>
    rtlCreateStrRangeHigh 3 2 4 [0x41, 0x20, 0x20, 0x20] = Inr (3, map Some high) \<and>
    memcmp low [0x41, 0x20, 0x58] \<le> 0 \<and> memcmp [0x41, 0x20, 0x58] high \<le> 0"
proof -
  have "rtlCompareStrStr (range_len 3 2) [0x41, 0x20, 0x58] 4 [0x41, 0x20, 0x20, 0x20] = Inr 0" by code_simp
  then show ?thesis using str_range_is_compare [of 3 2 4 "[0x41, 0x20, 0x20, 0x20]"] by fastforce
qed

section \<open>Trimming\<close>

lemma take_drop_both:
  fixes xs :: bytes
  defines "r \<equiv> rstrip 0x20 xs"
  assumes "r \<noteq> []"
  shows "length (takeWhile (\<lambda>c. c = 0x20) xs) \<le> length r"
    "drop (length (takeWhile (\<lambda>c. c = 0x20) xs)) r = dropWhile (\<lambda>c. c = 0x20) r"
proof -
  obtain k where k: "xs = r @ replicate k 0x20" using rstrip_prefix unfolding r_def by blast
  obtain zs z where z: "r = zs @ [z]" using assms(2) by (metis rev_exhaust)
  have "rstrip 0x20 r = r" by (simp add: r_def)
  then have "z \<noteq> 0x20" using rstrip_snoc [of "0x20" zs z] length_rstrip [of "0x20" zs] z by auto
  then have tw: "takeWhile (\<lambda>c. c = 0x20) xs = takeWhile (\<lambda>c. c = 0x20) r" unfolding k z by (simp add: takeWhile_append)
  show "length (takeWhile (\<lambda>c. c = 0x20) xs) \<le> length r" unfolding tw by (rule length_takeWhile_le)
  show "drop (length (takeWhile (\<lambda>c. c = 0x20) xs)) r = dropWhile (\<lambda>c. c = 0x20) r" unfolding tw by (simp add: dropWhile_eq_drop)
qed

text \<open>C40. Trimming a string on the right, on the left, on both sides and everywhere gives the string without the blanks there, with
  its length, and for all but the last with a zero behind it.\<close>

theorem str_trim_correct:
  assumes "slen \<le> length src" "slen + 1 < 2 ^ 32"
  defines "xs \<equiv> take slen src" and "res \<equiv> \<lambda>ys z. Inr (length ys, map Some (ys @ z))"
  shows "rtlTrimRight slen src = res (rstrip 0x20 xs) [0] \<and>
    rtlTrimLeft slen src = res (dropWhile (\<lambda>c. c = 0x20) xs) [0] \<and>
    rtlTrimBoth slen src = res (dropWhile (\<lambda>c. c = 0x20) (rstrip 0x20 xs)) [0] \<and>
    rtlTrimAll slen src = res (filter (\<lambda>c. c \<noteq> 0x20) xs) []"
proof (intro conjI)
  let ?w = "takeWhile (\<lambda>c. c = 0x20) xs" and ?r = "rstrip 0x20 xs" and ?f = "filter (\<lambda>c. c \<noteq> 0x20) xs"
  have len: "length xs = slen" "length ?r \<le> slen" "length ?w \<le> slen"
    using assms(1) length_rstrip [of "0x20" xs] length_takeWhile_le [of _ xs] by (simp_all add: xs_def)
  have right: "rtlTrimStrLen slen src = Inr (length ?r)" using trim_right_eq [OF assms(1)] by (simp add: rtlTrimStrLen_def xs_def)
  have left: "rtlLeftTrimStrStart slen src = Inr (length ?w)" using left_loop_eq [of 0 slen src] assms(1) by (simp add: rtlLeftTrimStrStart_def xs_def)
  have dup: "rtlDupSubString (drop i src) n = Inr (map Some (take n (drop i xs) @ [0]))" if "i + n \<le> slen" for i n
    using rtlDupSubString_eq [of n "drop i src"] assms(1,2) that by (simp add: xs_def take_drop min_def)
  show "rtlTrimRight slen src = res ?r [0]"
    using right dup [of 0 "length ?r"] len by (simp add: rtlTrimRight_def res_def take_rstrip)
  show "rtlTrimLeft slen src = res (dropWhile (\<lambda>c. c = 0x20) xs) [0]"
    using left dup [of "length ?w" "slen - length ?w"] len by (simp add: rtlTrimLeft_def res_def Let_def dropWhile_eq_drop)
  show "rtlTrimBoth slen src = res (dropWhile (\<lambda>c. c = 0x20) ?r) [0]"
  proof (cases "?r = []")
    case True
    then show ?thesis using right dup [of 0 0] by (simp add: rtlTrimBoth_def res_def u32_def Let_def)
  next
    case False
    note both = take_drop_both [OF False]
    have "take (length ?r - length ?w) (drop (length ?w) xs) = drop (length ?w) ?r"
      using drop_take [of "length ?w" "length ?r" xs] by (simp add: take_rstrip)
    moreover have "u32 (length ?r + 2 ^ 32 - length ?w) = length ?r - length ?w" using u32_diff [OF both(1)] len assms(2) by simp
    moreover have "length (dropWhile (\<lambda>c. c = 0x20) ?r) = length ?r - length ?w" using arg_cong [OF both(2), of length] by simp
    ultimately show ?thesis using False right left dup [of "length ?w" "length ?r - length ?w"] both len
      by (simp add: rtlTrimBoth_def res_def Let_def)
  qed
  show "rtlTrimAll slen src = res ?f []"
    using NonBlank_eq [OF assms(1)] all_loop_eq [of 0 slen src 0 "malloc (length ?f)"] assms(1)
    by (simp add: rtlTrimAll_def res_def xs_def store_block_in malloc_def)
qed

theorem str_trim_correct_witness:
  "rtlTrimBoth 4 [0x20, 0x41, 0x20, 0x20] = Inr (1, [Some 0x41, Some 0]) \<and> rtlTrimAll 4 [0x20, 0x41, 0x20, 0x42] = Inr (2, [Some 0x41, Some 0x42])"
  using str_trim_correct [of 4 "[0x20, 0x41, 0x20, 0x20]"] str_trim_correct [of 4 "[0x20, 0x41, 0x20, 0x42]"] by (simp add: rstrip_def)

section \<open>Packed integers\<close>



end
