(* ===== verification/Spec2Isabelle.thy ===== *)
theory Spec2Isabelle
  imports Rtlbcd_Theorems Jsuperhash_Theorems Rtlint_Proofs Jset_Theorems Rtlqstr_Theorems Rtlstr_Theorems
begin

text \<open>
  A verification library for run-time components of the HPCC platform: the decimal arithmetic of
  compiled ECL programs, their strings of bytes and of six-bit characters, and the containers and buffers of jlib that every process of the platform
  is built on.

  \<^bold>\<open>The parts and how they interact.\<close> The ECL compiler (src/ecl) translates a query to C++ that calls the
  ECL run-time library (src/rtl/eclrtl). An expression on decimals becomes calls on a stack of
  decimals (src/rtl/eclrtl/rtlbcd.cpp) whose elements are objects of class \<^verbatim>\<open>Decimal\<close>
  (src/rtl/nbcd/nbcd.cpp); values in records are read and written as packed decimals or as integers of one to
  eight bytes (src/rtl/eclrtl/rtlint.cpp). Strings of type QSTRING hold four characters in three bytes
  (src/rtl/eclrtl/rtlqstr.cpp); they can be pushed on the stack of decimals, serialised to a buffer, and select
  ranges of keys of an index, as strings of bytes do (src/rtl/eclrtl/eclrtl.cpp). The engines and services use jlib (src/system/jlib): hash tables
  (jsuperhash.cpp, with the hash functions of jhash.cpp), bit sets (jset.cpp) and the serialisation
  buffer \<^verbatim>\<open>MemoryBuffer\<close> (jbuff.cpp), which bit sets are stored in and serialised to.

  \<^bold>\<open>How the code is modelled.\<close> A C++ function is a definition with the function's name where HOL allows it;
  an object is a record of its data members. A function that can fail gives a sum (\<^theory_text>\<open>Prelude\<close>): reading
  or writing outside an array, a failed assertion, an exception with its code, not returning, and other undefined
  behaviour are errors of type \<open>cpp_error\<close>. A method that changes an object is a function from the object to
  its result and the object it leaves, also when it throws. Integers are words where the code depends on
  their width, and numbers with the wrap-around written out elsewhere. Loops are recursive functions
  whose termination is proved; where a loop could run on, running out of steps is an error that the
  theorems exclude.

  \<^bold>\<open>Theories.\<close>

  \<^item> \<^theory_text>\<open>Prelude\<close>: errors, stateful operations, bytes, and the arithmetic of digit segments.

  \<^item> \<^theory_text>\<open>Nbcd\<close>, \<^theory_text>\<open>Nbcd_Conv\<close>, \<^theory_text>\<open>Nbcd_Packed\<close>: class \<^verbatim>\<open>Decimal\<close> (nbcd.cpp), an array of 64 digits of which 32 are
    behind the point, with the most and the least significant position in use: arithmetic, rounding and
    comparison; conversion from and to text and integers; packed decimals. \<^theory_text>\<open>Nbcd_AddSub\<close>, \<^theory_text>\<open>Nbcd_Compare\<close>, \<^theory_text>\<open>Nbcd_Mul\<close>,
    \<^theory_text>\<open>Nbcd_Div\<close>, \<^theory_text>\<open>Nbcd_Round\<close>, \<^theory_text>\<open>Nbcd_Int\<close>, \<^theory_text>\<open>Nbcd_Text\<close>, \<^theory_text>\<open>Nbcd_Bcd\<close>, \<^theory_text>\<open>Nbcd_Pack\<close> and \<^theory_text>\<open>Nbcd_Valid\<close> prove what each operation
    computes of the value \<open>sval\<close> of a decimal, an integer in units of \<open>10 ^ -32\<close>, and that it keeps the
    invariant \<open>dec_wf\<close>; \<^theory_text>\<open>Nbcd_Theorems\<close> states the results, the cases in which the code goes wrong included.

  \<^item> \<^theory_text>\<open>Rtlbcd\<close>, \<^theory_text>\<open>Rtlbcd_Stack\<close>, \<^theory_text>\<open>Rtlbcd_Exec\<close>, \<^theory_text>\<open>Rtlbcd_Theorems\<close>: the stack of 32 decimals. The code of an arithmetic
    expression leaves the value of the expression on top of the stack: the locale \<open>value_stack\<close> states what
    a stack machine promises, and the run-time library is its interpretation. Division by zero and the
    bounds of the stack are treated case by case.

  \<^item> \<^theory_text>\<open>Jsuperhash\<close>, \<^theory_text>\<open>Jsuperhash_Probe\<close>, \<^theory_text>\<open>Jsuperhash_Table\<close>, \<^theory_text>\<open>Jsuperhash_Map\<close>, \<^theory_text>\<open>Jsuperhash_Exact\<close>, \<^theory_text>\<open>Jsuperhash_Iter\<close>,
    \<^theory_text>\<open>Jsuperhash_Grow\<close>, \<^theory_text>\<open>Jhash\<close>, \<^theory_text>\<open>Jsuperhash_Theorems\<close>: class \<^verbatim>\<open>SuperHashTable\<close>, open addressing with linear probing, deletion
    by moving elements back, growth, and iteration. The virtual methods of a derived class are the record
    \<open>vtable\<close> and what the table relies on them for is the locale \<open>hashed\<close>, interpreted for tables with string
    keys and the hash functions of jhash.cpp. Every reachable table satisfies the invariant of open
    addressing and behaves as a finite map.

  \<^item> \<^theory_text>\<open>Rtlint\<close>, \<^theory_text>\<open>Rtlint_Proofs\<close>: integers of one to eight bytes in memory, in both byte orders.

  \<^item> \<^theory_text>\<open>Jbuff\<close>, \<^theory_text>\<open>Jbuff_Proofs\<close>, \<^theory_text>\<open>Jbuff_Theorems\<close>: class \<^verbatim>\<open>MemoryBuffer\<close>. The locale \<open>codec\<close> is a type with a
    writer, a reader and its bytes; it is interpreted for bytes, truth values, integers, packed integers, strings,
    blocks and sequences of all of them, which gives that what is written is read back.

  \<^item> \<^theory_text>\<open>Jset\<close>, \<^theory_text>\<open>Jset_Proofs\<close>, \<^theory_text>\<open>Jset_Ranges\<close>, \<^theory_text>\<open>Jset_Theorems\<close>: bit sets. The parameter of the template \<^verbatim>\<open>CBitSetBase\<close> is a record
    of methods and its contract the locale \<open>bit_store\<close>, interpreted for the array helper and for the memory helper,
    which is a client of \<^verbatim>\<open>MemoryBuffer\<close>; both classes behave as sets of numbers.

  \<^item> \<^theory_text>\<open>Rtlqstr\<close>, \<^theory_text>\<open>Rtlqstr_Proofs\<close>, \<^theory_text>\<open>Rtlqstr_Order\<close>, \<^theory_text>\<open>Rtlqstr_Range\<close>, \<^theory_text>\<open>Rtlqstr_Sub\<close>, \<^theory_text>\<open>Rtlqstr_Theorems\<close>: six-bit strings
    (rtlqstr.cpp, and the substring functions of eclrtl.cpp). \<open>unpack\<close> gives the characters of a run of bytes and \<open>pack\<close>
    the bytes of characters; the conversions, the reader and the builder are shown to compute them, counting to be
    arithmetic in base 64, the comparison of bytes to be the comparison of characters on well-formed strings
    (\<open>qstr_wf\<close>), and a range of keys to hold exactly the keys that match.

  \<^item> \<^theory_text>\<open>Rtlstr\<close>, \<^theory_text>\<open>Rtlstr_Proofs\<close>, \<^theory_text>\<open>Rtlstr_Packed\<close>, \<^theory_text>\<open>Rtlstr_Theorems\<close>: strings, data and zero-terminated strings
    of bytes, and packed integers (eclrtl.cpp). Comparison is shown to compare the padded strings; the locale
    \<open>keyed_search\<close> states what binary search relies on, a comparison that has the sign of a difference of keys, and is
    interpreted for strings, fixed strings, data, six-bit strings and integers; the range of keys made for a comparison
    holds exactly the keys that compare equal; trimming, copying and substrings are the list functions; packed
    integers are read back and as short as possible.

  \<^bold>\<open>Bounds.\<close> Decimals have the 64 digits of the code, the stack its 32 elements. The loops of the hash table
    are given as many steps as the table has slots, which is enough since a table always has a free slot; the
    padding loop of a bit set is given as many steps as the item it pads to, since every step adds one. A bit
    set holds at most \<open>2 ^ 27\<close> items, the items of all 32 bit numbers. A buffer is bounded by the \<open>0xffff0000\<close> bytes
    up to which the code can grow it. The size of a six-bit string of \<open>n\<close> characters is computed in 32 bits and wraps
    around when \<open>3 * (n + 1)\<close> does not fit; the theorems on six-bit strings assume that it fits.
    Binary search adds two indices as signed 32 bit numbers: a sum that does not fit is undefined in the model, and the
    theorems on searches assume a table of at most \<open>2 ^ 30\<close> elements, for which every sum fits. Negating the least signed
    number, as the conversions between decimals and integers do, is undefined too.

  \<^bold>\<open>Not modelled.\<close> Within these components: conversions between decimals and floating point numbers; when a decimal
  operation fails inside the stack, the element keeps its digits in the model, whereas the code may have changed some of them;
  the mappings and set operations of jhash.cpp; reading and writing files from a buffer; allocation failure; the locks
  of the thread-safe bit set, whose operations are taken to be atomic;
  trimming of white space (which depends on the locale of the process), EBCDIC and unicode strings. Of the platform: the ECL compiler, the
  workunit store, the Dali, Roxie, Thor and ESP servers, the rest of the run-time library and of jlib, and
  plugins. They are I/O and distributed coordination, or depend on far more state than a model of
  single components can hold; the manifest lists them with their reasons.
\<close>

end
